(* ===== verification/Redis_Base.thy ===== *)
theory Redis_Base
  imports Main "HOL-Library.Word" "HOL-Library.Monad_Syntax"
begin

text \<open>
  The prelude of the development. C memory is a list of bytes; a pointer into a block is an
  integer offset. A read or a write that leaves the block, and a failed \<open>assert\<close>,
  make the whole computation \<open>None\<close>, so that a theorem \<open>f x = Some y\<close> says
  that the code neither aborts nor touches memory outside the block.
  The theory holds loads, stores, \<open>memmove\<close>, \<open>realloc\<close> with indeterminate fresh
  bytes, little-endian integers of any width, and the list lemmas the components share.
\<close>

section \<open>Collections\<close>

named_theorems mem_simps \<open>loads, stores and moves inside a block\<close>
named_theorems le_simps \<open>little-endian encoding and decoding\<close>

section \<open>Memory\<close>

type_synonym byte = "8 word"
type_synonym mem = "byte list"

definition guard :: "bool \<Rightarrow> unit option" where
  "guard b = (if b then Some () else None)"

definition load :: "mem \<Rightarrow> int \<Rightarrow> nat \<Rightarrow> byte list option" where
  "load m off n =
     (if 0 \<le> off \<and> nat off + n \<le> length m then Some (take n (drop (nat off) m)) else None)"

definition store :: "mem \<Rightarrow> int \<Rightarrow> byte list \<Rightarrow> mem option" where
  "store m off bs =
     (if 0 \<le> off \<and> nat off + length bs \<le> length m
      then Some (take (nat off) m @ bs @ drop (nat off + length bs) m) else None)"

definition rd :: "mem \<Rightarrow> int \<Rightarrow> byte option" where
  "rd m off = (if 0 \<le> off \<and> nat off < length m then Some (m ! nat off) else None)"

text \<open>\<open>memmove\<close>: the source bytes are read before any is written, so overlap is harmless.\<close>

definition memmove :: "mem \<Rightarrow> int \<Rightarrow> int \<Rightarrow> nat \<Rightarrow> mem option" where
  "memmove m dst src n = do { bs \<leftarrow> load m src n; store m dst bs }"

text \<open>
  The allocator: a request for \<open>n\<close> bytes gives a block of \<open>n + slack n\<close> usable bytes
  (what \<open>zmalloc_usable_size\<close> reports), and bytes that were not copied are indeterminate.
\<close>

record allocator =
  slack :: "nat \<Rightarrow> nat"
  junk :: "nat \<Rightarrow> byte"

definition realloc :: "allocator \<Rightarrow> mem \<Rightarrow> nat \<Rightarrow> mem" where
  "realloc a m n = take n m @ map (junk a) [min n (length m) ..< n + slack a n]"

section \<open>Little-endian integers\<close>

primrec le_bytes :: "nat \<Rightarrow> int \<Rightarrow> byte list" where
  "le_bytes 0 v = []"
| "le_bytes (Suc n) v = word_of_int v # le_bytes n (v div 256)"

primrec le_uint :: "byte list \<Rightarrow> int" where
  "le_uint [] = 0"
| "le_uint (b # bs) = uint b + 256 * le_uint bs"

definition le_sint :: "byte list \<Rightarrow> int" where
  "le_sint bs =
     (let u = le_uint bs; h = 256 ^ length bs in if h \<le> 2 * u then u - h else u)"

text \<open>The values an \<open>n\<close>-byte two's complement integer can hold.\<close>

definition fits :: "nat \<Rightarrow> int \<Rightarrow> bool" where
  "fits n v \<longleftrightarrow> - (256 ^ n) \<le> 2 * v \<and> 2 * v < 256 ^ n"

section \<open>Lemmas on memory\<close>

lemma guard_Some [simp]: "guard b = Some u \<longleftrightarrow> b"
  by (simp add: guard_def)

lemma guard_True [simp]: "guard True = Some ()"
  by (simp add: guard_def)

lemma load_nat [mem_simps]:
  "k + n \<le> length m \<Longrightarrow> load m (int k) n = Some (take n (drop k m))"
  by (simp add: load_def)

lemma store_nat [mem_simps]:
  "k + length bs \<le> length m \<Longrightarrow>
   store m (int k) bs = Some (take k m @ bs @ drop (k + length bs) m)"
  by (simp add: store_def)

lemma rd_nat [mem_simps]: "k < length m \<Longrightarrow> rd m (int k) = Some (m ! k)"
  by (simp add: rd_def)

lemma memmove_nat [mem_simps]:
  assumes "s + n \<le> length m" and "d + n \<le> length m"
  shows "memmove m (int d) (int s) n =
    Some (take d m @ take n (drop s m) @ drop (d + n) m)"
  using assms by (simp add: memmove_def load_nat store_nat)

text \<open>The same for offsets of the form index times width, which \<open>simp\<close> keeps as a product.\<close>

lemma load_cell [mem_simps]:
  "i * e + n \<le> length m \<Longrightarrow> load m (int i * int e) n = Some (take n (drop (i * e) m))"
  using load_nat [of "i * e" n m] by simp

lemma store_cell [mem_simps]:
  "i * e + length bs \<le> length m \<Longrightarrow>
   store m (int i * int e) bs = Some (take (i * e) m @ bs @ drop (i * e + length bs) m)"
  using store_nat [of "i * e" bs m] by simp

lemma memmove_cell [mem_simps]:
  "s * e + n \<le> length m \<Longrightarrow> d * e + n \<le> length m \<Longrightarrow>
   memmove m (int d * int e) (int s * int e) n =
    Some (take (d * e) m @ take n (drop (s * e) m) @ drop (d * e + n) m)"
  using memmove_nat [of "s * e" n m "d * e"] by simp

lemma load_SomeD: "load m off n = Some bs \<Longrightarrow> length bs = n"
  by (auto simp: load_def split: if_splits)

lemma store_length: "store m off bs = Some m' \<Longrightarrow> length m' = length m"
  by (auto simp: store_def split: if_splits)

lemma length_realloc [simp]: "length (realloc a m n) = n + slack a n"
  by (simp add: realloc_def)

lemma take_realloc [simp]:
  "k \<le> n \<Longrightarrow> k \<le> length m \<Longrightarrow> take k (realloc a m n) = take k m"
  by (simp add: realloc_def)

section \<open>Lemmas on 32-bit words\<close>

lemma sint_small32:
  assumes "unat (w :: 32 word) < 2 ^ 31"
  shows "sint w = int (unat w)"
proof -
  have "uint w < 2 ^ 31" using assms by (metis nat_less_numeral_power_cancel_iff unat_eq_nat_uint)
  then have "signed_take_bit 31 (uint w) = uint w"
    by (intro signed_take_bit_int_eq_self) (auto intro: order_trans [of _ 0])
  then show ?thesis by (simp add: sint_uint)
qed

lemma unat_add1_32: "unat (w :: 32 word) + 1 < 2 ^ 32 \<Longrightarrow> unat (w + 1) = unat w + 1"
  by (simp add: unat_word_ariths)

lemma unat_sub1_32: "w \<noteq> 0 \<Longrightarrow> unat (w - 1 :: 32 word) = unat w - 1"
  by (simp add: unat_minus_one)

section \<open>Lemmas on little-endian integers\<close>

lemma length_le_bytes [simp, le_simps]: "length (le_bytes n v) = n"
  by (induction n arbitrary: v) auto

lemma le_uint_nonneg [simp]: "0 \<le> le_uint bs"
  by (induction bs) auto

lemma le_uint_less: "le_uint bs < 256 ^ length bs"
proof (induction bs)
  case Nil
  then show ?case by simp
next
  case (Cons b bs)
  have "uint b < 256" using uint_lt2p [of b] by simp
  moreover have "le_uint bs + 1 \<le> 256 ^ length bs" using Cons.IH by simp
  ultimately show ?case by simp
qed

lemma le_uint_le_bytes [le_simps]: "le_uint (le_bytes n v) = v mod 256 ^ n"
proof (induction n arbitrary: v)
  case 0
  then show ?case by simp
next
  case (Suc n)
  have "uint (word_of_int v :: byte) = v mod 256"
    by (simp add: uint_word_of_int)
  then show ?case
    by (simp add: Suc.IH zmod_zmult2_eq)
qed

lemma word8_mod_eq [simp]: "(word_of_int (v mod 256) :: byte) = word_of_int v"
  by (simp add: word_of_int_eq_iff take_bit_eq_mod)

lemma le_bytes_cong_mod: "le_bytes n (v mod 256 ^ n) = le_bytes n v"
proof (induction n arbitrary: v)
  case 0
  then show ?case by simp
next
  case (Suc n)
  have a: "v mod 256 ^ Suc n div 256 = (v div 256) mod 256 ^ n"
    by (simp add: zmod_zmult2_eq)
  have "v mod 256 ^ Suc n mod 256 = v mod 256"
    by (rule mod_mod_cancel) simp
  then have b: "(word_of_int (v mod 256 ^ Suc n) :: byte) = word_of_int v"
    by (metis word8_mod_eq)
  show ?case using a b Suc.IH by simp
qed

lemma le_bytes_le_uint [le_simps]: "le_bytes (length bs) (le_uint bs) = bs"
proof (induction bs)
  case Nil
  then show ?case by simp
next
  case (Cons b bs)
  have b: "0 \<le> uint b" "uint b < 256" using uint_lt2p [of b] by simp_all
  then have "(uint b + 256 * le_uint bs) div 256 = le_uint bs" by simp
  moreover have "(word_of_int (uint b + 256 * le_uint bs) :: byte) = b"
    using word8_mod_eq [of "uint b + 256 * le_uint bs"] b by (simp add: word_of_int_uint)
  ultimately show ?case using Cons.IH by simp
qed

lemma twos_complement_range:
  fixes u h :: int
  assumes "0 \<le> u" and "u < h"
  shows "- h \<le> 2 * (if h \<le> 2 * u then u - h else u)"
    and "2 * (if h \<le> 2 * u then u - h else u) < h"
  using assms by auto

lemma fits_le_sint [simp]: "fits (length bs) (le_sint bs)"
  using twos_complement_range [OF le_uint_nonneg le_uint_less, of bs]
  by (simp add: fits_def le_sint_def Let_def)

lemma le_sint_le_bytes [le_simps]:
  assumes "fits n v"
  shows "le_sint (le_bytes n v) = v"
proof (cases "0 \<le> v")
  case True
  with assms show ?thesis
    by (simp add: le_sint_def Let_def le_uint_le_bytes fits_def)
next
  case False
  have "v mod 256 ^ n = (v + 256 ^ n) mod 256 ^ n" by simp
  also have "\<dots> = v + 256 ^ n"
    using assms False by (intro mod_pos_pos_trivial) (auto simp: fits_def)
  finally have "v mod 256 ^ n = v + 256 ^ n" .
  with assms False show ?thesis
    by (simp add: le_sint_def Let_def le_uint_le_bytes fits_def)
qed

lemma le_bytes_le_sint [le_simps]: "le_bytes (length bs) (le_sint bs) = bs"
proof -
  have "le_sint bs mod 256 ^ length bs = le_uint bs"
    using le_uint_less [of bs] by (auto simp: le_sint_def Let_def)
  then show ?thesis
    using le_bytes_cong_mod [of "length bs" "le_sint bs"]
      le_bytes_cong_mod [of "length bs" "le_uint bs"] le_bytes_le_uint [of bs]
    by simp
qed

lemma fits_mono: "fits m v \<Longrightarrow> m \<le> n \<Longrightarrow> fits n v"
proof -
  assume "fits m v" and "m \<le> n"
  moreover from \<open>m \<le> n\<close> have "(256::int) ^ m \<le> 256 ^ n"
    by (simp add: power_increasing)
  ultimately show ?thesis unfolding fits_def by linarith
qed

section \<open>Arrays of fixed-width cells\<close>

text \<open>
  A block that holds the values \<open>vs\<close>, each encoded in \<open>e\<close> bytes, one after the
  other. The lemmas say what the byte-level operations do to the list of values.
\<close>

definition cells :: "nat \<Rightarrow> int list \<Rightarrow> byte list" where
  "cells e vs = concat (map (le_bytes e) vs)"

lemma length_cells [simp]: "length (cells e vs) = length vs * e"
  by (induction vs) (auto simp: cells_def)

lemma cells_Nil [simp]: "cells e [] = []"
  by (simp add: cells_def)

lemma cells_append [simp]: "cells e (vs @ ws) = cells e vs @ cells e ws"
  by (simp add: cells_def)

lemma cells_single: "cells e [v] = le_bytes e v"
  by (simp add: cells_def)

lemma cells_Cons [simp]: "cells e (v # vs) = le_bytes e v @ cells e vs"
  by (simp add: cells_def)

lemma take_cells: "i \<le> length vs \<Longrightarrow> take (i * e) (cells e vs) = cells e (take i vs)"
proof -
  assume i: "i \<le> length vs"
  have "cells e vs = cells e (take i vs) @ cells e (drop i vs)"
    by (metis append_take_drop_id cells_append)
  then show ?thesis using i by simp
qed

lemma drop_cells: "i \<le> length vs \<Longrightarrow> drop (i * e) (cells e vs) = cells e (drop i vs)"
proof -
  assume i: "i \<le> length vs"
  have "cells e vs = cells e (take i vs) @ cells e (drop i vs)"
    by (metis append_take_drop_id cells_append)
  then show ?thesis using i by simp
qed

lemma take_drop_cells:
  assumes "i < length vs"
  shows "take e (drop (i * e) (cells e vs @ rest)) = le_bytes e (vs ! i)"
proof -
  have "i * e \<le> length vs * e" using assms by (intro mult_le_mono1) simp
  moreover have "drop (i * e) (cells e vs) = le_bytes e (vs ! i) @ cells e (drop (Suc i) vs)"
    using assms by (simp add: drop_cells Cons_nth_drop_Suc [symmetric])
  ultimately show ?thesis by simp
qed

end
