(* ===== verification/Interfaces.thy ===== *)
theory Interfaces
  imports Redis_Base
begin

text \<open>
  The contracts between components, as locales: the operations a client calls are the
  parameters, what the provider promises are the assumptions, and the lemmas a client relies on
  are proved once here. Every locale is interpreted on the model of the code, in the theory of
  the component that provides it.
\<close>

section \<open>A set of values behind fallible operations\<close>

text \<open>
  The loops of \<open>SADD\<close> and \<open>SREM\<close> over a set implementation (\<open>t_set.c\<close>): one call
  for each value, counting the calls that changed the set.
\<close>

fun add_all :: "('s \<Rightarrow> 'v \<Rightarrow> ('s \<times> bool) option) \<Rightarrow> 's \<Rightarrow> 'v list \<Rightarrow> nat \<Rightarrow> ('s \<times> nat) option" where
  "add_all add s [] n = Some (s, n)"
| "add_all add s (v # vs) n =
     do { (s', b) \<leftarrow> add s v; add_all add s' vs (if b then Suc n else n) }"

locale value_set =
  fixes add :: "'s \<Rightarrow> 'v \<Rightarrow> ('s \<times> bool) option"
    and remove :: "'s \<Rightarrow> 'v \<Rightarrow> ('s \<times> bool) option"
    and isin :: "'s \<Rightarrow> 'v \<Rightarrow> bool option"
    and elems :: "'s \<Rightarrow> 'v set"
    and invar :: "'s \<Rightarrow> bool"
    and valid :: "'v \<Rightarrow> bool"
    and cap :: nat
  assumes finite_elems: "finite (elems s)"
    and add_ok: "invar s \<Longrightarrow> valid v \<Longrightarrow> card (elems s) < cap \<Longrightarrow>
      \<exists>s'. add s v = Some (s', v \<notin> elems s) \<and> invar s' \<and> elems s' = insert v (elems s)"
    and remove_ok: "invar s \<Longrightarrow>
      \<exists>s'. remove s v = Some (s', v \<in> elems s) \<and> invar s' \<and> elems s' = elems s - {v}"
    and isin_ok: "invar s \<Longrightarrow> isin s v = Some (v \<in> elems s)"
begin

lemma add_all_ok:
  assumes "invar s" and "\<forall>v \<in> set vs. valid v" and "card (elems s \<union> set vs) < cap"
  shows "\<exists>s'. add_all add s vs n = Some (s', n + card (set vs - elems s)) \<and> invar s' \<and>
    elems s' = elems s \<union> set vs"
  using assms
proof (induction vs arbitrary: s n)
  case Nil
  then show ?case by simp
next
  case (Cons v vs)
  have "card (elems s) \<le> card (elems s \<union> set (v # vs))"
    by (intro card_mono) (auto simp: finite_elems)
  then obtain s1 where s1: "add s v = Some (s1, v \<notin> elems s)" "invar s1"
    "elems s1 = insert v (elems s)"
    using add_ok [of s v] Cons.prems by auto
  have "elems s1 \<union> set vs = elems s \<union> set (v # vs)" using s1(3) by auto
  then obtain s2 where s2: "add_all add s1 vs (if v \<notin> elems s then Suc n else n) =
      Some (s2, (if v \<notin> elems s then Suc n else n) + card (set vs - elems s1))"
      "invar s2" "elems s2 = elems s \<union> set (v # vs)"
    using Cons.IH [of s1 "if v \<notin> elems s then Suc n else n"] s1(2) Cons.prems by auto
  have "(if v \<notin> elems s then Suc n else n) + card (set vs - elems s1) =
      n + card (set (v # vs) - elems s)"
  proof (cases "v \<in> elems s")
    case True
    then have "set (v # vs) - elems s = set vs - elems s1" using s1(3) by auto
    then show ?thesis using True by simp
  next
    case False
    then have "set (v # vs) - elems s = insert v (set vs - elems s1)" using s1(3) by auto
    then show ?thesis using False s1(3) by simp
  qed
  then show ?case using s1(1) s2 by simp
qed

lemma isin_after_add:
  assumes "invar s" and "valid v" and "card (elems s) < cap"
  shows "\<exists>s' b. add s v = Some (s', b) \<and> isin s' w = Some (w = v \<or> w \<in> elems s)"
proof -
  obtain s' where "add s v = Some (s', v \<notin> elems s)" "invar s'" "elems s' = insert v (elems s)"
    using add_ok [OF assms] by blast
  then show ?thesis using isin_ok [of s' w] by simp
qed

lemma add_then_remove:
  assumes "invar s" and "valid v" and "card (elems s) < cap" and "v \<notin> elems s"
  shows "\<exists>s1 s2. add s v = Some (s1, True) \<and> remove s1 v = Some (s2, True) \<and> invar s2 \<and>
    elems s2 = elems s"
proof -
  obtain s1 where s1: "add s v = Some (s1, v \<notin> elems s)" "invar s1" "elems s1 = insert v (elems s)"
    using add_ok [OF assms(1-3)] by blast
  obtain s2 where "remove s1 v = Some (s2, v \<in> elems s1)" "invar s2" "elems s2 = elems s1 - {v}"
    using remove_ok [OF s1(2)] by blast
  then show ?thesis using s1 assms(4) by simp
qed

end

section \<open>A list with two ends\<close>

text \<open>
  Pushing the elements of a list one by one and popping a number of them, over operations that
  may fail.
\<close>

fun push_all :: "('s \<Rightarrow> 'v \<Rightarrow> 's option) \<Rightarrow> 's \<Rightarrow> 'v list \<Rightarrow> 's option" where
  "push_all push s [] = Some s"
| "push_all push s (v # vs) = do { s' \<leftarrow> push s v; push_all push s' vs }"

fun pop_all :: "('s \<Rightarrow> ('s \<times> 'v option) option) \<Rightarrow> 's \<Rightarrow> nat \<Rightarrow> ('s \<times> 'v list) option" where
  "pop_all pop s 0 = Some (s, [])"
| "pop_all pop s (Suc n) = do {
     (s', v) \<leftarrow> pop s;
     v \<leftarrow> v;
     (s', vs) \<leftarrow> pop_all pop s' n;
     Some (s', v # vs) }"

text \<open>
  \<open>holds s xs\<close>: the store \<open>s\<close> holds the elements \<open>xs\<close>, in order; \<open>fits xs\<close>: a store can hold
  them.
\<close>

locale list_ends =
  fixes push_head :: "'s \<Rightarrow> 'v \<Rightarrow> 's option"
    and push_tail :: "'s \<Rightarrow> 'v \<Rightarrow> 's option"
    and pop_head :: "'s \<Rightarrow> ('s \<times> 'v option) option"
    and pop_tail :: "'s \<Rightarrow> ('s \<times> 'v option) option"
    and holds :: "'s \<Rightarrow> 'v list \<Rightarrow> bool"
    and fits :: "'v list \<Rightarrow> bool"
  assumes push_head_ok: "holds s xs \<Longrightarrow> fits (x # xs) \<Longrightarrow> \<exists>s'. push_head s x = Some s' \<and> holds s' (x # xs)"
    and push_tail_ok: "holds s xs \<Longrightarrow> fits (xs @ [x]) \<Longrightarrow> \<exists>s'. push_tail s x = Some s' \<and> holds s' (xs @ [x])"
    and pop_head_ok: "holds s (x # xs) \<Longrightarrow> \<exists>s'. pop_head s = Some (s', Some x) \<and> holds s' xs"
    and pop_tail_ok: "holds s (xs @ [x]) \<Longrightarrow> \<exists>s'. pop_tail s = Some (s', Some x) \<and> holds s' xs"
    and fits_append: "fits (xs @ ys) \<Longrightarrow> fits xs \<and> fits ys"
begin

lemma push_tail_all:
  "holds s xs \<Longrightarrow> fits (xs @ ys) \<Longrightarrow> \<exists>s'. push_all push_tail s ys = Some s' \<and> holds s' (xs @ ys)"
proof (induction ys arbitrary: s xs)
  case (Cons y ys)
  have "fits (xs @ [y])" using fits_append [of "xs @ [y]" ys] Cons.prems by simp
  then obtain s1 where s1: "push_tail s y = Some s1" "holds s1 (xs @ [y])"
    using push_tail_ok Cons.prems by blast
  then show ?case using Cons.IH [of s1 "xs @ [y]"] Cons.prems by auto
qed simp

lemma push_head_all:
  "holds s xs \<Longrightarrow> fits (rev ys @ xs) \<Longrightarrow> \<exists>s'. push_all push_head s ys = Some s' \<and> holds s' (rev ys @ xs)"
proof (induction ys arbitrary: s xs)
  case (Cons y ys)
  have "fits (y # xs)" using fits_append [of "rev ys" "y # xs"] Cons.prems by simp
  then obtain s1 where s1: "push_head s y = Some s1" "holds s1 (y # xs)"
    using push_head_ok Cons.prems by blast
  then show ?case using Cons.IH [of s1 "y # xs"] Cons.prems by auto
qed simp

lemma pop_head_all:
  "holds s (xs @ ys) \<Longrightarrow> \<exists>s'. pop_all pop_head s (length xs) = Some (s', xs) \<and> holds s' ys"
proof (induction xs arbitrary: s)
  case (Cons x xs)
  then obtain s1 where "pop_head s = Some (s1, Some x)" "holds s1 (xs @ ys)"
    using pop_head_ok [of s x "xs @ ys"] by auto
  then show ?case using Cons.IH [of s1] by auto
qed simp

lemma fifo:
  assumes "holds s xs" and "fits (xs @ ys)"
  shows "\<exists>s1 s2. push_all push_tail s ys = Some s1 \<and>
    pop_all pop_head s1 (length xs + length ys) = Some (s2, xs @ ys) \<and> holds s2 []"
proof -
  obtain s1 where s1: "push_all push_tail s ys = Some s1" "holds s1 (xs @ ys)"
    using push_tail_all [OF assms] by blast
  then show ?thesis using pop_head_all [of s1 "xs @ ys" "[]"] by auto
qed

lemma lifo:
  assumes "holds s xs" and "fits (rev ys @ xs)"
  shows "\<exists>s1 s2. push_all push_head s ys = Some s1 \<and>
    pop_all pop_head s1 (length ys) = Some (s2, rev ys) \<and> holds s2 xs"
proof -
  obtain s1 where s1: "push_all push_head s ys = Some s1" "holds s1 (rev ys @ xs)"
    using push_head_all [OF assms] by blast
  then show ?thesis using pop_head_all [of s1 "rev ys" xs] by auto
qed

lemma rotate_ok:
  assumes "holds s (xs @ [x])" and "fits (x # xs)"
  shows "\<exists>s1 s2. pop_tail s = Some (s1, Some x) \<and> push_head s1 x = Some s2 \<and> holds s2 (x # xs)"
proof -
  obtain s1 where "pop_tail s = Some (s1, Some x)" "holds s1 xs" using pop_tail_ok [OF assms(1)] by blast
  then show ?thesis using push_head_ok [OF _ assms(2)] by blast
qed

end

end
