(* ===== verification/Intset_Correct.thy ===== *)
theory Intset_Correct
  imports Intset Interfaces
begin

text \<open>
  Correctness of the integer sets: the binary search, insertion with and without a change of
  width, removal, lookup and validation, first for the relation \<open>intset_repr\<close> between a block
  and the list of its values, then as the contract \<open>value_set\<close> and the properties C1 to C5.
\<close>

section \<open>Reading and searching\<close>


lemma search_mid_eq:
  assumes "0 \<le> lo" and "lo \<le> hi" and "hi < 2 ^ 31"
  shows "search_mid lo hi = (lo + hi) div 2"
proof -
  let ?w = "word_of_int lo + word_of_int hi :: 32 word"
  have u: "uint ?w = lo + hi"
    using assms by (simp add: uint_word_of_int uint_word_ariths mod_simps)
  have "uint (drop_bit 1 ?w) = (lo + hi) div 2"
    by (simp add: drop_bit_eq_div uint_div u)
  moreover have "(lo + hi) div 2 < 2 ^ 31" using assms by simp
  ultimately have "unat (drop_bit 1 ?w) < 2 ^ 31" 
    by (simp add: unat_eq_nat_uint nat_less_iff)
  then show ?thesis
    using \<open>uint (drop_bit 1 ?w) = _\<close> by (simp add: search_mid_def sint_small32)
qed

lemma getEncoded_eq:
  "e \<in> {2, 4, 8} \<Longrightarrow> priv_intsetGetEncoded s pos e =
     do { b \<leftarrow> load (is_contents s) (pos * int e) e; Some (le_sint b) }"
  by (auto simp: priv_intsetGetEncoded_def)

lemma set_eq:
  "is_enc s = e \<Longrightarrow> e \<in> {2, 4, 8} \<Longrightarrow> priv_intsetSet s pos v =
     do { m \<leftarrow> store (is_contents s) (pos * int e) (le_bytes e v);
          Some (s\<lparr>is_contents := m\<rparr>) }"
  by (auto simp: priv_intsetSet_def)

lemma getEncoded_cells:
  assumes "e \<in> {2, 4, 8}" and "take (length vs * e) (is_contents s) = cells e vs"
    and "i < length vs" and "fits e (vs ! i)"
  shows "priv_intsetGetEncoded s (int i) e = Some (vs ! i)"
proof -
  let ?c = "is_contents s"
  have split: "?c = cells e vs @ drop (length vs * e) ?c"
    by (metis assms(2) append_take_drop_id)
  have "length (take (length vs * e) ?c) = length vs * e" using assms(2) by simp
  then have "length vs * e \<le> length ?c" by simp
  moreover have "(i + 1) * e \<le> length vs * e" using assms(3) by (intro mult_le_mono1) simp
  ultimately have "i * e + e \<le> length ?c" by simp
  then have "load ?c (int i * int e) e = Some (take e (drop (i * e) ?c))"
    by (rule load_cell)
  also have "take e (drop (i * e) ?c) = le_bytes e (vs ! i)"
    by (subst split) (rule take_drop_cells [OF assms(3)])
  finally have "load ?c (int i * int e) e = Some (le_bytes e (vs ! i))" .
  with assms(1,4) show ?thesis by (simp add: getEncoded_eq le_simps)
qed

lemma enc_uint8: "is_enc s \<in> {2, 4, 8} \<Longrightarrow> unat (ucast (is_encoding s) :: 8 word) = is_enc s"
  by (auto simp: unsigned_ucast_eq take_bit_nat_def)

lemma repr_get:
  "intset_repr s vs \<Longrightarrow> i < length vs \<Longrightarrow> priv_intsetGet s (int i) = Some (vs ! i)"
  unfolding priv_intsetGet_def
  by (subst enc_uint8) (auto simp: intset_repr_def intro!: getEncoded_cells)

lemma repr_elems:
  assumes "intset_repr s vs"
  shows "intset_elems s = vs"
proof (rule nth_equalityI)
  show "length (intset_elems s) = length vs"
    using assms by (simp add: intset_elems_def intset_repr_def)
  fix i
  assume "i < length (intset_elems s)"
  then have i: "i < length vs" using assms by (simp add: intset_elems_def intset_repr_def)
  have e: "is_enc s \<in> {2, 4, 8}" using assms by (simp add: intset_repr_def)
  from repr_get [OF assms i] e have "load (is_contents s) (int i * int (is_enc s)) (is_enc s) \<noteq> None
     \<and> le_sint (the (load (is_contents s) (int i * int (is_enc s)) (is_enc s))) = vs ! i"
    by (auto simp: priv_intsetGet_def enc_uint8 getEncoded_eq bind_eq_Some_conv)
  then show "intset_elems s ! i = vs ! i"
    using i assms by (simp add: intset_elems_def intset_repr_def load_def nat_mult_distrib split: if_splits)
qed


text \<open>The number of values below \<open>v\<close>: where \<open>v\<close> is, or where it would be inserted.\<close>

definition rank :: "int \<Rightarrow> int list \<Rightarrow> nat" where
  "rank v vs = length (filter (\<lambda>x. x < v) vs)"

lemma rank_le: "rank v vs \<le> length vs"
  by (simp add: rank_def)

lemma rankI:
  assumes "p \<le> length vs" and "\<And>j. j < p \<Longrightarrow> vs ! j < v"
    and "\<And>j. p \<le> j \<Longrightarrow> j < length vs \<Longrightarrow> v \<le> vs ! j"
  shows "rank v vs = p"
proof -
  have "filter (\<lambda>x. x < v) (take p vs) = take p vs"
    using assms(1,2) by (auto simp: filter_id_conv in_set_conv_nth)
  moreover have "filter (\<lambda>x. x < v) (drop p vs) = []"
  proof -
    have "v \<le> x" if x: "x \<in> set (drop p vs)" for x
    proof -
      from x obtain j where "j < length vs - p" "x = vs ! (p + j)"
        by (auto simp: in_set_conv_nth)
      then show ?thesis using assms(3) [of "p + j"] by simp
    qed
    then show ?thesis by (auto simp: filter_empty_conv not_less)
  qed
  ultimately have "filter (\<lambda>x. x < v) (take p vs @ drop p vs) = take p vs"
    by (simp only: filter_append append_Nil2)
  then show ?thesis using assms(1) by (simp add: rank_def)
qed

lemma rank_nth:
  assumes "sorted_wrt (<) vs" and "i < length vs"
  shows "rank (vs ! i) vs = i"
proof (rule rankI)
  show "i \<le> length vs" using assms by simp
  show "vs ! j < vs ! i" if "j < i" for j
    using assms that by (simp add: sorted_wrt_nth_less)
  show "vs ! i \<le> vs ! j" if "i \<le> j" "j < length vs" for j
    using assms that by (cases "i = j") (auto simp: sorted_wrt_nth_less less_imp_le)
qed

lemma search_loop_correct:
  assumes "intset_repr s vs" and "0 \<le> lo" and "hi < int (length vs)" and "int (length vs) < 2 ^ 31"
    and "\<And>j. int j < lo \<Longrightarrow> j < length vs \<Longrightarrow> vs ! j < v"
    and "\<And>j. hi < int j \<Longrightarrow> j < length vs \<Longrightarrow> v < vs ! j"
    and "lo \<le> hi + 1" and "lo \<le> hi \<or> cur \<noteq> v"
  shows "\<exists>lo' mid' c. intsetSearch_loop s v lo hi mid cur = Some (lo', mid', c) \<and>
     (c = v \<longleftrightarrow> v \<in> set vs) \<and> (c = v \<longrightarrow> mid' = int (rank v vs)) \<and>
     (c \<noteq> v \<longrightarrow> lo' = int (rank v vs))"
  using assms(2-)
proof (induction "nat (hi - lo + 1)" arbitrary: lo hi mid cur rule: less_induct)
  case less
  have srt: "sorted_wrt (<) vs" using assms(1) by (simp add: intset_repr_def)
  show ?case
  proof (cases "lo \<le> hi")
    case False
    have "rank v vs = nat lo"
      using less.prems False by (intro rankI) (force intro: less_imp_le)+
    moreover have "v \<notin> set vs"
    proof
      assume "v \<in> set vs"
      then obtain j where "j < length vs" "vs ! j = v" by (auto simp: in_set_conv_nth)
      then show False using less.prems(4) [of j] less.prems(5) [of j] False by force
    qed
    ultimately show ?thesis
      using False less.prems by (simp add: intsetSearch_loop.simps)
  next
    case True
    let ?m = "(lo + hi) div 2"
    have m: "search_mid lo hi = ?m" using True less.prems by (intro search_mid_eq) auto
    have mb: "lo \<le> ?m" "?m \<le> hi" using True by auto
    then obtain k where k: "?m = int k" "k < length vs"
      using less.prems by (metis nat_0_le order_trans nat_less_iff order_le_less_trans)
    have g: "priv_intsetGet s ?m = Some (vs ! k)" using repr_get [OF assms(1) k(2)] k(1) by simp
    consider "vs ! k < v" | "v < vs ! k" | "vs ! k = v" by linarith
    then show ?thesis
    proof cases
      case 1
      have "vs ! j < v" if "int j < ?m + 1" "j < length vs" for j
        using 1 that k srt by (metis int_ops(1) of_nat_less_iff less_trans not_less_iff_gr_or_eq
            sorted_wrt_nth_less zless_imp_add1_zle zle_add1_eq_le nat_int_comparison(2) order_le_less)
      then have "\<exists>lo' mid' c. intsetSearch_loop s v (?m + 1) hi ?m (vs ! k) = Some (lo', mid', c) \<and>
        (c = v \<longleftrightarrow> v \<in> set vs) \<and> (c = v \<longrightarrow> mid' = int (rank v vs)) \<and>
        (c \<noteq> v \<longrightarrow> lo' = int (rank v vs))"
        using less.prems 1 mb True by (intro less.hyps) auto
      then show ?thesis using True g 1 m by (subst intsetSearch_loop.simps) simp
    next
      case 2
      have "v < vs ! j" if "?m - 1 < int j" "j < length vs" for j
        using 2 that k srt by (metis int_ops(1) of_nat_less_iff less_trans not_less_iff_gr_or_eq
            sorted_wrt_nth_less zle_diff1_eq not_le nat_int_comparison(2) order_le_less)
      then have "\<exists>lo' mid' c. intsetSearch_loop s v lo (?m - 1) ?m (vs ! k) = Some (lo', mid', c) \<and>
        (c = v \<longleftrightarrow> v \<in> set vs) \<and> (c = v \<longrightarrow> mid' = int (rank v vs)) \<and>
        (c \<noteq> v \<longrightarrow> lo' = int (rank v vs))"
        using less.prems 2 mb True by (intro less.hyps) auto
      then show ?thesis using True g 2 m by (subst intsetSearch_loop.simps) simp
    next
      case 3
      then show ?thesis
        using True g m k rank_nth [OF srt k(2)] by (subst intsetSearch_loop.simps) auto
    qed
  qed
qed


lemma repr_lengths:
  assumes "intset_repr s vs"
  shows "is_enc s \<in> {2, 4, 8}" and "unat (is_length s) = length vs" and "length vs < 2 ^ 31"
    and "is_length s = of_nat (length vs)" and "sint (is_length s) = int (length vs)"
proof -
  show e: "is_enc s \<in> {2, 4, 8}" and u: "unat (is_length s) = length vs"
    using assms by (auto simp: intset_repr_def)
  have "length vs * 2 \<le> length vs * is_enc s" using e by (intro mult_le_mono2) auto
  moreover have "length vs * is_enc s < 2 ^ 32"
    using assms unfolding intset_repr_def of_nat_less_numeral_power_cancel_iff by blast
  ultimately have "length vs * 2 < 2 ^ 32" by (rule le_less_trans)
  then show b: "length vs < 2 ^ 31" by simp
  show "is_length s = of_nat (length vs)" using u by (metis of_nat_unat ucast_id)
  show "sint (is_length s) = int (length vs)" using u b by (simp add: sint_small32)
qed

lemma intsetSearch_correct:
  assumes r: "intset_repr s vs"
  shows "intsetSearch s v = Some (v \<in> set vs, of_nat (rank v vs))"
proof (cases "vs = []")
  case True
  then have "is_length s = 0" using repr_lengths(4) [OF r] by simp
  with True show ?thesis by (simp add: intsetSearch_def rank_def)
next
  case False
  let ?n = "length vs"
  note L = repr_lengths [OF r]
  have srt: "sorted_wrt (<) vs" using r by (simp add: intset_repr_def)
  have n0: "is_length s \<noteq> 0" using False L(2) by auto
  have hi: "sint (is_length s - 1) = int (?n - 1)"
    using L(2,3) n0 by (subst sint_small32) (simp_all add: unat_minus_one)
  have top: "priv_intsetGet s (int (?n - 1)) = Some (vs ! (?n - 1))"
    and bot: "priv_intsetGet s 0 = Some (vs ! 0)"
    using repr_get [OF r, of "?n - 1"] repr_get [OF r, of 0] False by simp_all
  have le_top: "vs ! j \<le> vs ! (?n - 1)" if "j < ?n" for j
    using srt that False by (cases "j = ?n - 1") (auto simp: sorted_wrt_nth_less less_imp_le)
  have ge_bot: "vs ! 0 \<le> vs ! j" if "j < ?n" for j
    using srt that False by (cases "j = 0") (auto simp: sorted_wrt_nth_less less_imp_le)
  consider (above) "vs ! (?n - 1) < v" | (below) "v < vs ! 0" "v \<le> vs ! (?n - 1)"
    | (inside) "vs ! 0 \<le> v" "v \<le> vs ! (?n - 1)" by linarith
  then show ?thesis
  proof cases
    case above
    then have "rank v vs = ?n" using le_top by (intro rankI) force+
    moreover have "v \<notin> set vs" using above le_top by (force simp: in_set_conv_nth)
    ultimately show ?thesis
      using above n0 hi top L(4) by (simp add: intsetSearch_def)
  next
    case below
    then have "rank v vs = 0" using ge_bot by (intro rankI) force+
    moreover have "v \<notin> set vs" using below ge_bot by (force simp: in_set_conv_nth)
    ultimately show ?thesis
      using below n0 hi top bot by (simp add: intsetSearch_def)
  next
    case inside
    have "\<exists>lo' mid' c. intsetSearch_loop s v 0 (int (?n - 1)) (- 1) (- 1) = Some (lo', mid', c) \<and>
     (c = v \<longleftrightarrow> v \<in> set vs) \<and> (c = v \<longrightarrow> mid' = int (rank v vs)) \<and>
     (c \<noteq> v \<longrightarrow> lo' = int (rank v vs))"
      using False L(3) by (intro search_loop_correct [OF r]) auto
    then show ?thesis
      using inside n0 hi top bot by (auto simp: intsetSearch_def)
  qed
qed

section \<open>Insertion and removal\<close>

lemma reprI:
  assumes "is_enc s = e" and "e \<in> {2, 4, 8}" and "unat (is_length s) = length vs"
    and "length vs * e < 2 ^ 32" and "is_contents s = cells e vs @ rest"
    and "\<And>v. v \<in> set vs \<Longrightarrow> fits e v" and "sorted_wrt (<) vs"
  shows "intset_repr s vs"
proof -
  show ?thesis
    using assms unfolding intset_repr_def of_nat_less_numeral_power_cancel_iff by simp
qed

lemma repr_contents:
  "intset_repr s vs \<Longrightarrow>
   \<exists>rest. is_contents s = cells (is_enc s) vs @ rest"
  unfolding intset_repr_def by (metis append_take_drop_id)

text \<open>\<open>v\<close> put where the search says it belongs.\<close>

lemma insert_at_rank:
  assumes "sorted_wrt (<) vs" and "v \<notin> set vs"
  shows "sorted_wrt (<) (take (rank v vs) vs @ v # drop (rank v vs) vs)"
    and "set (take (rank v vs) vs @ v # drop (rank v vs) vs) = insert v (set vs)"
proof -
  let ?p = "rank v vs"
  have t: "take ?p vs = filter (\<lambda>x. x < v) vs \<and> drop ?p vs = filter (\<lambda>x. v < x) vs"
    using assms
  proof (induction vs)
    case Nil
    then show ?case by simp
  next
    case (Cons x xs)
    show ?case
    proof (cases "x < v")
      case True
      then show ?thesis using Cons by (auto simp: rank_def)
    next
      case False
      then have all: "\<forall>y \<in> set (x # xs). v < y" using Cons.prems by force
      then have "filter (\<lambda>y. y < v) (x # xs) = []" "filter (\<lambda>y. v < y) (x # xs) = x # xs"
        by (force simp: filter_empty_conv filter_id_conv)+
      then show ?thesis by (simp add: rank_def)
    qed
  qed
  show "sorted_wrt (<) (take ?p vs @ v # drop ?p vs)"
    using assms(1) t by (auto simp: sorted_wrt_append sorted_wrt_filter)
  show "set (take ?p vs @ v # drop ?p vs) = insert v (set vs)"
    by (metis append_take_drop_id list.simps(15) set_append Un_insert_right)
qed


lemma realloc_cells:
  assumes "length vs * e \<le> n" and "m = cells e vs @ rest"
  shows "\<exists>rest'. realloc a m n = cells e vs @ rest' \<and> length rest' = n - length vs * e + slack a n"
proof -
  have "take (length vs * e) (realloc a m n) = cells e vs" using assms by simp
  then have "realloc a m n = cells e vs @ drop (length vs * e) (realloc a m n)"
    by (metis append_take_drop_id)
  then show ?thesis using assms(1) by (intro exI conjI) (assumption, simp)
qed

lemma resize_ok:
  assumes "is_enc s = e" and "e \<le> 8" and "unat len * e < 2 ^ 32"
  shows "intsetResize a s len = Some (s\<lparr>is_contents := realloc a (is_contents s) (unat len * e)\<rparr>)"
proof -
  have "int (unat len * e) < 2 ^ 32"
    unfolding of_nat_less_numeral_power_cancel_iff by (rule assms(3))
  then have "int (unat len * e) \<le> SIZE_MAX - 8" by simp
  then show ?thesis unfolding intsetResize_def Let_def assms(1) by simp
qed

lemma moveTail_words:
  assumes "unat (is_length s) = n" and "p \<le> n" and "n * e < 2 ^ 32" and "1 \<le> e"
  shows "unat ((is_length s - of_nat p) * of_nat e) = (n - p) * e"
proof -
  have ls: "is_length s = of_nat n" using assms(1) by (metis of_nat_unat ucast_id)
  have "(is_length s - of_nat p) * of_nat e = of_nat ((n - p) * e)"
    unfolding ls using assms(2) by (simp add: of_nat_diff)
  moreover
  have "(n - p) * e < 2 ^ 32"
    using assms(3) by (meson diff_le_self le_less_trans mult_le_mono1)
  then have "unat (of_nat ((n - p) * e) :: 32 word) = (n - p) * e"
    unfolding unat_of_nat by simp
  ultimately show ?thesis by metis
qed

lemma uint_of_nat32: "p < 2 ^ 32 \<Longrightarrow> uint (of_nat p :: 32 word) = int p"
  by (simp add: uint_nat unat_of_nat)

lemma moveTail_eq:
  assumes e: "is_enc s = e" "e \<in> {2, 4, 8}" and n: "unat (is_length s) = n" "n * e < 2 ^ 32"
    and "from \<le> n" and "to \<le> n"
  shows "intsetMoveTail s (of_nat from) (of_nat to) =
    map_option (\<lambda>m. s\<lparr>is_contents := m\<rparr>)
      (memmove (is_contents s) (int to * int e) (int from * int e) ((n - from) * e))"
proof -
  have "n < 2 ^ 32"
    unfolding n(1) [symmetric] by (rule order_less_le_trans [OF unsigned_less]) simp
  then have "from < 2 ^ 32" "to < 2 ^ 32" using assms(5,6) by simp_all
  then show ?thesis
    using e moveTail_words [OF n(1) assms(5) n(2)]
    by (auto simp: intsetMoveTail_def Let_def uint_of_nat32 map_option_case bind_eq_Some_conv
        split: option.splits)
qed

lemma set_gap:
  assumes "is_enc s = e" and "e \<in> {2, 4, 8}"
    and "is_contents s = cells e us @ gap @ cells e ws @ rest" and "length gap = e"
  shows "priv_intsetSet s (int (length us)) v =
    Some (s\<lparr>is_contents := cells e (us @ v # ws) @ rest\<rparr>)"
proof -
  have "store (is_contents s) (int (length us) * int e) (le_bytes e v) =
    Some (cells e us @ le_bytes e v @ cells e ws @ rest)"
    using assms(3,4) by (simp add: store_cell)
  then show ?thesis using assms(1,2) by (simp add: set_eq)
qed

lemma moveTail_gap:
  assumes e: "is_enc s = e" "e \<in> {2, 4, 8}" and n: "unat (is_length s) = length vs"
    "length vs * e < 2 ^ 32" and p: "p < length vs"
    and c: "is_contents s = cells e vs @ rest" and rest: "e \<le> length rest"
  shows "\<exists>gap rest'. intsetMoveTail s (of_nat p) (of_nat (p + 1)) =
    Some (s\<lparr>is_contents := cells e (take p vs) @ gap @ cells e (drop p vs) @ rest'\<rparr>) \<and>
    length gap = e"
proof -
  let ?n = "length vs" and ?c = "is_contents s"
  have pn: "p * e + (?n - p) * e = ?n * e" using p by (simp add: diff_mult_distrib)
  have c2: "?c = cells e (take p vs) @ cells e (drop p vs) @ rest"
    using c by (metis append_assoc append_take_drop_id cells_append)
  have mv: "memmove ?c (int (p + 1) * int e) (int p * int e) ((?n - p) * e) =
      Some (take ((p + 1) * e) ?c @ take ((?n - p) * e) (drop (p * e) ?c) @
            drop ((p + 1) * e + (?n - p) * e) ?c)"
    using c rest pn by (intro memmove_cell) auto
  have 1: "take ((p + 1) * e) ?c = cells e (take p vs) @ take e (cells e (drop p vs) @ rest)"
    using p by (subst c2) (simp add: take_append)
  have 2: "take ((?n - p) * e) (drop (p * e) ?c) = cells e (drop p vs)"
    using p by (subst c2) simp
  show ?thesis
    unfolding moveTail_eq [OF e n less_imp_le [OF p] Suc_leI [OF p, simplified Suc_eq_plus1]]
      mv 1 2
    using rest by (intro exI conjI) (auto simp del: take_append)
qed


lemma strict_sorted_sorted_list:
  assumes "sorted_wrt (<) (xs :: int list)" and "set xs = A"
  shows "xs = sorted_list_of_set A"
  using assms by (metis List.finite_set set_sorted_list_of_set strict_sorted_equal
      strict_sorted_list_of_set)

lemma valueEncoding_fits:
  assumes "fits 8 v"
  shows "priv_intsetValueEncoding v \<in> {2, 4, 8}" and "fits (priv_intsetValueEncoding v) v"
    and "e \<in> {2, 4, 8} \<Longrightarrow> fits e v \<longleftrightarrow> priv_intsetValueEncoding v \<le> e"
  using assms by (auto simp: priv_intsetValueEncoding_def fits_def)

lemma intsetAdd_same_width:
  assumes r: "intset_repr s vs" and "v \<notin> set vs" and "fits (is_enc s) v"
    and "(length vs + 1) * is_enc s < 2 ^ 32"
    and "priv_intsetValueEncoding v \<le> is_enc s"
  shows "\<exists>s'. intsetAdd a s v = Some (s', True) \<and>
     intset_repr s' (take (rank v vs) vs @ v # drop (rank v vs) vs)"
proof -
  define e where "e = is_enc s"
  let ?p = "rank v vs" and ?n = "length vs"
  let ?vs = "take ?p vs @ v # drop ?p vs"
  note L = repr_lengths [OF r, folded e_def]
  note p = rank_le [of v vs]
  have e4: "(?n + 1) * e < 2 ^ 32" using assms(4) by (simp add: e_def)
  have srt: "sorted_wrt (<) vs" and fit: "\<forall>v \<in> set vs. fits e v"
    using r by (auto simp: intset_repr_def e_def)
  obtain rest where c: "is_contents s = cells e vs @ rest"
    using repr_contents [OF r] by (auto simp: e_def)
  have n1: "unat (is_length s + 1) = ?n + 1" using L(2,3) by (simp add: unat_add1_32)
  obtain rest1 where c1: "realloc a (is_contents s) ((?n + 1) * e) = cells e vs @ rest1"
    and r1: "e \<le> length rest1"
    using realloc_cells [of vs e "(?n + 1) * e" "is_contents s" rest a] c by auto
  define s1 where "s1 = s\<lparr>is_contents := cells e vs @ rest1\<rparr>"
  have rs: "intsetResize a s (is_length s + 1) = Some s1"
    using resize_ok [of s e "is_length s + 1" a] n1 e4 L(1) c1 by (auto simp: e_def s1_def)
  have s1: "is_enc s1 = e" "is_length s1 = is_length s" "is_contents s1 = cells e vs @ rest1"
    by (simp_all add: s1_def e_def)
  have ne: "?n * e < 2 ^ 32" using e4 by simp
  have sp: "sint (of_nat ?p :: 32 word) = int (length (take ?p vs))"
    using p L(3) by (simp add: sint_small32 unat_of_nat)
  have lt: "(of_nat ?p :: 32 word) < is_length s1 \<longleftrightarrow> ?p < ?n"
    using p L(2,3) s1(2) by (simp add: word_less_nat_alt unat_of_nat)
  have "\<exists>gap rest2. (if of_nat ?p < is_length s1 then intsetMoveTail s1 (of_nat ?p) (of_nat ?p + 1)
       else Some s1) = Some (s1\<lparr>is_contents :=
         cells e (take ?p vs) @ gap @ cells e (drop ?p vs) @ rest2\<rparr>) \<and> length gap = e"
  proof (cases "?p < ?n")
    case True
    then show ?thesis
      using lt moveTail_gap [OF s1(1) L(1) _ ne True s1(3) r1] s1(2) L(2) by (simp add: add.commute)
  next
    case False
    then have "?p = ?n" using p by simp
    then show ?thesis
      using lt r1 s1(3)
      by (intro exI [of _ "take e rest1"] exI [of _ "drop e rest1"]) (simp add: s1_def)
  qed
  then obtain gap rest2 where mt: "(if of_nat ?p < is_length s1
       then intsetMoveTail s1 (of_nat ?p) (of_nat ?p + 1) else Some s1) = Some (s1\<lparr>is_contents :=
         cells e (take ?p vs) @ gap @ cells e (drop ?p vs) @ rest2\<rparr>)" and gap: "length gap = e"
    by blast
  define s2 where "s2 = s1\<lparr>is_contents := cells e ?vs @ rest2, is_length := is_length s1 + 1\<rparr>"
  have "intsetAdd a s v = Some (s2, True)"
    using assms(2,5) sp mt
      set_gap [of "s1\<lparr>is_contents := cells e (take ?p vs) @ gap @ cells e (drop ?p vs) @ rest2\<rparr>"
        e "take ?p vs" gap "drop ?p vs" rest2 v] s1 L(1) gap
    by (simp add: intsetAdd_def intsetSearch_correct [OF r] rs s2_def not_less)
  moreover have "intset_repr s2 ?vs"
  proof (rule reprI)
    show "is_enc s2 = e" "e \<in> {2, 4, 8}" "is_contents s2 = cells e ?vs @ rest2"
      using s1 L(1) by (simp_all add: s2_def)
    show "unat (is_length s2) = length ?vs" using n1 p s1(2) by (simp add: s2_def)
    show "length ?vs * e < 2 ^ 32" using e4 p by simp
    show "fits e x" if "x \<in> set ?vs" for x
      using that assms(3) fit insert_at_rank(2) [OF srt assms(2)] by (auto simp: e_def)
    show "sorted_wrt (<) ?vs" by (rule insert_at_rank(1) [OF srt assms(2)])
  qed
  ultimately show ?thesis by blast
qed


text \<open>
  The upgrade runs from the last value to the first: what it writes for value \<open>i\<close> lies at or
  after the end of the old encodings of the values before \<open>i\<close>.
\<close>

lemma upgrade_loop_correct:
  assumes "is_enc s = e" and "e \<in> {2, 4, 8}" and "cur \<in> {2, 4, 8}" and "cur \<le> e"
    and "(length vs + pre) * e \<le> length (is_contents s)"
    and "take (length vs * cur) (is_contents s) = cells cur vs"
    and "\<forall>v \<in> set vs. fits cur v"
  shows "\<exists>x. intsetUpgrade_loop s cur (int pre) (int (length vs)) =
     Some (s\<lparr>is_contents := x @ cells e vs @ drop ((length vs + pre) * e) (is_contents s)\<rparr>) \<and>
     length x = pre * e"
  using assms
proof (induction vs arbitrary: s rule: rev_induct)
  case Nil
  then show ?case
    by (intro exI [of _ "take (pre * e) (is_contents s)"])
      (simp add: intsetUpgrade_loop.simps)
next
  case (snoc v us)
  let ?c = "is_contents s" and ?n = "length us"
  have g: "priv_intsetGetEncoded s (int ?n) cur = Some v"
    using getEncoded_cells [of cur "us @ [v]" s ?n] snoc.prems by simp
  define c1 where "c1 = take ((?n + pre) * e) ?c @ le_bytes e v @ drop ((?n + pre) * e + e) ?c"
  have len: "(?n + pre) * e + e \<le> length ?c" using snoc.prems(5) by (simp add: algebra_simps)
  have st: "priv_intsetSet s (int (?n + pre)) v = Some (s\<lparr>is_contents := c1\<rparr>)"
    using snoc.prems(1,2) len store_cell [of "?n + pre" e "le_bytes e v" ?c]
    by (simp add: set_eq c1_def)
  have "?n * cur \<le> (?n + pre) * e" using snoc.prems(4) by (intro mult_le_mono) auto
  then have "take (?n * cur) c1 = take (?n * cur) ?c"
    using len by (simp add: c1_def min_def)
  also have "\<dots> = cells cur us"
  proof -
    have "take (?n * cur) ?c = take (?n * cur) (cells cur (us @ [v]))"
      by (subst snoc.prems(6) [symmetric]) (simp add: min_def)
    then show ?thesis by simp
  qed
  finally have t: "take (?n * cur) c1 = cells cur us" .
  have d: "drop ((?n + pre) * e) c1 = le_bytes e v @ drop ((length (us @ [v]) + pre) * e) ?c"
    using len by (simp add: c1_def algebra_simps)
  obtain x where x: "intsetUpgrade_loop (s\<lparr>is_contents := c1\<rparr>) cur (int pre) (int ?n) =
      Some (s\<lparr>is_contents := x @ cells e us @ drop ((?n + pre) * e) c1\<rparr>)" "length x = pre * e"
    using snoc.IH [of "s\<lparr>is_contents := c1\<rparr>"] snoc.prems len t by (auto simp: c1_def)
  show ?case
    using x g st d
    by (intro exI [of _ x], subst intsetUpgrade_loop.simps) (simp add: add.commute)
qed

lemma enc_ucast8:
  assumes "unat (w :: 32 word) \<in> {2, 4, 8}"
  shows "unat (ucast w :: 8 word) = unat w"
proof -
  define n where "n = unat w"
  then have "w = of_nat n" by (metis of_nat_unat ucast_id)
  moreover have "n \<in> {2, 4, 8}" using assms n_def by simp
  ultimately show ?thesis by auto
qed

lemma place_value:
  assumes "is_enc s = e" and "e \<in> {2, 4, 8}" and "is_contents s = x @ cells e vs @ tail"
    and "length x = (if v < 0 then e else 0)" and "\<not> v < 0 \<Longrightarrow> e \<le> length tail"
  shows "\<exists>rest. (if v < 0 then priv_intsetSet s 0 v else priv_intsetSet s (int (length vs)) v) =
     Some (s\<lparr>is_contents := cells e (if v < 0 then v # vs else vs @ [v]) @ rest\<rparr>)"
proof (cases "v < 0")
  case True
  then show ?thesis using set_gap [of s e "[]" x vs tail v] assms by auto
next
  case False
  then have "is_contents s = cells e vs @ take e tail @ cells e [] @ drop e tail"
    using assms(3,4) by simp
  then show ?thesis
    using False set_gap [of s e vs "take e tail" "[]" "drop e tail" v] assms(1,2,5) by auto
qed

lemma outside_sorted:
  assumes "sorted_wrt (<) vs" and "e \<in> {2, 4, 8}" and "\<forall>y \<in> set vs. fits e y" and "\<not> fits e v"
  shows "sorted_wrt (<) (if v < 0 then v # vs else vs @ [v])"
proof -
  have "v < 0 \<Longrightarrow> \<forall>y \<in> set vs. v < y" "\<not> v < 0 \<Longrightarrow> \<forall>y \<in> set vs. y < v"
    using assms(2-) by (force simp: fits_def)+
  then show ?thesis using assms(1) by (auto simp: sorted_wrt_append)
qed

lemma upgrade_resized:
  assumes r: "intset_repr s vs" and e: "e \<in> {2, 4, 8}" "is_enc s \<le> e" "(length vs + 1) * e < 2 ^ 32"
    and pre: "pre = (if v < 0 then 1 else 0 :: nat)"
  shows "\<exists>s1 x tail. intsetResize a (s\<lparr>is_encoding := of_nat e\<rparr>) (is_length s + 1) = Some s1 \<and>
     intsetUpgrade_loop s1 (is_enc s) (int pre) (int (length vs)) =
       Some (s\<lparr>is_encoding := of_nat e, is_contents := x @ cells e vs @ tail\<rparr>) \<and>
     length x = pre * e \<and> (pre = 0 \<longrightarrow> e \<le> length tail)"
proof -
  let ?n = "length vs" and ?cur = "is_enc s"
  note L = repr_lengths [OF r]
  have ue: "unat (of_nat e :: 32 word) = e" using e(1) by auto
  have n1: "unat (is_length s + 1) = ?n + 1" using L(2,3) by (simp add: unat_add1_32)
  obtain rest where c: "is_contents s = cells ?cur vs @ rest" using repr_contents [OF r] by auto
  define c1 where "c1 = realloc a (is_contents s) ((?n + 1) * e)"
  define s1 where "s1 = s\<lparr>is_encoding := of_nat e, is_contents := c1\<rparr>"
  have rs: "intsetResize a (s\<lparr>is_encoding := of_nat e\<rparr>) (is_length s + 1) = Some s1"
    using resize_ok [of "s\<lparr>is_encoding := of_nat e\<rparr>" e "is_length s + 1" a] n1 e ue
    by (auto simp: s1_def c1_def)
  have ncur: "?n * ?cur \<le> (?n + 1) * e" using e(2) by (intro mult_le_mono) auto
  have t1: "take (?n * ?cur) c1 = cells ?cur vs" using ncur c unfolding c1_def by simp
  have l1: "(?n + pre) * e \<le> (?n + 1) * e" "(?n + 1) * e \<le> length c1"
    using pre by (auto simp: c1_def)
  then have "(?n + pre) * e \<le> length (is_contents s1)" by (simp add: s1_def)
  then obtain x where "intsetUpgrade_loop s1 ?cur (int pre) (int ?n) =
      Some (s1\<lparr>is_contents := x @ cells e vs @ drop ((?n + pre) * e) c1\<rparr>)" "length x = pre * e"
    using upgrade_loop_correct [of s1 e ?cur vs pre] e(1,2) L(1) t1 r ue
    by (auto simp: s1_def intset_repr_def)
  moreover have "pre = 0 \<longrightarrow> e \<le> length (drop ((?n + pre) * e) c1)" using l1 by auto
  ultimately show ?thesis
    using rs by (intro exI [of _ s1] exI [of _ x] exI [of _ "drop ((?n + pre) * e) c1"])
      (simp add: s1_def)
qed

lemma intsetAdd_upgrade:
  assumes r: "intset_repr s vs" and v: "fits 8 v" and w: "is_enc s < priv_intsetValueEncoding v"
    and b: "(length vs + 1) * 8 < 2 ^ 32"
  shows "\<exists>s'. intsetAdd a s v = Some (s', True) \<and>
     intset_repr s' (if v < 0 then v # vs else vs @ [v])"
proof -
  define e where "e = priv_intsetValueEncoding v"
  define pre :: nat where "pre = (if v < 0 then 1 else 0)"
  let ?n = "length vs" and ?vs = "if v < 0 then v # vs else vs @ [v]" and ?cur = "is_enc s"
  note L = repr_lengths [OF r]
  have e: "e \<in> {2, 4, 8}" "fits e v" "?cur \<le> e"
    using valueEncoding_fits [OF v] w by (auto simp: e_def)
  have cur8: "unat (ucast (is_encoding s) :: 8 word) = ?cur" by (rule enc_ucast8 [OF L(1)])
  have ue: "unat (of_nat e :: 32 word) = e" using e(1) by auto
  have n1: "unat (is_length s + 1) = ?n + 1" using L(2,3) by (simp add: unat_add1_32)
  have "(?n + 1) * e \<le> (?n + 1) * 8" using e(1) by (intro mult_le_mono2) auto
  then have be: "(?n + 1) * e < 2 ^ 32" using b by (rule le_less_trans)
  obtain s1 x tail where up: "intsetResize a (s\<lparr>is_encoding := of_nat e\<rparr>) (is_length s + 1) = Some s1"
      "intsetUpgrade_loop s1 ?cur (int pre) (int ?n) =
         Some (s\<lparr>is_encoding := of_nat e, is_contents := x @ cells e vs @ tail\<rparr>)"
      "length x = pre * e" "pre = 0 \<longrightarrow> e \<le> length tail"
    using upgrade_resized [OF r e(1,3) be pre_def] by blast
  define s2 where "s2 = s\<lparr>is_encoding := of_nat e, is_contents := x @ cells e vs @ tail\<rparr>"
  obtain rest where st: "(if v < 0 then priv_intsetSet s2 0 v else priv_intsetSet s2 (int ?n) v) =
      Some (s2\<lparr>is_contents := cells e ?vs @ rest\<rparr>)"
  proof -
    have "is_enc s2 = e" "is_contents s2 = x @ cells e vs @ tail"
      "length x = (if v < 0 then e else 0)" "\<not> v < 0 \<Longrightarrow> e \<le> length tail"
      using ue up(3,4) by (simp_all add: s2_def pre_def)
    then show ?thesis using place_value [OF _ e(1)] that by blast
  qed
  define s3 where "s3 = s2\<lparr>is_contents := cells e ?vs @ rest, is_length := is_length s + 1\<rparr>"
  have "is_length s2 = is_length s" by (simp add: s2_def)
  then have "intsetAdd a s v = Some (s3, True)"
    using w up(1,2) st L(5) cur8
    by (simp add: intsetAdd_def intsetUpgradeAndAdd_def Let_def e_def [symmetric] pre_def s3_def
        s2_def [symmetric] split: if_splits)
  moreover have "intset_repr s3 ?vs"
  proof (rule reprI)
    show "is_enc s3 = e" "e \<in> {2, 4, 8}" "is_contents s3 = cells e ?vs @ rest"
      using ue e(1) by (simp_all add: s3_def s2_def)
    show "unat (is_length s3) = length ?vs" using n1 by (simp add: s3_def)
    show "length ?vs * e < 2 ^ 32" using be by simp
    show "fits e y" if "y \<in> set ?vs" for y
      using that e(2) r fits_mono [OF _ e(3)] by (auto simp: intset_repr_def split: if_splits)
    show "sorted_wrt (<) ?vs"
      using r valueEncoding_fits(3) [OF v L(1)] w
      by (intro outside_sorted [of _ ?cur]) (auto simp: intset_repr_def)
  qed
  ultimately show ?thesis by blast
qed

lemma in_set_rank:
  assumes "sorted_wrt (<) vs" and "v \<in> set vs"
  shows "rank v vs < length vs" and "vs ! rank v vs = v"
  using assms rank_nth by (metis in_set_conv_nth)+

lemma remove_at_rank:
  assumes "sorted_wrt (<) vs" and "v \<in> set vs"
  shows "sorted_wrt (<) (take (rank v vs) vs @ drop (rank v vs + 1) vs)"
    and "set (take (rank v vs) vs @ drop (rank v vs + 1) vs) = set vs - {v}"
proof -
  let ?p = "rank v vs"
  note p = in_set_rank [OF assms]
  have vs: "vs = take ?p vs @ v # drop (?p + 1) vs"
    using p by (metis Suc_eq_plus1 id_take_nth_drop)
  have d: "distinct vs" using assms(1) by (simp add: strict_sorted_iff)
  show "sorted_wrt (<) (take ?p vs @ drop (?p + 1) vs)"
    using assms(1) by (subst (asm) vs) (auto simp: sorted_wrt_append)
  have "distinct (take ?p vs @ v # drop (?p + 1) vs)" using d vs by simp
  then have "v \<notin> set (take ?p vs @ drop (?p + 1) vs)" by simp
  moreover have "set vs = insert v (set (take ?p vs @ drop (?p + 1) vs))"
    by (subst vs) simp
  ultimately show "set (take ?p vs @ drop (?p + 1) vs) = set vs - {v}" by blast
qed

lemma moveTail_close:
  assumes e: "is_enc s = e" "e \<in> {2, 4, 8}" and n: "unat (is_length s) = length vs"
    "length vs * e < 2 ^ 32" and p: "p + 1 < length vs"
    and c: "is_contents s = cells e vs @ rest"
  shows "\<exists>rest'. intsetMoveTail s (of_nat (p + 1)) (of_nat p) =
    Some (s\<lparr>is_contents := cells e (take p vs @ drop (p + 1) vs) @ rest'\<rparr>)"
proof -
  let ?n = "length vs" and ?c = "is_contents s"
  have pn: "(p + 1) * e + (?n - (p + 1)) * e = ?n * e"
    using p by (metis add_mult_distrib le_add_diff_inverse less_imp_le)
  have "cells e vs = cells e (take p vs) @ cells e (drop p vs)"
    "cells e vs = cells e (take (p + 1) vs) @ cells e (drop (p + 1) vs)"
    by (metis append_take_drop_id cells_append)+
  then have c1: "?c = cells e (take p vs) @ cells e (drop p vs) @ rest"
    and c2: "?c = cells e (take (p + 1) vs) @ cells e (drop (p + 1) vs) @ rest"
    using c by (metis append_assoc)+
  have mv: "memmove ?c (int p * int e) (int (p + 1) * int e) ((?n - (p + 1)) * e) =
      Some (take (p * e) ?c @ take ((?n - (p + 1)) * e) (drop ((p + 1) * e) ?c) @
            drop (p * e + (?n - (p + 1)) * e) ?c)"
    using c pn by (intro memmove_cell) auto
  have 1: "take (p * e) ?c = cells e (take p vs)" using p by (subst c1) simp
  have 2: "take ((?n - (p + 1)) * e) (drop ((p + 1) * e) ?c) = cells e (drop (p + 1) vs)"
    using p by (subst c2) (simp del: take_Suc)
  show ?thesis
    using moveTail_eq [OF e n, of "p + 1" p] p mv 1 2 by (intro exI) simp
qed

lemma intsetRemove_member:
  assumes r: "intset_repr s vs" and v: "v \<in> set vs" and w: "priv_intsetValueEncoding v \<le> is_enc s"
  shows "\<exists>s'. intsetRemove a s v = Some (s', True) \<and>
     intset_repr s' (take (rank v vs) vs @ drop (rank v vs + 1) vs)"
proof -
  define e where "e = is_enc s"
  let ?p = "rank v vs" and ?n = "length vs"
  let ?vs = "take ?p vs @ drop (?p + 1) vs"
  note L = repr_lengths [OF r, folded e_def]
  have srt: "sorted_wrt (<) vs" and fit: "\<forall>v \<in> set vs. fits e v" and ne: "?n * e < 2 ^ 32"
    using r unfolding intset_repr_def of_nat_less_numeral_power_cancel_iff e_def by auto
  note p = in_set_rank [OF srt v]
  have lv: "length ?vs = ?n - 1" using p(1) by simp
  have len0: "is_length s \<noteq> 0" using p(1) L(2) by auto
  have n1: "unat (is_length s - 1) = ?n - 1" using L(2) len0 by (simp add: unat_minus_one)
  obtain rest where c: "is_contents s = cells e vs @ rest"
    using repr_contents [OF r] by (auto simp: e_def)
  have lt: "(of_nat ?p :: 32 word) < is_length s - 1 \<longleftrightarrow> ?p + 1 < ?n"
    using p(1) L(2,3) n1 by (auto simp: word_less_nat_alt unat_of_nat)
  have "\<exists>rest1. (if of_nat ?p < is_length s - 1 then intsetMoveTail s (of_nat ?p + 1) (of_nat ?p)
       else Some s) = Some (s\<lparr>is_contents := cells e ?vs @ rest1\<rparr>)"
  proof (cases "?p + 1 < ?n")
    case True
    then show ?thesis
      using lt moveTail_close [of s e vs ?p rest] L(1,2) ne c by (simp add: e_def add.commute)
  next
    case False
    then have dr: "drop (?p + 1) vs = []" using p(1) by simp
    have "cells e vs = cells e (take ?p vs) @ cells e (drop ?p vs)"
      by (metis append_take_drop_id cells_append)
    then show ?thesis
      using False lt dr c by (intro exI [of _ "cells e (drop ?p vs) @ rest"]) simp
  qed
  then obtain rest1 where mt: "(if of_nat ?p < is_length s - 1
       then intsetMoveTail s (of_nat ?p + 1) (of_nat ?p) else Some s) =
       Some (s\<lparr>is_contents := cells e ?vs @ rest1\<rparr>)" by blast
  have nle: "(?n - 1) * e < 2 ^ 32" using ne by (meson diff_le_self le_less_trans mult_le_mono1)
  obtain rest2 where c2: "realloc a (cells e ?vs @ rest1) ((?n - 1) * e) = cells e ?vs @ rest2"
    using realloc_cells [of ?vs e "(?n - 1) * e" _ rest1 a] lv by force
  have rs: "intsetResize a (s\<lparr>is_contents := cells e ?vs @ rest1\<rparr>) (is_length s - 1) =
      Some (s\<lparr>is_contents := cells e ?vs @ rest2\<rparr>)"
    using resize_ok [of "s\<lparr>is_contents := cells e ?vs @ rest1\<rparr>" e "is_length s - 1" a]
      n1 nle L(1) c2 by (auto simp: e_def)
  define s2 where "s2 = s\<lparr>is_contents := cells e ?vs @ rest2, is_length := is_length s - 1\<rparr>"
  have "intsetRemove a s v = Some (s2, True)"
    using v w mt rs by (simp add: intsetRemove_def intsetSearch_correct [OF r] s2_def)
  moreover have "intset_repr s2 ?vs"
  proof (rule reprI)
    show "is_enc s2 = e" "e \<in> {2, 4, 8}" "is_contents s2 = cells e ?vs @ rest2"
      using L(1) by (simp_all add: s2_def e_def)
    show "unat (is_length s2) = length ?vs" using n1 lv by (simp add: s2_def)
    show "length ?vs * e < 2 ^ 32" using nle lv by simp
    show "fits e x" if "x \<in> set ?vs" for x
      using that fit remove_at_rank(2) [OF srt v] by auto
    show "sorted_wrt (<) ?vs" by (rule remove_at_rank(1) [OF srt v])
  qed
  ultimately show ?thesis by blast
qed


section \<open>Any block of the right size is an array of values\<close>

lemma cells_decode:
  assumes "n * e \<le> length m"
  shows "cells e (map (\<lambda>i. le_sint (take e (drop (i * e) m))) [0..<n]) = take (n * e) m"
  using assms
proof (induction n)
  case 0
  then show ?case by simp
next
  case (Suc n)
  have l: "length (take e (drop (n * e) m)) = e" using Suc.prems by simp
  then have "le_bytes e (le_sint (take e (drop (n * e) m))) = take e (drop (n * e) m)"
    using le_bytes_le_sint [of "take e (drop (n * e) m)"] by simp
  moreover have "take (Suc n * e) m = take (n * e) m @ take e (drop (n * e) m)"
    using take_add [of "n * e" e m] by (simp add: add.commute)
  ultimately show ?case using Suc by simp
qed

lemma elems_of_any_block:
  assumes "is_enc s \<in> {2, 4, 8}" and "unat (is_length s) * is_enc s \<le> length (is_contents s)"
  shows "take (unat (is_length s) * is_enc s) (is_contents s) = cells (is_enc s) (intset_elems s)"
    and "length (intset_elems s) = unat (is_length s)"
    and "v \<in> set (intset_elems s) \<Longrightarrow> fits (is_enc s) v"
proof -
  let ?e = "is_enc s" and ?n = "unat (is_length s)"
  show "take (?n * ?e) (is_contents s) = cells ?e (intset_elems s)"
    using cells_decode [OF assms(2)] by (simp add: intset_elems_def)
  show "length (intset_elems s) = ?n" by (simp add: intset_elems_def)
  assume "v \<in> set (intset_elems s)"
  then obtain i where i: "i < ?n" "v = le_sint (take ?e (drop (i * ?e) (is_contents s)))"
    by (auto simp: intset_elems_def)
  have "(i + 1) * ?e \<le> ?n * ?e" using i(1) by (intro mult_le_mono1) simp
  then have "length (take ?e (drop (i * ?e) (is_contents s))) = ?e" using assms(2) by simp
  then show "fits ?e v" using fits_le_sint i(2) by metis
qed

lemma get_any_block:
  assumes "is_enc s \<in> {2, 4, 8}" and "unat (is_length s) * is_enc s \<le> length (is_contents s)"
    and "i < unat (is_length s)"
  shows "priv_intsetGet s (int i) = Some (intset_elems s ! i)"
  unfolding priv_intsetGet_def enc_uint8 [OF assms(1)]
  using assms elems_of_any_block [OF assms(1,2)]
  by (intro getEncoded_cells) auto

lemma validate_loop_correct:
  assumes "is_enc s \<in> {2, 4, 8}" and "unat (is_length s) * is_enc s \<le> length (is_contents s)"
    and "unat (is_length s) < 2 ^ 31" and "0 < i" and "i \<le> unat (is_length s)"
  shows "intsetValidate_loop s (of_nat i) (intset_elems s ! (i - 1)) =
    Some (sorted_wrt (<) (drop (i - 1) (intset_elems s)))"
  using assms(4,5)
proof (induction "unat (is_length s) - i" arbitrary: i)
  case 0
  then have i: "i = unat (is_length s)" by simp
  then have "drop (i - 1) (intset_elems s) = [intset_elems s ! (i - 1)]"
    using 0 elems_of_any_block(2) [OF assms(1,2)]
    by (metis Cons_nth_drop_Suc Suc_pred' diff_less drop_all order_refl zero_less_one)
  then show ?case using i by (simp add: intsetValidate_loop.simps word_less_nat_alt)
next
  case (Suc k)
  let ?es = "intset_elems s"
  have il: "i < unat (is_length s)" using Suc.hyps(2) by simp
  have len: "length ?es = unat (is_length s)" by (rule elems_of_any_block(2) [OF assms(1,2)])
  have ui: "unat (of_nat i :: 32 word) = i" using il assms(3) by (simp add: unat_of_nat)
  have lt: "(of_nat i :: 32 word) < is_length s" using il ui by (simp add: word_less_nat_alt)
  have g: "priv_intsetGet s (sint (of_nat i :: 32 word)) = Some (?es ! i)"
    using get_any_block [OF assms(1,2) il] ui il assms(3) by (simp add: sint_small32)
  have d: "drop (i - 1) ?es = ?es ! (i - 1) # drop i ?es" "drop i ?es = ?es ! i # drop (i + 1) ?es"
    using Suc.prems il len by (metis Cons_nth_drop_Suc Suc_diff_1 less_imp_diff_less,
        metis Cons_nth_drop_Suc Suc_eq_plus1)
  have IH: "intsetValidate_loop s (of_nat (i + 1)) (?es ! i) = Some (sorted_wrt (<) (drop i ?es))"
    using Suc.hyps(1) [of "i + 1"] Suc.hyps(2) il by simp
  have "sorted_wrt (<) (drop (i - 1) ?es) \<longleftrightarrow>
      ?es ! (i - 1) < ?es ! i \<and> sorted_wrt (<) (drop i ?es)"
    unfolding d by auto
  then show ?case
    using lt g IH by (subst intsetValidate_loop.simps) (simp add: add.commute)
qed


section \<open>The set the operations implement\<close>

lemma wf_repr: "intset_wf s \<Longrightarrow> intset_repr s (intset_elems s)"
  by (simp add: intset_wf_def)

lemma repr_wf: "intset_repr s vs \<Longrightarrow> intset_wf s \<and> intset_elems s = vs"
  using repr_elems by (auto simp: intset_wf_def)

lemma repr_sorted_list:
  assumes "intset_repr s vs" and "set vs = A"
  shows "intset_wf s \<and> intset_elems s = sorted_list_of_set A"
  using repr_wf [OF assms(1)] strict_sorted_sorted_list [OF _ assms(2)] assms(1)
  by (simp add: intset_repr_def)

lemma member_width:
  assumes "intset_repr s vs" and "v \<in> set vs"
  shows "priv_intsetValueEncoding v \<le> is_enc s"
proof -
  have "fits (is_enc s) v" "is_enc s \<in> {2, 4, 8}" using assms by (auto simp: intset_repr_def)
  moreover have "fits 8 v" using calculation fits_mono [of "is_enc s" v 8] by auto
  ultimately show ?thesis using valueEncoding_fits(3) by blast
qed

lemma intsetAdd_repr:
  assumes r: "intset_repr s vs" and v: "fits 8 v" and b: "length vs + 1 < 2 ^ 29"
  shows "\<exists>s'. intsetAdd a s v = Some (s', v \<notin> set vs) \<and> intset_wf s' \<and>
    intset_elems s' = sorted_list_of_set (insert v (set vs))"
proof -
  have srt: "sorted_wrt (<) vs" using r by (simp add: intset_repr_def)
  note L = repr_lengths [OF r]
  have b8: "(length vs + 1) * 8 < 2 ^ 32" using b by simp
  have be: "(length vs + 1) * is_enc s \<le> (length vs + 1) * 8"
    using L(1) by (intro mult_le_mono2) auto
  consider (wide) "is_enc s < priv_intsetValueEncoding v"
    | (dup) "priv_intsetValueEncoding v \<le> is_enc s" "v \<in> set vs"
    | (new) "priv_intsetValueEncoding v \<le> is_enc s" "v \<notin> set vs" by linarith
  then show ?thesis
  proof cases
    case wide
    then have "v \<notin> set vs" using member_width [OF r] by force
    moreover have "set (if v < 0 then v # vs else vs @ [v]) = insert v (set vs)" by simp
    moreover obtain s' where "intsetAdd a s v = Some (s', True)"
        "intset_repr s' (if v < 0 then v # vs else vs @ [v])"
      using intsetAdd_upgrade [OF r v wide b8, of a] by blast
    ultimately show ?thesis using repr_sorted_list [of s' _ "insert v (set vs)"] by auto
  next
    case dup
    then have "intsetAdd a s v = Some (s, False)"
      by (simp add: intsetAdd_def intsetSearch_correct [OF r])
    moreover have "insert v (set vs) = set vs" using dup by blast
    ultimately show ?thesis
      using dup repr_wf [OF r] strict_sorted_sorted_list [OF srt] by simp
  next
    case new
    have "fits (is_enc s) v" using valueEncoding_fits(3) [OF v L(1)] new by simp
    then obtain s' where "intsetAdd a s v = Some (s', True)"
        "intset_repr s' (take (rank v vs) vs @ v # drop (rank v vs) vs)"
      using intsetAdd_same_width [OF r new(2) _ le_less_trans [OF be b8] new(1), of a] by blast
    then show ?thesis
      using repr_sorted_list [OF _ insert_at_rank(2) [OF srt new(2)]] new(2) by auto
  qed
qed

lemma intsetRemove_repr:
  assumes r: "intset_repr s vs"
  shows "\<exists>s'. intsetRemove a s v = Some (s', v \<in> set vs) \<and> intset_wf s' \<and>
    intset_elems s' = sorted_list_of_set (set vs - {v})"
proof (cases "v \<in> set vs")
  case True
  have srt: "sorted_wrt (<) vs" using r by (simp add: intset_repr_def)
  obtain s' where "intsetRemove a s v = Some (s', True)"
      "intset_repr s' (take (rank v vs) vs @ drop (rank v vs + 1) vs)"
    using intsetRemove_member [OF r True member_width [OF r True], of a] by blast
  then show ?thesis
    using repr_sorted_list [OF _ remove_at_rank(2) [OF srt True]] True by auto
next
  case False
  have srt: "sorted_wrt (<) vs" using r by (simp add: intset_repr_def)
  have "intsetRemove a s v = Some (s, False)"
    using False by (simp add: intsetRemove_def intsetSearch_correct [OF r])
  then show ?thesis
    using False repr_wf [OF r] strict_sorted_sorted_list [OF srt] by simp
qed

lemma intsetFind_repr:
  assumes r: "intset_repr s vs"
  shows "intsetFind s v = Some (v \<in> set vs)"
  using member_width [OF r] by (auto simp: intsetFind_def intsetSearch_correct [OF r])


section \<open>Properties\<close>

lemma finite_intset [simp]: "finite (set (intset_elems s))"
  by simp

interpretation iset: value_set "intsetAdd a" "intsetRemove a" intsetFind
  "\<lambda>s. set (intset_elems s)" intset_wf "fits 8" "2 ^ 29 - 1" for a
proof
  fix s v
  assume wf: "intset_wf s"
  then have d: "distinct (intset_elems s)"
    by (simp add: intset_wf_def intset_repr_def strict_sorted_iff)
  {
    assume "fits 8 v" and "card (set (intset_elems s)) < 2 ^ 29 - 1"
    then have "fits 8 v" "length (intset_elems s) + 1 < 2 ^ 29"
      using d by (simp_all add: distinct_card)
    from intsetAdd_repr [OF wf_repr [OF wf] this, of a]
    show "\<exists>s'. intsetAdd a s v = Some (s', v \<notin> set (intset_elems s)) \<and> intset_wf s' \<and>
      set (intset_elems s') = insert v (set (intset_elems s))"
      by (auto simp: set_insort_key)
  }
  show "\<exists>s'. intsetRemove a s v = Some (s', v \<in> set (intset_elems s)) \<and> intset_wf s' \<and>
      set (intset_elems s') = set (intset_elems s) - {v}"
    using intsetRemove_repr [OF wf_repr [OF wf], of a v] by auto
  show "intsetFind s v = Some (v \<in> set (intset_elems s))"
    by (rule intsetFind_repr [OF wf_repr [OF wf]])
qed simp

text \<open>C13. \<open>intsetAdd\<close> on a well-formed set neither aborts nor leaves the block, reports
  whether the value was new, and leaves the sorted sequence of the old values and the new one,
  whether or not the insertion had to upgrade the width of all the values. The bound is the
  largest size for which a byte count in a \<open>uint32_t\<close> cannot wrap.\<close>

theorem intsetAdd_refines:
  assumes "intset_wf s" and "fits 8 v" and "length (intset_elems s) + 1 < 2 ^ 29"
  shows "\<exists>s'. intsetAdd a s v = Some (s', v \<notin> set (intset_elems s)) \<and> intset_wf s' \<and>
    intset_elems s' = sorted_list_of_set (insert v (set (intset_elems s)))"
  by (rule intsetAdd_repr [OF wf_repr [OF assms(1)] assms(2,3)])

text \<open>The concrete sets of the witnesses: \<open>{5, 7}\<close> in 16-bit cells, and an allocator that
  returns a little more than asked for.\<close>

definition ex_alloc :: allocator where
  "ex_alloc = \<lparr>slack = (\<lambda>n. 3), junk = (\<lambda>i. 165)\<rparr>"

definition ex_intset :: intset where
  "ex_intset = \<lparr>is_encoding = 2, is_length = 2, is_contents = [5, 0, 7, 0, 9]\<rparr>"

lemma ex_intset_facts: "intset_wf ex_intset" "intset_elems ex_intset = [5, 7]"
  by code_simp+

theorem intsetAdd_refines_witness:
  "\<exists>s'. intsetAdd ex_alloc ex_intset 100000 = Some (s', True) \<and> intset_wf s' \<and>
     intset_elems s' = [5, 7, 100000]"
proof -
  have "fits 8 100000" by (simp add: fits_def)
  then show ?thesis
    using intsetAdd_refines [of ex_intset 100000 ex_alloc] by (simp add: ex_intset_facts)
qed

text \<open>C14. \<open>intsetRemove\<close> reports whether the value was there and leaves the sorted sequence
  of the other values.\<close>

theorem intsetRemove_refines:
  assumes "intset_wf s"
  shows "\<exists>s'. intsetRemove a s v = Some (s', v \<in> set (intset_elems s)) \<and> intset_wf s' \<and>
    intset_elems s' = sorted_list_of_set (set (intset_elems s) - {v})"
  by (rule intsetRemove_repr [OF wf_repr [OF assms]])

theorem intsetRemove_refines_witness:
  "\<exists>s'. intsetRemove ex_alloc ex_intset 5 = Some (s', True) \<and> intset_wf s' \<and> intset_elems s' = [7]"
  using intsetRemove_refines [of ex_intset ex_alloc 5] by (simp add: ex_intset_facts)

text \<open>C15. A run of \<open>intsetAdd\<close> over a list of values, the loop of \<open>SADD\<close> on an integer
  set: every call succeeds, the number of successful insertions is the number of distinct new
  values, and \<open>intsetFind\<close> then answers exactly for the union, as long as the union has fewer than
  \<open>2 ^ 29 - 1\<close> values.\<close>

theorem intset_add_all:
  assumes "intset_wf s" and "\<forall>v \<in> set vs. fits 8 v"
    and "card (set (intset_elems s) \<union> set vs) < 2 ^ 29 - 1"
  shows "\<exists>s'. add_all (intsetAdd a) s vs 0 = Some (s', card (set vs - set (intset_elems s))) \<and>
    intset_wf s' \<and>
    (\<forall>w. intsetFind s' w = Some (w \<in> set vs \<or> w \<in> set (intset_elems s)))"
proof -
  obtain s' where "add_all (intsetAdd a) s vs 0 =
      Some (s', 0 + card (set vs - set (intset_elems s)))" "intset_wf s'"
      "set (intset_elems s') = set (intset_elems s) \<union> set vs"
    using iset.add_all_ok [OF assms] by blast
  then show ?thesis using iset.isin_ok by auto
qed

theorem intset_add_all_witness:
  "\<exists>s'. add_all (intsetAdd ex_alloc) ex_intset [- 1, 5, 40000] 0 = Some (s', 2) \<and> intset_wf s' \<and>
     intsetFind s' 40000 = Some True \<and> intsetFind s' 6 = Some False"
proof -
  have f: "\<forall>v \<in> set [- 1, 5, 40000]. fits 8 v" by (simp add: fits_def)
  have c: "card (set (intset_elems ex_intset) \<union> set [- 1, 5, 40000]) < 2 ^ 29 - 1"
    by (simp add: ex_intset_facts card_insert_if)
  obtain s' where "add_all (intsetAdd ex_alloc) ex_intset [- 1, 5, 40000] 0 =
      Some (s', card (set [- 1, 5, 40000] - set (intset_elems ex_intset)))" "intset_wf s'"
      "\<forall>w. intsetFind s' w =
         Some (w \<in> set [- 1, 5, 40000] \<or> w \<in> set (intset_elems ex_intset))"
    using intset_add_all [OF ex_intset_facts(1) f c, of ex_alloc] by blast
  then show ?thesis by (simp add: ex_intset_facts)
qed

text \<open>C16. \<open>intsetValidateIntegrity\<close> with \<open>deep\<close> set, on a blob of any content below 4
  GiB: it reads nothing outside the blob, and it accepts exactly the blobs whose size is what the
  header says and that are a non-empty well-formed set.\<close>

theorem intsetValidateIntegrity_exact:
  assumes "length p < 2 ^ 32"
  shows "intsetValidateIntegrity p True =
    Some (8 \<le> length p \<and> length p = intsetBlobLen (intset_of_blob p) \<and>
          is_length (intset_of_blob p) \<noteq> 0 \<and> intset_wf (intset_of_blob p))"
proof -
  define s where "s = intset_of_blob p"
  let ?n = "unat (is_length s)" and ?e = "is_enc s"
  show ?thesis
  proof (cases "8 \<le> length p \<and> ?e \<in> {2, 4, 8} \<and> 8 + ?n * ?e = length p \<and> is_length s \<noteq> 0")
    case False
    then have "intsetValidateIntegrity p True = Some False"
      by (auto simp: intsetValidateIntegrity_def s_def [symmetric] Let_def)
    moreover have "\<not> (8 \<le> length p \<and> length p = intsetBlobLen s \<and> is_length s \<noteq> 0 \<and> intset_wf s)"
      using False by (auto simp: intsetBlobLen_def intset_wf_def intset_repr_def)
    ultimately show ?thesis by (simp add: s_def)
  next
    case True
    then have e: "?e \<in> {2, 4, 8}" and sz: "?n * ?e \<le> length (is_contents s)"
      by (auto simp: s_def intset_of_blob_def)
    have ne: "?n * ?e < 2 ^ 32" using True assms by linarith
    have "?n * 2 \<le> ?n * ?e" using e by (intro mult_le_mono2) auto
    then have "?n * 2 < 2 ^ 32" using ne by (rule le_less_trans)
    then have n31: "?n < 2 ^ 31" by simp
    have n0: "0 < ?n" using True by (simp add: unat_gt_0)
    note E = elems_of_any_block [OF e sz]
    have "priv_intsetGet s 0 = Some (intset_elems s ! 0)"
      using get_any_block [OF e sz n0] by simp
    moreover have "intsetValidate_loop s 1 (intset_elems s ! 0) =
        Some (sorted_wrt (<) (intset_elems s))"
      using validate_loop_correct [OF e sz n31, of 1] n0 by simp
    ultimately have "intsetValidateIntegrity p True = Some (sorted_wrt (<) (intset_elems s))"
      using True by (auto simp: intsetValidateIntegrity_def s_def [symmetric] Let_def)
    moreover have "intset_wf s \<longleftrightarrow> sorted_wrt (<) (intset_elems s)"
      unfolding intset_wf_def intset_repr_def E(2) of_nat_less_numeral_power_cancel_iff
      using e ne E(1,3) by auto
    ultimately show ?thesis using True by (simp add: s_def [symmetric] intsetBlobLen_def)
  qed
qed

theorem intsetValidateIntegrity_exact_witness:
  "intsetValidateIntegrity [2, 0, 0, 0, 2, 0, 0, 0, 5, 0, 7, 0] True = Some True"
proof -
  have "intset_of_blob [2, 0, 0, 0, 2, 0, 0, 0, 5, 0, 7, 0] =
      \<lparr>is_encoding = 2, is_length = 2, is_contents = [5, 0, 7, 0]\<rparr>"
    "intset_wf \<lparr>is_encoding = 2, is_length = 2, is_contents = [5, 0, 7, 0]\<rparr>"
    by code_simp+
  then show ?thesis
    using intsetValidateIntegrity_exact [of "[2, 0, 0, 0, 2, 0, 0, 0, 5, 0, 7, 0]"]
    by (simp add: intsetBlobLen_def)
qed

text \<open>C17. The limit of C1 is real: in a set of \<open>2 ^ 29\<close> 64-bit values, which is below the
  \<open>2 ^ 30\<close> entries \<open>t_set.c\<close> allows, the byte count of \<open>intsetMoveTail\<close> wraps to
  0, and making room for a new smallest value moves nothing.\<close>

theorem intsetMoveTail_wraps:
  assumes "is_encoding s = 8" and "is_length s = 2 ^ 29" and "8 \<le> length (is_contents s)"
  shows "intsetMoveTail s 0 1 = Some s"
proof -
  have "(2 ^ 29 :: 32 word) * 8 = 0" by simp
  then show ?thesis
    using assms by (simp add: intsetMoveTail_def Let_def memmove_def load_def store_def)
qed

theorem intsetMoveTail_wraps_witness:
  "intsetMoveTail \<lparr>is_encoding = 8, is_length = 2 ^ 29, is_contents = replicate 16 0\<rparr> 0 1 =
     Some \<lparr>is_encoding = 8, is_length = 2 ^ 29, is_contents = replicate 16 0\<rparr>"
  by (rule intsetMoveTail_wraps) simp_all

end
