(* ===== verification/Util_Num_Correct.thy ===== *)
theory Util_Num_Correct
  imports Util_Num
begin

text \<open>
  Correctness of the number conversions: the writers produce decimal notation, the strict parsers
  accept exactly the decimal notation of the numbers of their type, and so printing and parsing are
  inverse.
\<close>

section \<open>Decimal notation and its value\<close>

definition digit :: "int \<Rightarrow> byte" where
  "digit d = CH_0 + word_of_int d"

lemma uint_digit_sub: "0 \<le> d \<Longrightarrow> d < 10 \<Longrightarrow> uint (digit d - CH_0) = d"
  by (simp add: digit_def uint_word_of_int)

lemma isdigit_digit: "0 \<le> d \<Longrightarrow> d < 10 \<Longrightarrow> isdigit (digit d)"
  by (simp add: digit_def isdigit_def word_le_def uint_word_ariths uint_word_of_int)

lemma digit_uint: "digit (uint (c - CH_0)) = c"
  by (simp add: digit_def)

lemma isdigit_value: "isdigit c \<Longrightarrow> 0 \<le> uint (c - CH_0) \<and> uint (c - CH_0) < 10"
  by (simp add: isdigit_def word_le_def uint_word_ariths)

lemma dec_small: "n < 10 \<Longrightarrow> dec n = [digit n]"
  by (subst dec.simps) (simp add: digit_def)

lemma dec_step: "10 \<le> n \<Longrightarrow> dec n = dec (n div 10) @ [digit (n mod 10)]"
  by (subst dec.simps) (simp add: digit_def)

lemma dval_Nil [simp]: "dval v [] = v"
  by (simp add: dval_def)

lemma dval_Cons [simp]: "dval v (c # p) = dval (v * 10 + uint (c - CH_0)) p"
  by (simp add: dval_def)

lemma dval_append [simp]: "dval v (p @ q) = dval (dval v p) q"
  by (simp add: dval_def)

lemma dval_ge: "0 \<le> v \<Longrightarrow> v \<le> dval v p"
proof (induction p arbitrary: v)
  case (Cons c p)
  have "v \<le> v * 10 + uint (c - CH_0)" using Cons.prems by simp
  also have "\<dots> \<le> dval (v * 10 + uint (c - CH_0)) p" using Cons by simp
  finally show ?case by simp
qed simp

lemma dval_dec: "0 \<le> n \<Longrightarrow> dval 0 (dec n) = n"
proof (induction n rule: dec.induct)
  case (1 n)
  then show ?case
    by (cases "n < 10") (simp_all add: dec_small dec_step uint_digit_sub)
qed

lemma dec_digits: "0 \<le> n \<Longrightarrow> \<forall>c \<in> set (dec n). isdigit c"
proof (induction n rule: dec.induct)
  case (1 n)
  then show ?case
    by (cases "n < 10") (auto simp: dec_small dec_step isdigit_digit)
qed

lemma dec_not_Nil [simp]: "dec n \<noteq> []"
  by (cases "n < 10") (simp_all add: dec_small dec_step)

lemma dec_hd: "0 < n \<Longrightarrow> hd (dec n) \<noteq> CH_0"
proof (induction n rule: dec.induct)
  case (1 n)
  then show ?case
    by (cases "n < 10")
      (auto simp: dec_small dec_step digit_def word_of_int_eq_0_iff)
qed

lemma dec_dval:
  "\<forall>c \<in> set p. isdigit c \<Longrightarrow> p \<noteq> [] \<Longrightarrow> hd p \<noteq> CH_0 \<or> length p = 1 \<Longrightarrow> dec (dval 0 p) = p"
proof (induction p rule: rev_induct)
  case (snoc c p)
  have d: "0 \<le> uint (c - CH_0)" "uint (c - CH_0) < 10" using snoc.prems isdigit_value by auto
  show ?case
  proof (cases "p = []")
    case True
    then show ?thesis using d by (simp add: dec_small digit_uint)
  next
    case False
    then have ne: "hd p \<noteq> CH_0" using snoc.prems by simp
    then have IH: "dec (dval 0 p) = p" using snoc False by simp
    have "uint (hd p - CH_0) \<noteq> 0" using ne by (simp add: uint_0_iff)
    then have "1 \<le> uint (hd p - CH_0)" using uint_ge_0 [of "hd p - CH_0"] by linarith
    also have "\<dots> \<le> dval 0 p" using False dval_ge [of "uint (hd p - CH_0)" "tl p"] by (cases p) auto
    finally have "1 \<le> dval 0 p" .
    moreover have "(dval 0 p * 10 + uint (c - CH_0)) div 10 = dval 0 p"
      and "(dval 0 p * 10 + uint (c - CH_0)) mod 10 = uint (c - CH_0)"
      using d by presburger+
    moreover have "10 \<le> dval 0 p * 10 + uint (c - CH_0)"
      using d \<open>1 \<le> dval 0 p\<close> by linarith
    ultimately show ?thesis using IH dec_step [of "dval 0 p * 10 + uint (c - CH_0)"]
      by (simp add: digit_uint)
  qed
qed simp

lemma length_dec_power: "0 < n \<Longrightarrow> 10 ^ (length (dec n) - 1) \<le> n"
proof (induction n rule: dec.induct)
  case (1 n)
  show ?case
  proof (cases "n < 10")
    case False
    then have IH: "10 ^ (length (dec (n div 10)) - 1) \<le> n div 10" using 1 by simp
    have "length (dec (n div 10)) \<noteq> 0" by simp
    then have "(10::int) ^ length (dec (n div 10)) = 10 * 10 ^ (length (dec (n div 10)) - 1)"
      by (metis Suc_diff_1 not_gr_zero power_Suc)
    also have "\<dots> \<le> n" using IH by simp
    finally show ?thesis using False by (simp add: dec_step)
  qed (use 1 in \<open>simp add: dec_small\<close>)
qed

lemma length_dec_le: "0 \<le> n \<Longrightarrow> n < 10 ^ k \<Longrightarrow> 0 < k \<Longrightarrow> length (dec n) \<le> k"
proof (cases "n = 0")
  case False
  assume "0 \<le> n" "n < 10 ^ k" "0 < k"
  then have "(10::int) ^ (length (dec n) - 1) < 10 ^ k"
    using False by (intro le_less_trans [OF length_dec_power]) auto
  then have "length (dec n) - 1 < k" by simp
  then show ?thesis by simp
qed (simp add: dec_small)

section \<open>The strict parsers\<close>

lemma u64_id: "0 \<le> x \<Longrightarrow> x < 2 ^ 64 \<Longrightarrow> u64 x = x"
  by (simp add: u64_def)

lemma u64_sub: "0 \<le> d \<Longrightarrow> d < 10 \<Longrightarrow> u64 (ULLONG_MAX - d) = ULLONG_MAX - d"
  by (intro u64_id) auto

lemma string2ll_loop_Cons:
  "string2ll_loop (c # p) v =
     (if isdigit c then
        if v > ULLONG_MAX div 10 then None
        else if u64 (v * 10) > u64 (ULLONG_MAX - uint (c - CH_0)) then None
        else string2ll_loop p (u64 (u64 (v * 10) + uint (c - CH_0)))
      else Some (c # p, v))"
  by (simp only: string2ll_loop.simps isdigit_def Let_def)

declare string2ll_loop.simps(2) [simp del]

lemma string2ll_loop_spec:
  assumes "0 \<le> v" and "v < 2 ^ 64"
  shows "string2ll_loop p v = Some ([], w) \<longleftrightarrow>
    (\<forall>c \<in> set p. isdigit c) \<and> dval v p < 2 ^ 64 \<and> w = dval v p"
  using assms
proof (induction p arbitrary: v)
  case (Cons c p)
  show ?case
  proof (cases "isdigit c")
    case True
    let ?d = "uint (c - CH_0)"
    have d: "0 \<le> ?d" "?d < 10" using True isdigit_value by auto
    have sub: "u64 (ULLONG_MAX - ?d) = ULLONG_MAX - ?d" using d by (rule u64_sub)
    show ?thesis
    proof (cases "v * 10 + ?d < 2 ^ 64")
      case small: True
      have "u64 (v * 10) = v * 10" by (rule u64_id) (use Cons.prems d small in linarith)+
      moreover have "u64 (v * 10 + ?d) = v * 10 + ?d"
        by (rule u64_id) (use Cons.prems d small in linarith)+
      moreover have "\<not> v > ULLONG_MAX div 10"
        using small isdigit_value [OF True] by (simp, linarith)
      ultimately show ?thesis
        using True Cons.IH [of "v * 10 + ?d"] Cons.prems d small sub
        by (simp add: string2ll_loop_Cons)
    next
      case False
      have "dval v (c # p) \<ge> 2 ^ 64"
        using dval_ge [of "v * 10 + ?d" p] Cons.prems d False by simp
      moreover have "string2ll_loop (c # p) v = None"
      proof (cases "v > ULLONG_MAX div 10")
        case small: False
        then have "u64 (v * 10) = v * 10" using Cons.prems by (simp add: u64_def)
        then show ?thesis using True False small sub by (simp add: string2ll_loop_Cons)
      qed (use True in \<open>simp add: string2ll_loop_Cons\<close>)
      ultimately show ?thesis by simp
    qed
  next
    case False
    then have "string2ll_loop (c # p) v = Some (c # p, v)" by (simp add: string2ll_loop_Cons)
    then show ?thesis using False by simp
  qed
qed auto


text \<open>The part of the parsers after the sign: a first digit 1-9 and the loop.\<close>

lemma string2ll_digits:
  assumes "c \<ge> CH_1 \<and> c \<le> CH_9"
  shows "string2ll_loop p (uint (c - CH_0)) = Some ([], w) \<longleftrightarrow>
    0 < w \<and> w < 2 ^ 64 \<and> c # p = dec w"
proof -
  have c: "isdigit c" "c \<noteq> CH_0" using assms by (auto simp: isdigit_def word_le_def)
  then have d: "0 < uint (c - CH_0)" "uint (c - CH_0) < 10"
    using isdigit_value [of c] by (auto simp: order_less_le uint_0_iff)
  then have spec: "string2ll_loop p (uint (c - CH_0)) = Some ([], w) \<longleftrightarrow>
    (\<forall>c \<in> set (c # p). isdigit c) \<and> dval 0 (c # p) < 2 ^ 64 \<and> w = dval 0 (c # p)"
    using c string2ll_loop_spec [of "uint (c - CH_0)" p w] by simp
  have pos: "0 < dval 0 (c # p)" using d dval_ge [of "uint (c - CH_0)" p] by simp
  show ?thesis
  proof
    assume "string2ll_loop p (uint (c - CH_0)) = Some ([], w)"
    then have *: "\<forall>c \<in> set (c # p). isdigit c" "w < 2 ^ 64" "w = dval 0 (c # p)"
      using spec by auto
    then have "dec w = c # p" using dec_dval [of "c # p"] c by simp
    then show "0 < w \<and> w < 2 ^ 64 \<and> c # p = dec w" using pos * by simp
  next
    assume w: "0 < w \<and> w < 2 ^ 64 \<and> c # p = dec w"
    then have "dval 0 (c # p) = w" using dval_dec [of w] by simp
    then show "string2ll_loop p (uint (c - CH_0)) = Some ([], w)"
      using spec w dec_digits [of w] by simp
  qed
qed

lemma dec_first:
  assumes "0 < n"
  obtains c p where "dec n = c # p" and "c \<ge> CH_1 \<and> c \<le> CH_9" and "c \<noteq> CH_minus"
proof -
  obtain c p where cp: "dec n = c # p" using dec_not_Nil by (cases "dec n") auto
  then have "isdigit c" "c \<noteq> CH_0" using assms dec_digits [of n] dec_hd [of n] by auto
  then have "c \<ge> CH_1 \<and> c \<le> CH_9" "c \<noteq> CH_minus"
    by (auto simp: isdigit_def word_le_def word_uint_eq_iff)
  then show ?thesis using that cp by blast
qed

lemma string2ll_unsigned:
  assumes "c \<noteq> CH_minus" and "c # p \<noteq> [CH_0]" and "length (c # p) < LONG_STR_SIZE"
  shows "string2ll (c # p) = Some x \<longleftrightarrow> 0 < x \<and> x \<le> LLONG_MAX \<and> c # p = dec x"
proof (cases "c \<ge> CH_1 \<and> c \<le> CH_9")
  case True
  have "string2ll (c # p) = Some x \<longleftrightarrow>
    string2ll_loop p (uint (c - CH_0)) = Some ([], x) \<and> x \<le> LLONG_MAX"
    using assms True
    by (cases "string2ll_loop p (uint (c - CH_0))") (auto simp: string2ll_def split: if_splits)
  then show ?thesis unfolding string2ll_digits [OF True] by auto
next
  case False
  then have "\<not> (0 < x \<and> c # p = dec x)" using dec_first [of x] by (metis list.inject)
  then show ?thesis using assms False by (auto simp: string2ll_def)
qed

lemma string2ll_negative:
  assumes "length (CH_minus # p) < LONG_STR_SIZE"
  shows "string2ll (CH_minus # p) = Some x \<longleftrightarrow> LLONG_MIN \<le> x \<and> x < 0 \<and> p = dec (- x)"
proof (cases p)
  case Nil
  then show ?thesis by (simp add: string2ll_def dec_not_Nil [symmetric])
next
  case (Cons c q)
  show ?thesis
  proof (cases "c \<ge> CH_1 \<and> c \<le> CH_9")
    case True
    have "string2ll (CH_minus # p) = Some x \<longleftrightarrow>
      string2ll_loop q (uint (c - CH_0)) = Some ([], - x) \<and> - x \<le> 2 ^ 63"
      using assms Cons True
      by (cases "string2ll_loop q (uint (c - CH_0))") (auto simp: string2ll_def u64_def split: if_splits)
    then show ?thesis unfolding string2ll_digits [OF True] Cons by auto
  next
    case False
    then have "\<not> (x < 0 \<and> c # q = dec (- x))"
      using dec_first [of "- x"] by (metis list.inject neg_0_less_iff_less)
    then show ?thesis using assms False Cons by (auto simp: string2ll_def)
  qed
qed

lemma sdec_length:
  assumes "LLONG_MIN \<le> x" and "x \<le> LLONG_MAX"
  shows "length (sdec x) < LONG_STR_SIZE"
  using assms length_dec_le [of x 19] length_dec_le [of "- x" 19] by (auto simp: sdec_def)

lemma string2ll_length: "string2ll s = Some x \<Longrightarrow> s \<noteq> [] \<and> length s < LONG_STR_SIZE"
  by (auto simp: string2ll_def split: if_splits)

lemma sdec_hd_minus: "hd (sdec x) = CH_minus \<longleftrightarrow> x < 0"
proof (cases "x = 0")
  case False
  show ?thesis
  proof (cases "x < 0")
    case neg: False
    then have "0 < x" using False by simp
    then obtain c p where "dec x = c # p" "c \<noteq> CH_minus" by (rule dec_first)
    then show ?thesis using neg by (simp add: sdec_def)
  qed (simp add: sdec_def)
qed (simp add: sdec_def dec_small digit_def)

lemma sdec_not_Nil [simp]: "sdec x \<noteq> []"
  by (simp add: sdec_def)

lemma sdec_zero_iff: "sdec x = [CH_0] \<longleftrightarrow> x = 0"
proof
  assume x: "sdec x = [CH_0]"
  then have "\<not> x < 0" using sdec_hd_minus [of x] by auto
  then show "x = 0" using x dec_hd [of x] by (cases "0 < x") (auto simp: sdec_def)
qed (simp add: sdec_def dec_small digit_def)

lemma string2ll_iff:
  "string2ll s = Some x \<longleftrightarrow> LLONG_MIN \<le> x \<and> x \<le> LLONG_MAX \<and> s = sdec x"
proof (cases "s \<noteq> [] \<and> length s < LONG_STR_SIZE")
  case False
  then have "string2ll s \<noteq> Some x" using string2ll_length by blast
  moreover have "\<not> (LLONG_MIN \<le> x \<and> x \<le> LLONG_MAX \<and> s = sdec x)"
    using False sdec_length by auto
  ultimately show ?thesis by blast
next
  case True
  then obtain c p where s: "s = c # p" by (cases s) auto
  consider "s = [CH_0]" | "c = CH_minus" | "s \<noteq> [CH_0]" "c \<noteq> CH_minus" by blast
  then show ?thesis
  proof cases
    case 1
    then show ?thesis using sdec_zero_iff [of x] by (auto simp: string2ll_def)
  next
    case 2
    have "s = sdec x \<longleftrightarrow> x < 0 \<and> p = dec (- x)"
    proof (cases "x < 0")
      case False
      then have "s \<noteq> sdec x" using s 2 sdec_hd_minus [of x] by (metis list.sel(1))
      then show ?thesis using False by simp
    qed (simp add: s 2 sdec_def)
    then show ?thesis using True s 2 string2ll_negative [of p x] by auto
  next
    case 3
    have "s = sdec x \<longleftrightarrow> 0 < x \<and> s = dec x"
    proof (cases "0 < x")
      case False
      then have "s \<noteq> sdec x"
        using s 3 sdec_hd_minus [of x] sdec_zero_iff [of x]
        by (metis list.sel(1) linorder_less_linear)
      then show ?thesis using False by simp
    qed (simp add: sdec_def)
    then show ?thesis using 3 True s string2ll_unsigned [of c p x] by auto
  qed
qed

lemma lpStringToInt64_loop_eq: "lpStringToInt64_loop = string2ll_loop"
proof (intro ext)
  fix p v
  show "lpStringToInt64_loop p v = string2ll_loop p v"
    by (induction p arbitrary: v) (simp_all add: string2ll_loop.simps Let_def)
qed

lemma lpStringToInt64_eq: "lpStringToInt64 = string2ll"
proof
  fix s
  show "lpStringToInt64 s = string2ll s"
    unfolding lpStringToInt64_def string2ll_def lpStringToInt64_loop_eq by (cases s) simp_all
qed

section \<open>The writers\<close>

lemma length_dec_step: "10 \<le> n \<Longrightarrow> length (dec n) = Suc (length (dec (n div 10)))"
  by (simp add: dec_step)

lemma length_dec_small: "n < 10 \<Longrightarrow> length (dec n) = 1"
  by (simp add: dec_small)

lemma length_dec_div:
  "10 ^ k \<le> n \<Longrightarrow> length (dec n) = k + length (dec (n div 10 ^ k))"
proof (induction k arbitrary: n)
  case (Suc k)
  have "(1::int) \<le> 10 ^ k" by simp
  then have "10 \<le> n" and "10 ^ k \<le> n div 10" using Suc.prems unfolding power_Suc by linarith+
  then show ?case
    using Suc.IH [of "n div 10"] \<open>10 ^ k \<le> n div 10\<close>
    by (simp add: length_dec_step zdiv_zmult2_eq)
qed simp

lemma length_dec_eq: "10 ^ k \<le> n \<Longrightarrow> n < 10 ^ Suc k \<Longrightarrow> length (dec n) = Suc k"
proof -
  assume n: "10 ^ k \<le> n" "n < 10 ^ Suc k"
  have "n div 10 ^ k < 10"
  proof (rule ccontr)
    assume "\<not> n div 10 ^ k < 10"
    then have "(10::int) ^ k * 10 \<le> 10 ^ k * (n div 10 ^ k)" by simp
    also have "\<dots> \<le> n" using pos_mod_sign [of "10 ^ k" n] by (simp add: minus_mod_eq_mult_div [symmetric])
    finally show False using n(2) by simp
  qed
  then show ?thesis using length_dec_div [OF n(1)] by (simp add: dec_small)
qed

lemmas length_dec_nums = length_dec_small length_dec_eq [of 1, simplified]
  length_dec_eq [of 2, simplified] length_dec_eq [of 3, simplified]
  length_dec_eq [of 4, simplified] length_dec_eq [of 5, simplified]
  length_dec_eq [of 6, simplified] length_dec_eq [of 7, simplified]
  length_dec_eq [of 8, simplified] length_dec_eq [of 9, simplified]
  length_dec_eq [of 10, simplified] length_dec_eq [of 11, simplified]

lemma digits10_small:
  assumes "0 \<le> v" and "v < 1000000000000"
  shows "digits10 v = length (dec v)"
proof -
  consider "v < 10" | "10 \<le> v" "v < 100" | "100 \<le> v" "v < 1000" | "1000 \<le> v" "v < 10000"
    | "10000 \<le> v" "v < 100000" | "100000 \<le> v" "v < 1000000" | "1000000 \<le> v" "v < 10000000"
    | "10000000 \<le> v" "v < 100000000" | "100000000 \<le> v" "v < 1000000000"
    | "1000000000 \<le> v" "v < 10000000000" | "10000000000 \<le> v" "v < 100000000000"
    | "100000000000 \<le> v"
    unfolding not_less [symmetric] by blast
  then show ?thesis
    by cases (subst digits10.simps, use assms in \<open>simp add: length_dec_nums\<close>)+
qed

lemma digits10_length: "0 \<le> v \<Longrightarrow> digits10 v = length (dec v)"
proof (induction v rule: digits10.induct)
  case (1 v)
  show ?case
  proof (cases "v < 1000000000000")
    case False
    then show ?thesis
      using 1 length_dec_div [of 12 v] by (subst digits10.simps) simp
  qed (use 1 digits10_small in simp)
qed

lemma nth_concat_pairs:
  "k < n \<Longrightarrow> concat (map (\<lambda>j. [f j, g j]) [0..<n]) ! (k * 2) = f k \<and>
    concat (map (\<lambda>j. [f j, g j]) [0..<n]) ! (k * 2 + 1) = g k"
proof (induction n)
  case (Suc n)
  have "length (concat (map (\<lambda>j. [f j, g j]) [0..<n])) = n * 2" by (induction n) auto
  then show ?case using Suc by (cases "k = n") (simp_all add: nth_append)
qed simp

lemma digits_table_pairs:
  "digits_table = concat (map (\<lambda>j. [digit (int j div 10), digit (int j mod 10)]) [0..<100])"
  by (simp add: digits_table_def digit_def upt_rec)

lemma digits_table_nth:
  assumes "0 \<le> k" and "k < 100"
  shows "digits_table ! nat (k * 2) = digit (k div 10)"
    and "digits_table ! (nat (k * 2) + 1) = digit (k mod 10)"
proof -
  have "nat (k * 2) = nat k * 2" and "nat k < 100" using assms by (auto simp: nat_mult_distrib)
  then show "digits_table ! nat (k * 2) = digit (k div 10)"
    and "digits_table ! (nat (k * 2) + 1) = digit (k mod 10)"
    using assms nth_concat_pairs [of "nat k" 100 "\<lambda>j. digit (int j div 10)" "\<lambda>j. digit (int j mod 10)"]
    by (simp_all add: digits_table_pairs)
qed

lemma div_mod_100:
  fixes v :: int
  shows "v mod 100 div 10 = v div 10 mod 10" and "v mod 100 mod 10 = v mod 10"
    and "v div 10 div 10 = v div 100"
  by (simp_all add: zmod_zmult2_eq [of 10 v 10, simplified])

lemma dec_step2:
  "100 \<le> v \<Longrightarrow> dec v = dec (v div 100) @ [digit (v mod 100 div 10), digit (v mod 100 mod 10)]"
  unfolding div_mod_100(1,2) using dec_step [of v] dec_step [of "v div 10"]
  by (simp add: div_mod_100(3))

lemma dec_two: "10 \<le> v \<Longrightarrow> v < 100 \<Longrightarrow> dec v = [digit (v div 10), digit (v mod 10)]"
  by (simp add: dec_step dec_small)

lemma store_two:
  assumes "l + 2 \<le> length dst"
  shows "Option.bind (store dst (int l + 1) [b]) (\<lambda>d. Option.bind (store d (int l) [a]) f) =
    f (take l dst @ [a, b] @ drop (l + 2) dst)"
proof -
  have "nat (int l + 1) = l + 1" by simp
  then have "store dst (int l + 1) [b] = Some (take (l + 1) dst @ [b] @ drop (l + 2) dst)"
    using assms by (simp add: store_def)
  moreover have "store (take (l + 1) dst @ [b] @ drop (l + 2) dst) (int l) [a] =
    Some (take l dst @ [a, b] @ drop (l + 2) dst)"
    using assms by (simp add: store_def)
  ultimately show ?thesis by simp
qed

lemma ull2string_loop_ok:
  assumes "0 \<le> v" and "length (dec v) \<le> length dst"
  shows "\<exists>dst' v'. ull2string_loop dst (int (length (dec v)) - 1) v =
      Some (dst', int (length (dec v')) - 1, v') \<and>
    0 \<le> v' \<and> v' < 100 \<and> length dst' = length dst \<and> length (dec v') \<le> length dst \<and>
    dec v' @ drop (length (dec v')) dst' = dec v @ drop (length (dec v)) dst"
  using assms
proof (induction "nat v" arbitrary: v dst rule: less_induct)
  case less
  show ?case
  proof (cases "v < 100")
    case True
    then have "ull2string_loop dst (int (length (dec v)) - 1) v = Some (dst, int (length (dec v)) - 1, v)"
      by (subst ull2string_loop.simps) simp
    then show ?thesis using True less.prems by blast
  next
    case False
    let ?l = "length (dec (v div 100))"
    let ?a = "digit (v mod 100 div 10)" and ?b = "digit (v mod 100 mod 10)"
    let ?d = "take ?l dst @ [?a, ?b] @ drop (?l + 2) dst"
    have dv: "dec v = dec (v div 100) @ [?a, ?b]" using False by (intro dec_step2) simp
    have pos: "int (length (dec v)) - 1 = int ?l + 1" by (simp only: dv) simp
    have len: "?l + 2 \<le> length dst" using less.prems(2) unfolding dv by simp
    have "ull2string_loop dst (int ?l + 1) v =
      Option.bind (store dst (int ?l + 1) [?b]) (\<lambda>d. Option.bind (store d (int ?l) [?a])
        (\<lambda>d. ull2string_loop d (int ?l - 1) (v div 100)))"
      using False digits_table_nth [of "v mod 100"]
      by (subst ull2string_loop.simps) (simp add: Let_def)
    then have step: "ull2string_loop dst (int (length (dec v)) - 1) v =
      ull2string_loop ?d (int ?l - 1) (v div 100)"
      unfolding pos store_two [OF len] .
    have "nat (v div 100) < nat v" and "0 \<le> v div 100" using False by auto
    moreover have "?l \<le> length ?d" using len by simp
    ultimately obtain dst' v' where
      "ull2string_loop ?d (int ?l - 1) (v div 100) = Some (dst', int (length (dec v')) - 1, v')"
      "0 \<le> v'" "v' < 100" "length dst' = length ?d" "length (dec v') \<le> length ?d"
      "dec v' @ drop (length (dec v')) dst' = dec (v div 100) @ drop ?l ?d"
      using less.hyps [of "v div 100" ?d] by blast
    moreover have "dec (v div 100) @ drop ?l ?d = dec v @ drop (length (dec v)) dst"
      unfolding dv using len by simp
    moreover have "length ?d = length dst" using len by simp
    ultimately show ?thesis unfolding step by metis
  qed
qed

lemma ull2string_ok:
  assumes "0 \<le> v" and "length (dec v) < length dst"
  shows "ull2string dst v =
    Some (dec v @ [0] @ drop (length (dec v) + 1) dst, length (dec v))"
proof -
  let ?n = "length (dec v)"
  let ?d = "take ?n dst @ [0] @ drop (?n + 1) dst"
  have st: "store dst (int ?n) [0] = Some ?d" using assms by (simp add: store_nat)
  have "?n \<le> length ?d" using assms by simp
  then obtain d w where dw: "ull2string_loop ?d (int ?n - 1) v = Some (d, int (length (dec w)) - 1, w)"
    "0 \<le> w" "w < 100" "length d = length ?d" "length (dec w) \<le> length ?d"
    "dec w @ drop (length (dec w)) d = dec v @ drop ?n ?d"
    using ull2string_loop_ok [of v ?d] assms by blast
  have "drop ?n ?d = [0] @ drop (?n + 1) dst" using assms by simp
  then have res: "dec w @ drop (length (dec w)) d = dec v @ [0] @ drop (?n + 1) dst"
    using dw by simp
  have L: "length dst > ?n" "digits10 v = ?n" using assms digits10_length by auto
  show ?thesis
  proof (cases "w < 10")
    case True
    then have "store d 0 [digit w] = Some (dec w @ drop (length (dec w)) d)"
      using dw(4,5) assms store_nat [of 0 "[digit w]" d] by (simp add: dec_small)
    then show ?thesis
      using True L st dw(1) res by (simp add: ull2string_def dec_small digit_def Let_def)
  next
    case False
    have dec: "dec w = [digit (w div 10), digit (w mod 10)]" using False dw by (simp add: dec_two)
    have "0 + 2 \<le> length d" using dw(4,5) by (simp add: dec)
    note two = store_two [OF this, simplified]
    show ?thesis
      using False L st dw(1,2,3) res digits_table_nth [of w]
      by (simp add: ull2string_def dec Let_def two)
  qed
qed

lemma ull2string_short:
  "0 \<le> v \<Longrightarrow> length dst \<le> length (dec v) \<Longrightarrow>
   ull2string dst v = Some (if dst = [] then [] else 0 # tl dst, 0)"
  by (cases dst)
    (simp_all add: ull2string_def digits10_length ull2string_err_def store_def Let_def)

lemma ll2string_ok:
  assumes "LLONG_MIN \<le> x" and "x \<le> LLONG_MAX" and "length (sdec x) < length dst"
  shows "ll2string dst x =
    Some (sdec x @ [0] @ drop (length (sdec x) + 1) dst, length (sdec x))"
proof (cases "x < 0")
  case True
  obtain c d where dst: "dst = c # d" using assms by (cases dst) auto
  have "d \<noteq> []" using assms True dst by (auto simp: sdec_def)
  moreover have "length (dec (- x)) < length d" using assms True dst by (simp add: sdec_def)
  moreover have "(if x \<noteq> LLONG_MIN then u64 (- x) else u64 (LLONG_MAX + 1)) = - x"
    using assms True by (auto simp: u64_def)
  moreover have "store dst 0 [CH_minus] = Some (CH_minus # d)" by (simp add: dst store_def)
  ultimately show ?thesis
    using True ull2string_ok [of "- x" d]
    by (simp add: ll2string_def sdec_def dst Let_def del: power_numeral)
next
  case False
  then show ?thesis
    using assms ull2string_ok [of x dst] by (simp add: ll2string_def sdec_def u64_id)
qed

lemma sdigits10_length:
  assumes "LLONG_MIN \<le> x" and "x \<le> LLONG_MAX"
  shows "sdigits10 x = length (sdec x)"
  using assms by (auto simp: sdigits10_def sdec_def digits10_length u64_def Let_def)

section \<open>Library calls\<close>

lemma dval_nonneg: "0 \<le> v \<Longrightarrow> 0 \<le> dval v p"
  using dval_ge order_trans by blast

lemma takeWhile_dec: "0 \<le> n \<Longrightarrow> u = [] \<or> \<not> isdigit (hd u) \<Longrightarrow> takeWhile isdigit (dec n @ u) = dec n"
  using dec_digits [of n] by (cases u) (auto simp: takeWhile_append)

lemma dropWhile_dec: "0 \<le> n \<Longrightarrow> u = [] \<or> \<not> isdigit (hd u) \<Longrightarrow> dropWhile isdigit (dec n @ u) = u"
  using dec_digits [of n] by (cases u) (auto simp: dropWhile_append)

lemma isdigit_other: "isdigit c \<Longrightarrow> \<not> isspace c \<and> c \<noteq> CH_minus \<and> c \<noteq> 43"
  by (auto simp: isdigit_def isspace_def word_le_def word_uint_eq_iff)

lemma strtoull_sdec:
  "strtoull (sdec x) =
    (if \<bar>x\<bar> > ULLONG_MAX then (ULLONG_MAX, True, []) else (u64 x, False, []))"
proof -
  obtain c p where d: "dec \<bar>x\<bar> = c # p" by (cases "dec \<bar>x\<bar>") auto
  then have c: "\<not> isspace c" "c \<noteq> CH_minus" "c \<noteq> 43"
    using dec_digits [of "\<bar>x\<bar>"] isdigit_other [of c] by auto
  have tw: "takeWhile isdigit (c # p) = c # p" using takeWhile_dec [of "\<bar>x\<bar>" "[]"] d by simp
  have v: "dval 0 (c # p) = \<bar>x\<bar>" using dval_dec [of "\<bar>x\<bar>"] d by simp
  show ?thesis
  proof (cases "x < 0")
    case True
    then have "sdec x = CH_minus # c # p" using d by (simp add: sdec_def)
    then show ?thesis using True c v
      by (simp add: strtoull_def Let_def isspace_def word_le_def tw del: takeWhile.simps dval_Cons)
  next
    case False
    then have "sdec x = c # p" using d by (simp add: sdec_def)
    then show ?thesis using False c v
      by (simp add: strtoull_def Let_def u64_def tw del: takeWhile.simps dval_Cons)
  qed
qed

lemma strtoull_dec:
  "0 \<le> n \<Longrightarrow> strtoull (dec n) = (min n ULLONG_MAX, n > ULLONG_MAX, [])"
  using strtoull_sdec [of n] by (simp add: sdec_def u64_def)

section \<open>Properties\<close>

text \<open>
  C18. \<open>string2ll\<close> accepts a string exactly when it is the canonical decimal notation of a
  number of the range of \<open>long long\<close>, and then returns that number: no leading zero, no
  plus sign, no surrounding bytes, no overflow.
\<close>

theorem string2ll_exact:
  "string2ll s = Some x \<longleftrightarrow> LLONG_MIN \<le> x \<and> x \<le> LLONG_MAX \<and> s = sdec x"
  by (rule string2ll_iff)

text \<open>
  C19. Printing and parsing are inverse: into a buffer of \<open>LONG_STR_SIZE\<close> bytes
  \<open>ll2string\<close> writes any \<open>long long\<close> in decimal with a terminating NUL, leaves the rest
  of the buffer alone, returns the number of digits \<open>sdigits10\<close> announces, and
  \<open>string2ll\<close> reads the number back.
\<close>

theorem ll2string_roundtrip:
  assumes "LLONG_MIN \<le> x" and "x \<le> LLONG_MAX" and "LONG_STR_SIZE \<le> length dst"
  shows "\<exists>dst'. ll2string dst x = Some (dst', sdigits10 x) \<and>
    take (sdigits10 x) dst' = sdec x \<and> dst' ! sdigits10 x = 0 \<and>
    drop (sdigits10 x + 1) dst' = drop (sdigits10 x + 1) dst \<and>
    string2ll (take (sdigits10 x) dst') = Some x"
proof -
  have "length (sdec x) < length dst" using sdec_length [of x] assms by simp
  from ll2string_ok [OF assms(1,2) this] show ?thesis
    using assms by (auto simp: sdigits10_length nth_append string2ll_iff)
qed

theorem ll2string_roundtrip_witness:
  "\<exists>dst'. ll2string (replicate 21 7) (- 120) = Some (dst', sdigits10 (- 120)) \<and>
    take (sdigits10 (- 120)) dst' = sdec (- 120) \<and> dst' ! sdigits10 (- 120) = 0 \<and>
    drop (sdigits10 (- 120) + 1) dst' = drop (sdigits10 (- 120) + 1) (replicate 21 7) \<and>
    string2ll (take (sdigits10 (- 120)) dst') = Some (- 120)"
  by (rule ll2string_roundtrip) simp_all

text \<open>
  C20. The listpack's own copy of the parser, which decides whether a string is stored as an
  integer, agrees with \<open>string2ll\<close> on every string.
\<close>

theorem lpStringToInt64_equiv: "lpStringToInt64 s = string2ll s"
  by (simp add: lpStringToInt64_eq)

text \<open>
  C21. \<open>string2ull\<close> rejects a negative number only when \<open>string2ll\<close> can read it: the
  decimal notation of a number below \<open>LLONG_MIN\<close> falls through to \<open>strtoull\<close>, which
  negates modulo \<open>2 ^ 64\<close>, and is accepted as a positive number.
\<close>

theorem string2ull_negative_accepted:
  assumes "- (2 ^ 64) < x" and "x < LLONG_MIN"
  shows "string2ull (sdec x) = Some (x + 2 ^ 64)"
proof -
  have "string2ll (sdec x) = None"
  proof (cases "string2ll (sdec x)")
    case (Some y)
    then have y: "LLONG_MIN \<le> y" "sdec x = sdec y" by (auto simp: string2ll_iff)
    have "y < 0" using y(2) sdec_hd_minus [of x] sdec_hd_minus [of y] assms by simp
    then have "dec (- x) = dec (- y)" using y(2) assms by (simp add: sdec_def)
    then have "- x = - y" using dval_dec [of "- x"] dval_dec [of "- y"] \<open>y < 0\<close> assms by simp
    then show ?thesis using y assms by simp
  qed simp
  moreover have "u64 x = x + 2 ^ 64"
    using assms mod_pos_pos_trivial [of "x + 2 ^ 64" "2 ^ 64"] by (simp add: u64_def)
  ultimately show ?thesis
    using assms strtoull_sdec [of x] by (simp add: string2ull_def)
qed

theorem string2ull_negative_accepted_witness:
  "string2ull (sdec (- 9223372036854775809)) = Some 9223372036854775807"
  using string2ull_negative_accepted [of "- 9223372036854775809"] by simp

text \<open>
  C22. \<open>memtoull\<close> reads a number of at most 127 digits with a unit: the result is the number times the unit, but
  the number saturates at \<open>ULLONG_MAX\<close> and the product wraps modulo \<open>2 ^ 64\<close> with no
  error, so that an amount of \<open>2 ^ 64\<close> bytes is read as 0.
\<close>

theorem memtoull_value:
  assumes "0 \<le> n" and "n < 10 ^ 127" and "mem_unit u = Some mul" and "u = [] \<or> \<not> isdigit (hd u)"
  shows "memtoull (dec n @ u) = Some (min n ULLONG_MAX * mul mod 2 ^ 64)"
proof -
  have "length (dec n) \<le> 127" using assms by (intro length_dec_le) auto
  moreover have "hd (dec n) \<noteq> CH_minus"
    using dec_digits [OF assms(1)] isdigit_other by (metis dec_not_Nil list.set_sel(1))
  ultimately show ?thesis
    using assms
    by (simp add: memtoull_def dropWhile_dec takeWhile_dec strtoull_dec u64_def hd_append)
qed

theorem memtoull_value_witness:
  "memtoull (dec 17179869184 @ map of_char ''gb'') = Some 0"
  using memtoull_value [of 17179869184 "map of_char ''gb''" "1024 * 1024 * 1024"]
  by (simp add: mem_unit_def strcasecmp_eq_def tolower_def isdigit_def word_le_def)

end
