(* ===== verification/Listpack_Enc.thy ===== *)
theory Listpack_Enc
  imports Util_Num
begin

unbundle bit_operations_syntax

text \<open>
  The element encodings of \<open>redis-stable/src/listpack.c\<close>. A listpack is a block of bytes; a
  pointer into it is an offset. An element is its encoding (an integer of one of six widths, or a
  string with a length of one of three widths) followed by its \<open>backlen\<close>, the length of the
  encoding written so that it can be read from right to left.
\<close>

section \<open>Encoding bytes\<close>

abbreviation (input) LP_HDR_SIZE :: int where "LP_HDR_SIZE \<equiv> 6"
abbreviation (input) LP_HDR_NUMELE_UNKNOWN :: int where "LP_HDR_NUMELE_UNKNOWN \<equiv> 65535"
abbreviation (input) LP_INTBUF_SIZE :: nat where "LP_INTBUF_SIZE \<equiv> 21"
abbreviation (input) LP_EOF :: byte where "LP_EOF \<equiv> 0xFF"
abbreviation (input) UINT16_MAX :: int where "UINT16_MAX \<equiv> 65535"
abbreviation (input) UINT32_MAX :: int where "UINT32_MAX \<equiv> 4294967295"
abbreviation (input) UINT64_MAX :: int where "UINT64_MAX \<equiv> 18446744073709551615"

text \<open>An unsigned 32-bit result, and the conversion of an unsigned 64-bit value to \<open>int64_t\<close>.\<close>

definition u32 :: "int \<Rightarrow> int" where
  "u32 x = x mod 2 ^ 32"

definition i64 :: "int \<Rightarrow> int" where
  "i64 x = (x + 2 ^ 63) mod 2 ^ 64 - 2 ^ 63"

definition LP_ENCODING_IS_7BIT_UINT :: "byte \<Rightarrow> bool" where
  "LP_ENCODING_IS_7BIT_UINT b \<longleftrightarrow> b AND 0x80 = 0"

definition LP_ENCODING_IS_6BIT_STR :: "byte \<Rightarrow> bool" where
  "LP_ENCODING_IS_6BIT_STR b \<longleftrightarrow> b AND 0xC0 = 0x80"

definition LP_ENCODING_IS_13BIT_INT :: "byte \<Rightarrow> bool" where
  "LP_ENCODING_IS_13BIT_INT b \<longleftrightarrow> b AND 0xE0 = 0xC0"

definition LP_ENCODING_IS_12BIT_STR :: "byte \<Rightarrow> bool" where
  "LP_ENCODING_IS_12BIT_STR b \<longleftrightarrow> b AND 0xF0 = 0xE0"

definition LP_ENCODING_IS_16BIT_INT :: "byte \<Rightarrow> bool" where
  "LP_ENCODING_IS_16BIT_INT b \<longleftrightarrow> b AND 0xFF = 0xF1"

definition LP_ENCODING_IS_24BIT_INT :: "byte \<Rightarrow> bool" where
  "LP_ENCODING_IS_24BIT_INT b \<longleftrightarrow> b AND 0xFF = 0xF2"

definition LP_ENCODING_IS_32BIT_INT :: "byte \<Rightarrow> bool" where
  "LP_ENCODING_IS_32BIT_INT b \<longleftrightarrow> b AND 0xFF = 0xF3"

definition LP_ENCODING_IS_64BIT_INT :: "byte \<Rightarrow> bool" where
  "LP_ENCODING_IS_64BIT_INT b \<longleftrightarrow> b AND 0xFF = 0xF4"

definition LP_ENCODING_IS_32BIT_STR :: "byte \<Rightarrow> bool" where
  "LP_ENCODING_IS_32BIT_STR b \<longleftrightarrow> b AND 0xFF = 0xF0"

definition LP_ENCODING_6BIT_STR_LEN :: "mem \<Rightarrow> int \<Rightarrow> int option" where
  "LP_ENCODING_6BIT_STR_LEN m p = do { b0 \<leftarrow> rd m p; Some (uint (b0 AND 0x3F)) }"

definition LP_ENCODING_12BIT_STR_LEN :: "mem \<Rightarrow> int \<Rightarrow> int option" where
  "LP_ENCODING_12BIT_STR_LEN m p = do {
     b0 \<leftarrow> rd m p;
     b1 \<leftarrow> rd m (p + 1);
     Some (push_bit 8 (uint (b0 AND 0xF)) OR uint b1) }"

definition LP_ENCODING_32BIT_STR_LEN :: "mem \<Rightarrow> int \<Rightarrow> int option" where
  "LP_ENCODING_32BIT_STR_LEN m p = do {
     b1 \<leftarrow> rd m (p + 1);
     b2 \<leftarrow> rd m (p + 2);
     b3 \<leftarrow> rd m (p + 3);
     b4 \<leftarrow> rd m (p + 4);
     Some (uint b1 OR push_bit 8 (uint b2) OR push_bit 16 (uint b3) OR push_bit 24 (uint b4)) }"

section \<open>The header\<close>

definition lpGetTotalBytes :: "mem \<Rightarrow> int option" where
  "lpGetTotalBytes m = do {
     b0 \<leftarrow> rd m 0;
     b1 \<leftarrow> rd m 1;
     b2 \<leftarrow> rd m 2;
     b3 \<leftarrow> rd m 3;
     Some (uint b0 OR push_bit 8 (uint b1) OR push_bit 16 (uint b2) OR push_bit 24 (uint b3)) }"

definition lpGetNumElements :: "mem \<Rightarrow> int option" where
  "lpGetNumElements m = do {
     b4 \<leftarrow> rd m 4;
     b5 \<leftarrow> rd m 5;
     Some (uint b4 OR push_bit 8 (uint b5)) }"

definition lpSetTotalBytes :: "mem \<Rightarrow> int \<Rightarrow> mem option" where
  "lpSetTotalBytes m v = do {
     m \<leftarrow> store m 0 [word_of_int (v AND 0xff)];
     m \<leftarrow> store m 1 [word_of_int (drop_bit 8 v AND 0xff)];
     m \<leftarrow> store m 2 [word_of_int (drop_bit 16 v AND 0xff)];
     store m 3 [word_of_int (drop_bit 24 v AND 0xff)] }"

definition lpSetNumElements :: "mem \<Rightarrow> int \<Rightarrow> mem option" where
  "lpSetNumElements m v = do {
     m \<leftarrow> store m 4 [word_of_int (v AND 0xff)];
     store m 5 [word_of_int (drop_bit 8 v AND 0xff)] }"

section \<open>Integers\<close>

text \<open>The bytes stored in \<open>intenc\<close>; their number is \<open>*enclen\<close>.\<close>

definition lpEncodeIntegerGetType :: "int \<Rightarrow> byte list" where
  "lpEncodeIntegerGetType v =
     (if v \<ge> 0 \<and> v \<le> 127 then [word_of_int v]
      else if v \<ge> - 4096 \<and> v \<le> 4095 then
        (let v = (if v < 0 then 2 ^ 13 + v else v) in
         [word_of_int (drop_bit 8 v OR 0xC0), word_of_int (v AND 0xff)])
      else if v \<ge> - 32768 \<and> v \<le> 32767 then
        (let v = (if v < 0 then 2 ^ 16 + v else v) in
         [0xF1, word_of_int (v AND 0xff), word_of_int (drop_bit 8 v)])
      else if v \<ge> - 8388608 \<and> v \<le> 8388607 then
        (let v = (if v < 0 then 2 ^ 24 + v else v) in
         [0xF2, word_of_int (v AND 0xff), word_of_int (drop_bit 8 v AND 0xff),
          word_of_int (drop_bit 16 v)])
      else if v \<ge> - 2147483648 \<and> v \<le> 2147483647 then
        (let v = (if v < 0 then 2 ^ 32 + v else v) in
         [0xF3, word_of_int (v AND 0xff), word_of_int (drop_bit 8 v AND 0xff),
          word_of_int (drop_bit 16 v AND 0xff), word_of_int (drop_bit 24 v)])
      else
        (let uv = u64 v in
         [0xF4, word_of_int (uv AND 0xff), word_of_int (drop_bit 8 uv AND 0xff),
          word_of_int (drop_bit 16 uv AND 0xff), word_of_int (drop_bit 24 uv AND 0xff),
          word_of_int (drop_bit 32 uv AND 0xff), word_of_int (drop_bit 40 uv AND 0xff),
          word_of_int (drop_bit 48 uv AND 0xff), word_of_int (drop_bit 56 uv)]))"

text \<open>
  \<open>lpEncodeGetType\<close>: \<open>Inl\<close> is \<open>LP_ENCODING_INT\<close> with the encoded integer,
  \<open>Inr\<close> is \<open>LP_ENCODING_STRING\<close> with \<open>*enclen\<close>.
\<close>

definition lpEncodeGetType :: "byte list \<Rightarrow> byte list + int" where
  "lpEncodeGetType ele =
     (case lpStringToInt64 ele of
        Some v \<Rightarrow> Inl (lpEncodeIntegerGetType v)
      | None \<Rightarrow>
          let size = int (length ele) in
          if size < 64 then Inr (1 + size)
          else if size < 4096 then Inr (2 + size)
          else Inr (5 + size))"

section \<open>Back lengths\<close>

definition lpEncodeBacklen :: "int \<Rightarrow> byte list" where
  "lpEncodeBacklen l =
     (if l \<le> 127 then [word_of_int l]
      else if l \<le> 16383 then
        [word_of_int (drop_bit 7 l), word_of_int ((l AND 127) OR 128)]
      else if l \<le> 2097151 then
        [word_of_int (drop_bit 14 l), word_of_int ((drop_bit 7 l AND 127) OR 128),
         word_of_int ((l AND 127) OR 128)]
      else if l \<le> 268435455 then
        [word_of_int (drop_bit 21 l), word_of_int ((drop_bit 14 l AND 127) OR 128),
         word_of_int ((drop_bit 7 l AND 127) OR 128), word_of_int ((l AND 127) OR 128)]
      else
        [word_of_int (drop_bit 28 l), word_of_int ((drop_bit 21 l AND 127) OR 128),
         word_of_int ((drop_bit 14 l AND 127) OR 128),
         word_of_int ((drop_bit 7 l AND 127) OR 128), word_of_int ((l AND 127) OR 128)])"

definition lpEncodeBacklenBytes :: "int \<Rightarrow> int" where
  "lpEncodeBacklenBytes l =
     (if l \<le> 127 then 1 else if l \<le> 16383 then 2 else if l \<le> 2097151 then 3
      else if l \<le> 268435455 then 4 else 5)"

definition lpDecodeBacklen :: "mem \<Rightarrow> int \<Rightarrow> int option" where
  "lpDecodeBacklen m p = do {
     b0 \<leftarrow> rd m p;
     if b0 AND 128 = 0 then Some (uint (b0 AND 127))
     else do {
       let val = uint (b0 AND 127);
       b1 \<leftarrow> rd m (p - 1);
       if b1 AND 128 = 0 then Some (val OR push_bit 7 (uint (b1 AND 127)))
       else do {
         let val = val OR push_bit 7 (uint (b1 AND 127));
         b2 \<leftarrow> rd m (p - 2);
         if b2 AND 128 = 0 then Some (val OR push_bit 14 (uint (b2 AND 127)))
         else do {
           let val = val OR push_bit 14 (uint (b2 AND 127));
           b3 \<leftarrow> rd m (p - 3);
           if b3 AND 128 = 0 then Some (val OR push_bit 21 (uint (b3 AND 127)))
           else do {
             let val = val OR push_bit 21 (uint (b3 AND 127));
             b4 \<leftarrow> rd m (p - 4);
             if b4 AND 128 = 0 then Some (val OR push_bit 28 (uint (b4 AND 127)))
             else Some UINT64_MAX } } } } }"

section \<open>Strings and sizes\<close>

text \<open>The bytes \<open>lpEncodeString\<close> writes: the length and then the string.\<close>

definition lpEncodeString :: "byte list \<Rightarrow> byte list" where
  "lpEncodeString s =
     (let len = int (length s) in
      if len < 64 then [word_of_int (len OR 0x80)] @ s
      else if len < 4096 then
        [word_of_int (drop_bit 8 len OR 0xE0), word_of_int (len AND 0xff)] @ s
      else
        [0xF0, word_of_int (len AND 0xff), word_of_int (drop_bit 8 len AND 0xff),
         word_of_int (drop_bit 16 len AND 0xff), word_of_int (drop_bit 24 len AND 0xff)] @ s)"

definition lpCurrentEncodedSizeUnsafe :: "mem \<Rightarrow> int \<Rightarrow> int option" where
  "lpCurrentEncodedSizeUnsafe m p = do {
     b \<leftarrow> rd m p;
     if LP_ENCODING_IS_7BIT_UINT b then Some 1
     else if LP_ENCODING_IS_6BIT_STR b then
       do { n \<leftarrow> LP_ENCODING_6BIT_STR_LEN m p; Some (1 + n) }
     else if LP_ENCODING_IS_13BIT_INT b then Some 2
     else if LP_ENCODING_IS_16BIT_INT b then Some 3
     else if LP_ENCODING_IS_24BIT_INT b then Some 4
     else if LP_ENCODING_IS_32BIT_INT b then Some 5
     else if LP_ENCODING_IS_64BIT_INT b then Some 9
     else if LP_ENCODING_IS_12BIT_STR b then
       do { n \<leftarrow> LP_ENCODING_12BIT_STR_LEN m p; Some (2 + n) }
     else if LP_ENCODING_IS_32BIT_STR b then
       do { n \<leftarrow> LP_ENCODING_32BIT_STR_LEN m p; Some (u32 (5 + n)) }
     else if b = LP_EOF then Some 1
     else Some 0 }"

definition lpCurrentEncodedSizeBytes :: "byte \<Rightarrow> int" where
  "lpCurrentEncodedSizeBytes b =
     (if LP_ENCODING_IS_7BIT_UINT b then 1
      else if LP_ENCODING_IS_6BIT_STR b then 1
      else if LP_ENCODING_IS_13BIT_INT b then 1
      else if LP_ENCODING_IS_16BIT_INT b then 1
      else if LP_ENCODING_IS_24BIT_INT b then 1
      else if LP_ENCODING_IS_32BIT_INT b then 1
      else if LP_ENCODING_IS_64BIT_INT b then 1
      else if LP_ENCODING_IS_12BIT_STR b then 2
      else if LP_ENCODING_IS_32BIT_STR b then 5
      else if b = LP_EOF then 1
      else 0)"

definition lpSkip :: "mem \<Rightarrow> int \<Rightarrow> int option" where
  "lpSkip m p = do {
     entrylen \<leftarrow> lpCurrentEncodedSizeUnsafe m p;
     Some (p + (entrylen + lpEncodeBacklenBytes entrylen)) }"

definition lpEntrySizeInteger :: "int \<Rightarrow> int" where
  "lpEntrySizeInteger lval =
     (let enclen = int (length (lpEncodeIntegerGetType lval))
      in enclen + lpEncodeBacklenBytes enclen)"

definition lpEstimateBytesRepeatedInteger :: "int \<Rightarrow> int \<Rightarrow> int" where
  "lpEstimateBytesRepeatedInteger lval rep =
     u64 (LP_HDR_SIZE + u64 (lpEntrySizeInteger lval * rep) + 1)"

section \<open>Reading an element\<close>

text \<open>
  What the \<open>lpGet\<close> functions return: a pointer to the string inside the listpack with its
  length, an integer (\<open>NULL\<close> with \<open>*count\<close> the value), or the caller's
  \<open>intbuf\<close> filled with the decimal notation and its length.
\<close>

datatype lpval = LpString int int | LpInteger int | LpIntbuf mem nat

definition lp_int_of_uval :: "int \<Rightarrow> int \<Rightarrow> int \<Rightarrow> int" where
  "lp_int_of_uval uval negstart negmax =
     (if uval \<ge> negstart then - i64 (u64 (negmax - uval)) - 1 else i64 uval)"

text \<open>
  The caller's buffer has \<open>LP_INTBUF_SIZE\<close> bytes, the length that \<open>ll2string\<close> gets and that is enough
  for every 64-bit number; a shorter buffer is a fault.
\<close>

definition lp_return_int :: "int \<Rightarrow> mem option \<Rightarrow> lpval option" where
  "lp_return_int val intbuf =
     (case intbuf of
        None \<Rightarrow> Some (LpInteger val)
      | Some buf \<Rightarrow> do {
          guard (LP_INTBUF_SIZE \<le> length buf);
          (buf, n) \<leftarrow> ll2string buf val;
          Some (LpIntbuf buf n) })"

text \<open>The integer encodings from 13 to 64 bits: the unsigned value behind the encoding byte.\<close>

fun lp_rd_le :: "mem \<Rightarrow> int \<Rightarrow> nat \<Rightarrow> nat \<Rightarrow> int option" where
  "lp_rd_le m p 0 sh = Some 0"
| "lp_rd_le m p (Suc n) sh = do {
     b \<leftarrow> rd m p;
     r \<leftarrow> lp_rd_le m (p + 1) n (sh + 8);
     Some (push_bit sh (uint b) OR r) }"

definition lpGetWithSize :: "mem \<Rightarrow> int \<Rightarrow> mem option \<Rightarrow> int \<Rightarrow> (lpval \<times> int) option" where
  "lpGetWithSize m p intbuf entry_size = do {
     b \<leftarrow> rd m p;
     if LP_ENCODING_IS_7BIT_UINT b then do {
       r \<leftarrow> lp_return_int (lp_int_of_uval (uint (b AND 0x7f)) UINT64_MAX 0) intbuf;
       Some (r, 2) }
     else if LP_ENCODING_IS_6BIT_STR b then do {
       count \<leftarrow> LP_ENCODING_6BIT_STR_LEN m p;
       Some (LpString (p + 1) count, 1 + count + lpEncodeBacklenBytes (count + 1)) }
     else if LP_ENCODING_IS_13BIT_INT b then do {
       b1 \<leftarrow> rd m (p + 1);
       let uval = push_bit 8 (uint (b AND 0x1f)) OR uint b1;
       r \<leftarrow> lp_return_int (lp_int_of_uval uval (2 ^ 12) 8191) intbuf;
       Some (r, 3) }
     else if LP_ENCODING_IS_16BIT_INT b then do {
       uval \<leftarrow> lp_rd_le m (p + 1) 2 0;
       r \<leftarrow> lp_return_int (lp_int_of_uval uval (2 ^ 15) UINT16_MAX) intbuf;
       Some (r, 4) }
     else if LP_ENCODING_IS_24BIT_INT b then do {
       uval \<leftarrow> lp_rd_le m (p + 1) 3 0;
       r \<leftarrow> lp_return_int (lp_int_of_uval uval (2 ^ 23) (drop_bit 8 UINT32_MAX)) intbuf;
       Some (r, 5) }
     else if LP_ENCODING_IS_32BIT_INT b then do {
       uval \<leftarrow> lp_rd_le m (p + 1) 4 0;
       r \<leftarrow> lp_return_int (lp_int_of_uval uval (2 ^ 31) UINT32_MAX) intbuf;
       Some (r, 6) }
     else if LP_ENCODING_IS_64BIT_INT b then do {
       uval \<leftarrow> lp_rd_le m (p + 1) 8 0;
       r \<leftarrow> lp_return_int (lp_int_of_uval uval (2 ^ 63) UINT64_MAX) intbuf;
       Some (r, 10) }
     else if LP_ENCODING_IS_12BIT_STR b then do {
       count \<leftarrow> LP_ENCODING_12BIT_STR_LEN m p;
       Some (LpString (p + 2) count, 2 + count + lpEncodeBacklenBytes (count + 2)) }
     else if LP_ENCODING_IS_32BIT_STR b then do {
       count \<leftarrow> LP_ENCODING_32BIT_STR_LEN m p;
       Some (LpString (p + 5) count, 5 + count + lpEncodeBacklenBytes (count + 5)) }
     else do {
       r \<leftarrow> lp_return_int (lp_int_of_uval (12345678900000000 + uint b) UINT64_MAX 0) intbuf;
       Some (r, entry_size) } }"

definition lpGetWithBuf :: "mem \<Rightarrow> int \<Rightarrow> mem option \<Rightarrow> lpval option" where
  "lpGetWithBuf m p intbuf = do {
     b \<leftarrow> rd m p;
     if LP_ENCODING_IS_6BIT_STR b then do {
       count \<leftarrow> LP_ENCODING_6BIT_STR_LEN m p;
       Some (LpString (p + 1) count) }
     else if LP_ENCODING_IS_12BIT_STR b then do {
       count \<leftarrow> LP_ENCODING_12BIT_STR_LEN m p;
       Some (LpString (p + 2) count) }
     else if LP_ENCODING_IS_32BIT_STR b then do {
       count \<leftarrow> LP_ENCODING_32BIT_STR_LEN m p;
       Some (LpString (p + 5) count) }
     else if LP_ENCODING_IS_7BIT_UINT b then
       lp_return_int (lp_int_of_uval (uint (b AND 0x7f)) UINT64_MAX 0) intbuf
     else if LP_ENCODING_IS_13BIT_INT b then do {
       b1 \<leftarrow> rd m (p + 1);
       lp_return_int
         (lp_int_of_uval (push_bit 8 (uint (b AND 0x1f)) OR uint b1) (2 ^ 12) 8191) intbuf }
     else if LP_ENCODING_IS_16BIT_INT b then do {
       uval \<leftarrow> lp_rd_le m (p + 1) 2 0;
       lp_return_int (lp_int_of_uval uval (2 ^ 15) UINT16_MAX) intbuf }
     else if LP_ENCODING_IS_24BIT_INT b then do {
       uval \<leftarrow> lp_rd_le m (p + 1) 3 0;
       lp_return_int (lp_int_of_uval uval (2 ^ 23) (drop_bit 8 UINT32_MAX)) intbuf }
     else if LP_ENCODING_IS_32BIT_INT b then do {
       uval \<leftarrow> lp_rd_le m (p + 1) 4 0;
       lp_return_int (lp_int_of_uval uval (2 ^ 31) UINT32_MAX) intbuf }
     else if LP_ENCODING_IS_64BIT_INT b then do {
       uval \<leftarrow> lp_rd_le m (p + 1) 8 0;
       lp_return_int (lp_int_of_uval uval (2 ^ 63) UINT64_MAX) intbuf }
     else lp_return_int (lp_int_of_uval (12345678900000000 + uint b) UINT64_MAX 0) intbuf }"

definition lpGet :: "mem \<Rightarrow> int \<Rightarrow> mem option \<Rightarrow> lpval option" where
  "lpGet m p intbuf = lpGetWithBuf m p intbuf"

text \<open>
  \<open>lpGetValue\<close>: a string with its length in \<open>*slen\<close> (an \<open>unsigned int\<close>) or an
  integer; \<open>lpGetIntegerValue\<close>: the integer if the element is one.
\<close>

definition lpGetValue :: "mem \<Rightarrow> int \<Rightarrow> lpval option" where
  "lpGetValue m p = do {
     v \<leftarrow> lpGet m p None;
     case v of
       LpString q n \<Rightarrow> Some (LpString q (u32 n))
     | _ \<Rightarrow> Some v }"

definition lpGetIntegerValue :: "mem \<Rightarrow> int \<Rightarrow> int option option" where
  "lpGetIntegerValue m p = do {
     v \<leftarrow> lpGet m p None;
     case v of LpInteger i \<Rightarrow> Some (Some i) | _ \<Rightarrow> Some None }"

end
