(* ===== verification/Listpack.thy ===== *)
theory Listpack
  imports Listpack_Enc
begin

text \<open>
  The operations of \<open>redis-stable/src/listpack.c\<close> on a block of bytes. \<open>None\<close> is an
  access outside the block or a failed \<open>assert\<close>. Where a function returns a pointer, the
  inner option is \<open>NULL\<close>. The usable size of the allocation, \<open>lp_malloc_size\<close>, is the
  length of the block; an \<open>allocator\<close> says what a reallocation gives.
\<close>

section \<open>Allocation and integrity\<close>

definition memmove_int :: "mem \<Rightarrow> int \<Rightarrow> int \<Rightarrow> int \<Rightarrow> mem option" where
  "memmove_int m dst src n = (if n < 0 then None else memmove m dst src (nat n))"

definition ASSERT_INTEGRITY :: "mem \<Rightarrow> int \<Rightarrow> unit option" where
  "ASSERT_INTEGRITY m p = do {
     bytes \<leftarrow> lpGetTotalBytes m;
     guard (p \<ge> LP_HDR_SIZE \<and> p < bytes) }"

definition ASSERT_INTEGRITY_LEN :: "mem \<Rightarrow> int \<Rightarrow> int \<Rightarrow> unit option" where
  "ASSERT_INTEGRITY_LEN m p len = do {
     bytes \<leftarrow> lpGetTotalBytes m;
     guard (p \<ge> LP_HDR_SIZE \<and> p + len < bytes) }"

definition lpSafeToAdd :: "mem option \<Rightarrow> int \<Rightarrow> bool option" where
  "lpSafeToAdd lp add = do {
     len \<leftarrow> (case lp of Some m \<Rightarrow> lpGetTotalBytes m | None \<Rightarrow> Some 0);
     Some (\<not> (add > 2 ^ 30 \<or> len > 2 ^ 30 - add)) }"

definition lpNew :: "allocator \<Rightarrow> int \<Rightarrow> mem option" where
  "lpNew a capacity = do {
     let m = realloc a [] (nat (if capacity > LP_HDR_SIZE + 1 then capacity else LP_HDR_SIZE + 1));
     m \<leftarrow> lpSetTotalBytes m (LP_HDR_SIZE + 1);
     m \<leftarrow> lpSetNumElements m 0;
     store m LP_HDR_SIZE [LP_EOF] }"

definition lpShrinkToFit :: "allocator \<Rightarrow> mem \<Rightarrow> mem option" where
  "lpShrinkToFit a m = do {
     size \<leftarrow> lpGetTotalBytes m;
     Some (if size < int (length m) then realloc a m (nat size) else m) }"

definition lpBytes :: "mem \<Rightarrow> int option" where
  "lpBytes m = lpGetTotalBytes m"

definition lpDup :: "allocator \<Rightarrow> mem \<Rightarrow> mem option" where
  "lpDup a m = do {
     lpbytes \<leftarrow> lpBytes m;
     bs \<leftarrow> load m 0 (nat lpbytes);
     store (realloc a [] (nat lpbytes)) 0 bs }"

section \<open>Validation of one entry\<close>

definition OUT_OF_RANGE :: "int \<Rightarrow> int \<Rightarrow> bool" where
  "OUT_OF_RANGE lpbytes p \<longleftrightarrow> p < LP_HDR_SIZE \<or> p > lpbytes - 1"

definition lpValidateFirst :: "mem \<Rightarrow> int option option" where
  "lpValidateFirst m = do {
     b \<leftarrow> rd m LP_HDR_SIZE;
     Some (if b = LP_EOF then None else Some LP_HDR_SIZE) }"

text \<open>\<open>lpValidateNext\<close> returns whether the entry is valid and the new \<open>*pp\<close>.\<close>

definition lpValidateNext :: "mem \<Rightarrow> int option \<Rightarrow> int \<Rightarrow> (bool \<times> int option) option" where
  "lpValidateNext m pp lpbytes =
     (case pp of
        None \<Rightarrow> Some (False, pp)
      | Some p \<Rightarrow>
          if OUT_OF_RANGE lpbytes p then Some (False, pp)
          else do {
            b \<leftarrow> rd m p;
            if b = LP_EOF then Some (True, None)
            else do {
              let lenbytes = lpCurrentEncodedSizeBytes b;
              if lenbytes = 0 then Some (False, pp)
              else if OUT_OF_RANGE lpbytes (p + lenbytes) then Some (False, pp)
              else do {
                entrylen \<leftarrow> lpCurrentEncodedSizeUnsafe m p;
                let encodedBacklen = lpEncodeBacklenBytes entrylen;
                let entrylen = entrylen + encodedBacklen;
                if OUT_OF_RANGE lpbytes (p + entrylen) then Some (False, pp)
                else do {
                  prevlen \<leftarrow> lpDecodeBacklen m (p + entrylen - 1);
                  if u64 (prevlen + encodedBacklen) \<noteq> entrylen then Some (False, pp)
                  else Some (True, Some (p + entrylen)) } } } })"

definition lpAssertValidEntry :: "mem \<Rightarrow> int \<Rightarrow> int \<Rightarrow> unit option" where
  "lpAssertValidEntry m lpbytes p = do {
     (ok, _) \<leftarrow> lpValidateNext m (Some p) lpbytes;
     guard ok }"

section \<open>Traversal\<close>

definition lpNextWithBytes :: "mem \<Rightarrow> int \<Rightarrow> int \<Rightarrow> int option option" where
  "lpNextWithBytes m p lpbytes = do {
     p \<leftarrow> lpSkip m p;
     b \<leftarrow> rd m p;
     if b = LP_EOF then Some None
     else do { lpAssertValidEntry m lpbytes p; Some (Some p) } }"

definition lpNext :: "mem \<Rightarrow> int \<Rightarrow> int option option" where
  "lpNext m p = do {
     p \<leftarrow> lpSkip m p;
     b \<leftarrow> rd m p;
     if b = LP_EOF then Some None
     else do {
       bytes \<leftarrow> lpBytes m;
       lpAssertValidEntry m bytes p;
       Some (Some p) } }"

definition lpPrev :: "mem \<Rightarrow> int \<Rightarrow> int option option" where
  "lpPrev m p =
     (if p = LP_HDR_SIZE then Some None
      else do {
        prevlen \<leftarrow> lpDecodeBacklen m (p - 1);
        let prevlen = u64 (prevlen + lpEncodeBacklenBytes prevlen);
        let p = (p - 1) - (prevlen - 1);
        bytes \<leftarrow> lpBytes m;
        lpAssertValidEntry m bytes p;
        Some (Some p) })"

definition lpFirst :: "mem \<Rightarrow> int option option" where
  "lpFirst m = do {
     b \<leftarrow> rd m LP_HDR_SIZE;
     if b = LP_EOF then Some None
     else do {
       bytes \<leftarrow> lpBytes m;
       lpAssertValidEntry m bytes LP_HDR_SIZE;
       Some (Some LP_HDR_SIZE) } }"

definition lpLast :: "mem \<Rightarrow> int option option" where
  "lpLast m = do {
     bytes \<leftarrow> lpGetTotalBytes m;
     lpPrev m (bytes - 1) }"

text \<open>\<open>lpLength\<close> also returns the block: it may cache the count in the header.\<close>

partial_function (option) lpLength_loop :: "mem \<Rightarrow> int option \<Rightarrow> int \<Rightarrow> int option" where
  "lpLength_loop m p count =
     (case p of
        None \<Rightarrow> Some count
      | Some q \<Rightarrow> Option.bind (lpNext m q) (\<lambda>p. lpLength_loop m p (u32 (count + 1))))"

declare lpLength_loop.simps [code]

definition lpLength :: "mem \<Rightarrow> (mem \<times> int) option" where
  "lpLength m = do {
     numele \<leftarrow> lpGetNumElements m;
     if numele \<noteq> LP_HDR_NUMELE_UNKNOWN then Some (m, numele)
     else do {
       p \<leftarrow> lpFirst m;
       count \<leftarrow> lpLength_loop m p 0;
       m \<leftarrow> (if count < LP_HDR_NUMELE_UNKNOWN then lpSetNumElements m count else Some m);
       Some (m, count) } }"

text \<open>The two scanning loops of \<open>lpSeek\<close>; the counter is the number of steps left.\<close>

fun lpSeek_forward :: "mem \<Rightarrow> nat \<Rightarrow> int option \<Rightarrow> int option option" where
  "lpSeek_forward m 0 ele = Some ele"
| "lpSeek_forward m (Suc n) ele =
     (case ele of
        None \<Rightarrow> Some None
      | Some p \<Rightarrow> do { ele \<leftarrow> lpNext m p; lpSeek_forward m n ele })"

fun lpSeek_backward :: "mem \<Rightarrow> nat \<Rightarrow> int option \<Rightarrow> int option option" where
  "lpSeek_backward m 0 ele = Some ele"
| "lpSeek_backward m (Suc n) ele =
     (case ele of
        None \<Rightarrow> Some None
      | Some p \<Rightarrow> do { ele \<leftarrow> lpPrev m p; lpSeek_backward m n ele })"

definition lpSeek_scan :: "mem \<Rightarrow> bool \<Rightarrow> int \<Rightarrow> int option option" where
  "lpSeek_scan m forward index =
     (if forward then do { ele \<leftarrow> lpFirst m; lpSeek_forward m (nat index) ele }
      else do { ele \<leftarrow> lpLast m; lpSeek_backward m (nat (- 1 - index)) ele })"

definition lpSeek :: "mem \<Rightarrow> int \<Rightarrow> int option option" where
  "lpSeek m index = do {
     numele \<leftarrow> lpGetNumElements m;
     if numele \<noteq> LP_HDR_NUMELE_UNKNOWN then
       let index = (if index < 0 then numele + index else index) in
       if index < 0 then Some None
       else if index \<ge> numele then Some None
       else if index > numele div 2 then lpSeek_scan m False (index - numele)
       else lpSeek_scan m True index
     else lpSeek_scan m (\<not> index < 0) index }"

section \<open>Searching\<close>

text \<open>
  A comparator gets the pointer, its user data and the value of the element, and returns the new
  user data and whether it matched (the C function returns 0).
\<close>

type_synonym 'u lpCmp = "mem \<Rightarrow> int \<Rightarrow> 'u \<Rightarrow> lpval \<Rightarrow> ('u \<times> bool) option"

text \<open>
  One round of the loop of \<open>lpFindCbInternal\<close> up to the new \<open>p\<close>: \<open>Inl\<close> is the
  match, \<open>Inr\<close> the new pointer, skip count and entry size.
\<close>

definition lpFind_step ::
  "mem \<Rightarrow> int \<Rightarrow> 'u lpCmp \<Rightarrow> nat \<Rightarrow> int \<Rightarrow> nat \<Rightarrow> int \<Rightarrow> 'u \<Rightarrow> ((int + int \<times> nat \<times> int) \<times> 'u) option" where
  "lpFind_step m lp_bytes cmp skip p skipcnt entry_size user =
     (if skipcnt = 0 then do {
        (val, entry_size) \<leftarrow> lpGetWithSize m p None entry_size;
        (case val of
           LpString _ _ \<Rightarrow> guard (p \<ge> LP_HDR_SIZE \<and> p + entry_size < lp_bytes)
         | _ \<Rightarrow> Some ());
        (user, eq) \<leftarrow> cmp m p user val;
        Some (if eq then Inl p else Inr (p + entry_size, skip, entry_size), user) }
      else do {
        p \<leftarrow> lpSkip m p;
        Some (Inr (p, skipcnt - 1, entry_size), user) })"

definition lpFind_check :: "mem \<Rightarrow> int \<Rightarrow> int \<Rightarrow> unit option" where
  "lpFind_check m lp_bytes p =
     (if p + 8 \<ge> lp_bytes then lpAssertValidEntry m lp_bytes p
      else guard (p \<ge> LP_HDR_SIZE \<and> p < lp_bytes))"

partial_function (option) lpFind_loop ::
  "mem \<Rightarrow> int \<Rightarrow> 'u lpCmp \<Rightarrow> nat \<Rightarrow> int \<Rightarrow> nat \<Rightarrow> int \<Rightarrow> 'u \<Rightarrow> (int option \<times> 'u) option" where
  "lpFind_loop m lp_bytes cmp skip p skipcnt entry_size user =
     Option.bind (lpFind_step m lp_bytes cmp skip p skipcnt entry_size user) (\<lambda>(r, user).
       case r of
         Inl q \<Rightarrow> Some (Some q, user)
       | Inr (p, skipcnt, entry_size) \<Rightarrow>
           Option.bind (lpFind_check m lp_bytes p) (\<lambda>_.
             Option.bind (rd m p) (\<lambda>b.
               if b = LP_EOF then Some (None, user)
               else lpFind_loop m lp_bytes cmp skip p skipcnt entry_size user)))"

declare lpFind_loop.simps [code]

text \<open>The skip count, a small constant of the callers, is held in an int; it is a number below \<open>2 ^ 31\<close>.\<close>

definition lpFindCbInternal ::
  "mem \<Rightarrow> int option \<Rightarrow> 'u \<Rightarrow> 'u lpCmp \<Rightarrow> nat \<Rightarrow> (int option \<times> 'u) option" where
  "lpFindCbInternal m p user cmp skip = do {
     lp_bytes \<leftarrow> lpBytes m;
     p \<leftarrow> (case p of None \<Rightarrow> lpFirst m | Some _ \<Rightarrow> Some p);
     case p of
       None \<Rightarrow> Some (None, user)
     | Some p \<Rightarrow> lpFind_loop m lp_bytes cmp skip p 0 123456789 user }"

definition lpFindCb ::
  "mem \<Rightarrow> int option \<Rightarrow> 'u \<Rightarrow> 'u lpCmp \<Rightarrow> nat \<Rightarrow> (int option \<times> 'u) option" where
  "lpFindCb m p user cmp skip = lpFindCbInternal m p user cmp skip"

record lpFindArg =
  fa_s :: "byte list"
  fa_vencoding :: int
  fa_vll :: int

definition lpFindCmp :: "lpFindArg lpCmp" where
  "lpFindCmp m p arg val =
     (case val of
        LpString q slen \<Rightarrow>
          if slen = int (length (fa_s arg)) then do {
            bs \<leftarrow> load m q (nat slen);
            Some (arg, bs = fa_s arg) }
          else Some (arg, False)
      | LpInteger ll \<Rightarrow>
          let arg =
            (if fa_vencoding arg = 0 then
               (if length (fa_s arg) \<ge> 32 \<or> length (fa_s arg) = 0
                then arg\<lparr>fa_vencoding := 255\<rparr>
                else case lpStringToInt64 (fa_s arg) of
                  None \<Rightarrow> arg\<lparr>fa_vencoding := 255\<rparr>
                | Some v \<Rightarrow> arg\<lparr>fa_vll := v, fa_vencoding := 1\<rparr>)
             else arg)
          in Some (arg, fa_vencoding arg \<noteq> 255 \<and> ll = fa_vll arg)
      | LpIntbuf _ _ \<Rightarrow> Some (arg, False))"

definition lpFind :: "mem \<Rightarrow> int option \<Rightarrow> byte list \<Rightarrow> nat \<Rightarrow> int option option" where
  "lpFind m p s skip = do {
     (r, _) \<leftarrow> lpFindCbInternal m p \<lparr>fa_s = s, fa_vencoding = 0, fa_vll = 0\<rparr> lpFindCmp skip;
     Some r }"

text \<open>
  \<open>lpCompare\<close>; \<open>cache\<close> is the pair of \<open>*cached_longval\<close> and \<open>*cached_valid\<close>,
  or \<open>None\<close> for a \<open>NULL\<close> pointer.
\<close>

definition lpCompare ::
  "mem \<Rightarrow> int \<Rightarrow> byte list \<Rightarrow> (int \<times> int) option \<Rightarrow> (bool \<times> (int \<times> int) option) option" where
  "lpCompare m p s cache = do {
     b \<leftarrow> rd m p;
     if b = LP_EOF then Some (False, cache)
     else do {
       v \<leftarrow> lpGet m p None;
       case v of
         LpString q sz \<Rightarrow>
           if int (length s) = sz then do { bs \<leftarrow> load m q (length s); Some (bs = s, cache) }
           else Some (False, cache)
       | LpInteger sz \<Rightarrow>
           (case cache of
              Some (longval, valid) \<Rightarrow>
                let (longval, valid) =
                  (if valid = 0 then
                     (case lpStringToInt64 s of Some x \<Rightarrow> (x, 1) | None \<Rightarrow> (longval, - 1))
                   else (longval, valid))
                in Some (valid = 1 \<and> sz = longval, Some (longval, valid))
            | None \<Rightarrow>
                Some (case lpStringToInt64 s of Some x \<Rightarrow> sz = x | None \<Rightarrow> False, None))
       | LpIntbuf _ _ \<Rightarrow> Some (False, cache) } }"

end
