(* ===== verification/Listpack_Edit.thy ===== *)
theory Listpack_Edit
  imports Listpack
begin

text \<open>
  The operations of \<open>redis-stable/src/listpack.c\<close> that change a listpack: insertion,
  replacement and deletion of elements, in batches and ranges, the merge of two listpacks, and the
  validation of a whole block.
\<close>

datatype lp_where = LP_BEFORE | LP_AFTER | LP_REPLACE

text \<open>A \<open>listpackEntry\<close>: the string \<open>sval\<close>, or the integer \<open>lval\<close> if it is \<open>NULL\<close>.\<close>

datatype listpackEntry = LpeStr "byte list" | LpeInt int

section \<open>Insertion, replacement and deletion of one element\<close>

text \<open>
  The element to store: the bytes written at \<open>dst\<close> and \<open>enclen\<close>, from \<open>elestr\<close>
  or \<open>eleint\<close>; both \<open>NULL\<close> mean deletion.
\<close>

definition lp_new_element :: "byte list option \<Rightarrow> byte list option \<Rightarrow> byte list \<times> int" where
  "lp_new_element elestr eleint =
     (case elestr of
        Some s \<Rightarrow>
          (case lpEncodeGetType s of
             Inl intenc \<Rightarrow> (intenc, int (length intenc))
           | Inr enclen \<Rightarrow> (lpEncodeString s, enclen))
      | None \<Rightarrow>
          (case eleint of
             Some intenc \<Rightarrow> (intenc, int (length intenc))
           | None \<Rightarrow> ([], 0)))"

text \<open>
  The middle part of \<open>lpInsert\<close>: reallocation before when the listpack grows past the
  allocation, the move of the tail, reallocation after when it shrinks.
\<close>

definition lpInsert_move ::
  "allocator \<Rightarrow> mem \<Rightarrow> lp_where \<Rightarrow> int \<Rightarrow> int \<Rightarrow> int \<Rightarrow> int \<Rightarrow> int \<Rightarrow> int \<Rightarrow> mem option" where
  "lpInsert_move a m w poff enclen backlen_size replaced_len old_listpack_bytes new_listpack_bytes = do {
     let m = (if new_listpack_bytes > old_listpack_bytes \<and> new_listpack_bytes > int (length m)
              then realloc a m (nat new_listpack_bytes) else m);
     m \<leftarrow> (if w = LP_BEFORE
           then memmove_int m (poff + enclen + backlen_size) poff (old_listpack_bytes - poff)
           else memmove_int m (poff + enclen + backlen_size) (poff + replaced_len)
                  (old_listpack_bytes - poff - replaced_len));
     Some (if new_listpack_bytes < old_listpack_bytes
           then realloc a m (nat new_listpack_bytes) else m) }"

text \<open>The header update at the end of \<open>lpInsert\<close>.\<close>

definition lpInsert_header :: "mem \<Rightarrow> lp_where \<Rightarrow> bool \<Rightarrow> int \<Rightarrow> mem option" where
  "lpInsert_header m w del new_listpack_bytes = do {
     m \<leftarrow> (if w \<noteq> LP_REPLACE \<or> del then do {
             num_elements \<leftarrow> lpGetNumElements m;
             if num_elements \<noteq> LP_HDR_NUMELE_UNKNOWN then
               lpSetNumElements m (if \<not> del then u32 (num_elements + 1) else u32 (num_elements - 1))
             else Some m }
           else Some m);
     lpSetTotalBytes m new_listpack_bytes }"

text \<open>The second half of \<open>lpInsert\<close>: the new size, the move, the new element and the header.\<close>

definition lpInsert_edit ::
  "allocator \<Rightarrow> mem \<Rightarrow> lp_where \<Rightarrow> bool \<Rightarrow> int \<Rightarrow> byte list \<Rightarrow> int \<Rightarrow> byte list \<Rightarrow> int \<Rightarrow> int \<Rightarrow>
   (mem \<times> int option) option option" where
  "lpInsert_edit a m w del poff ele enclen backlen old_listpack_bytes replaced_len = do {
     let backlen_size = int (length backlen);
     let new_listpack_bytes = u64 (old_listpack_bytes + enclen + backlen_size - replaced_len);
     if new_listpack_bytes > UINT32_MAX then Some None
     else do {
       m \<leftarrow> lpInsert_move a m w poff enclen backlen_size replaced_len
             old_listpack_bytes new_listpack_bytes;
       newp \<leftarrow> (if del then do { b \<leftarrow> rd m poff; Some (if b = LP_EOF then None else Some poff) }
                else Some (Some poff));
       m \<leftarrow> (if del then Some m
             else do {
               m \<leftarrow> store m poff ele;
               store m (poff + enclen) backlen });
       m \<leftarrow> lpInsert_header m w del new_listpack_bytes;
       Some (Some (m, newp)) } }"

text \<open>
  \<open>lpInsert\<close>: \<open>Some None\<close> is the return value \<open>NULL\<close>, otherwise the listpack and
  \<open>*newp\<close>.
\<close>

definition lpInsert ::
  "allocator \<Rightarrow> mem \<Rightarrow> byte list option \<Rightarrow> byte list option \<Rightarrow> int \<Rightarrow> lp_where \<Rightarrow>
   (mem \<times> int option) option option" where
  "lpInsert a m elestr eleint p w = do {
     let del = (elestr = None \<and> eleint = None);
     let w = (if del then LP_REPLACE else w);
     (p, w) \<leftarrow> (if w = LP_AFTER then do {
                  p \<leftarrow> lpSkip m p;
                  ASSERT_INTEGRITY m p;
                  Some (p, LP_BEFORE) }
                else Some (p, w));
     let (ele, enclen) = lp_new_element elestr eleint;
     let backlen = (if del then [] else lpEncodeBacklen enclen);
     old_listpack_bytes \<leftarrow> lpGetTotalBytes m;
     replaced_len \<leftarrow> (if w = LP_REPLACE then do {
                       n \<leftarrow> lpCurrentEncodedSizeUnsafe m p;
                       let n = u32 (n + lpEncodeBacklenBytes n);
                       ASSERT_INTEGRITY_LEN m p n;
                       Some n }
                     else Some 0);
     lpInsert_edit a m w del p ele enclen backlen old_listpack_bytes replaced_len }"

definition lpInsertString ::
  "allocator \<Rightarrow> mem \<Rightarrow> byte list \<Rightarrow> int \<Rightarrow> lp_where \<Rightarrow> (mem \<times> int option) option option" where
  "lpInsertString a m s p w = lpInsert a m (Some s) None p w"

definition lpInsertInteger ::
  "allocator \<Rightarrow> mem \<Rightarrow> int \<Rightarrow> int \<Rightarrow> lp_where \<Rightarrow> (mem \<times> int option) option option" where
  "lpInsertInteger a m lval p w = lpInsert a m None (Some (lpEncodeIntegerGetType lval)) p w"

text \<open>The callers that pass \<open>NULL\<close> for \<open>newp\<close> keep the listpack only.\<close>

definition drop_newp :: "(mem \<times> int option) option option \<Rightarrow> mem option option" where
  "drop_newp r = map_option (map_option fst) r"

definition lpAppend :: "allocator \<Rightarrow> mem \<Rightarrow> byte list \<Rightarrow> mem option option" where
  "lpAppend a m ele = do {
     listpack_bytes \<leftarrow> lpGetTotalBytes m;
     drop_newp (lpInsert a m (Some ele) None (listpack_bytes - 1) LP_BEFORE) }"

definition lpAppendInteger :: "allocator \<Rightarrow> mem \<Rightarrow> int \<Rightarrow> mem option option" where
  "lpAppendInteger a m lval = do {
     listpack_bytes \<leftarrow> lpGetTotalBytes m;
     drop_newp (lpInsertInteger a m lval (listpack_bytes - 1) LP_BEFORE) }"

definition lpPrepend :: "allocator \<Rightarrow> mem \<Rightarrow> byte list \<Rightarrow> mem option option" where
  "lpPrepend a m s = do {
     p \<leftarrow> lpFirst m;
     case p of
       None \<Rightarrow> lpAppend a m s
     | Some p \<Rightarrow> drop_newp (lpInsert a m (Some s) None p LP_BEFORE) }"

definition lpPrependInteger :: "allocator \<Rightarrow> mem \<Rightarrow> int \<Rightarrow> mem option option" where
  "lpPrependInteger a m lval = do {
     p \<leftarrow> lpFirst m;
     case p of
       None \<Rightarrow> lpAppendInteger a m lval
     | Some p \<Rightarrow> drop_newp (lpInsertInteger a m lval p LP_BEFORE) }"

definition lpReplace ::
  "allocator \<Rightarrow> mem \<Rightarrow> int \<Rightarrow> byte list \<Rightarrow> (mem \<times> int option) option option" where
  "lpReplace a m p s = lpInsert a m (Some s) None p LP_REPLACE"

definition lpReplaceInteger ::
  "allocator \<Rightarrow> mem \<Rightarrow> int \<Rightarrow> int \<Rightarrow> (mem \<times> int option) option option" where
  "lpReplaceInteger a m p lval = lpInsertInteger a m lval p LP_REPLACE"

definition lpDelete :: "allocator \<Rightarrow> mem \<Rightarrow> int \<Rightarrow> (mem \<times> int option) option option" where
  "lpDelete a m p = lpInsert a m None None p LP_REPLACE"

section \<open>Batches\<close>

definition lp_entry_element :: "listpackEntry \<Rightarrow> byte list \<times> int" where
  "lp_entry_element e =
     (case e of
        LpeStr s \<Rightarrow> lp_new_element (Some s) None
      | LpeInt v \<Rightarrow> lp_new_element None (Some (lpEncodeIntegerGetType v)))"

text \<open>The first loop sums the lengths, the second writes the elements and their back lengths.\<close>

fun lpBatch_addedlen :: "listpackEntry list \<Rightarrow> int" where
  "lpBatch_addedlen [] = 0"
| "lpBatch_addedlen (e # es) =
     snd (lp_entry_element e) + int (length (lpEncodeBacklen (snd (lp_entry_element e)))) +
     lpBatch_addedlen es"

fun lpBatch_store :: "mem \<Rightarrow> int \<Rightarrow> int option \<Rightarrow> listpackEntry list \<Rightarrow> (mem \<times> int option) option" where
  "lpBatch_store m dst newp [] = Some (m, newp)"
| "lpBatch_store m dst newp (e # es) =
     (let (ele, enclen) = lp_entry_element e; backlen = lpEncodeBacklen enclen in do {
        m \<leftarrow> store m dst ele;
        m \<leftarrow> store m (dst + enclen) backlen;
        lpBatch_store m (dst + enclen + int (length backlen)) (Some dst) es })"

definition lpBatchInsert ::
  "allocator \<Rightarrow> mem \<Rightarrow> int \<Rightarrow> lp_where \<Rightarrow> listpackEntry list \<Rightarrow> (mem \<times> int option) option option" where
  "lpBatchInsert a m p w entries = do {
     guard (w = LP_BEFORE \<or> w = LP_AFTER);
     guard (entries \<noteq> []);
     p \<leftarrow> (if w = LP_AFTER then do { p \<leftarrow> lpSkip m p; ASSERT_INTEGRITY m p; Some p } else Some p);
     let addedlen = u64 (lpBatch_addedlen entries);
     old_listpack_bytes \<leftarrow> lpGetTotalBytes m;
     let new_listpack_bytes = u64 (old_listpack_bytes + addedlen);
     if new_listpack_bytes > UINT32_MAX then Some None
     else do {
       let poff = p;
       let m = (if new_listpack_bytes > old_listpack_bytes \<and> new_listpack_bytes > int (length m)
                then realloc a m (nat new_listpack_bytes) else m);
       m \<leftarrow> memmove_int m (poff + addedlen) poff (old_listpack_bytes - poff);
       (m, newp) \<leftarrow> lpBatch_store m poff None entries;
       num_elements \<leftarrow> lpGetNumElements m;
       let len = int (length entries);
       m \<leftarrow> (if num_elements \<noteq> LP_HDR_NUMELE_UNKNOWN then
               if len > LP_HDR_NUMELE_UNKNOWN - num_elements
               then lpSetNumElements m LP_HDR_NUMELE_UNKNOWN
               else lpSetNumElements m (num_elements + len)
             else Some m);
       m \<leftarrow> lpSetTotalBytes m new_listpack_bytes;
       Some (Some (m, newp)) } }"

definition lpBatchAppend :: "allocator \<Rightarrow> mem \<Rightarrow> listpackEntry list \<Rightarrow> mem option option" where
  "lpBatchAppend a m entries = do {
     listpack_bytes \<leftarrow> lpGetTotalBytes m;
     drop_newp (lpBatchInsert a m (listpack_bytes - 1) LP_BEFORE entries) }"

section \<open>Ranges\<close>

text \<open>The loop returns the entry after the last one to delete and the number of entries passed.\<close>

fun lpDeleteRange_tail :: "mem \<Rightarrow> int \<Rightarrow> nat \<Rightarrow> int \<Rightarrow> int \<Rightarrow> (int \<times> int) option" where
  "lpDeleteRange_tail m bytes 0 tail deleted = Some (tail, deleted)"
| "lpDeleteRange_tail m bytes (Suc num) tail deleted = do {
     tail \<leftarrow> lpSkip m tail;
     b \<leftarrow> rd m tail;
     if b = LP_EOF then Some (tail, deleted + 1)
     else do {
       lpAssertValidEntry m bytes tail;
       lpDeleteRange_tail m bytes num tail (deleted + 1) } }"

text \<open>The end of both deletions of several elements: the header and the size of the block.\<close>

definition lpDelete_finish :: "allocator \<Rightarrow> mem \<Rightarrow> int \<Rightarrow> int \<Rightarrow> mem option" where
  "lpDelete_finish a m bytes deleted = do {
     m \<leftarrow> lpSetTotalBytes m bytes;
     numele \<leftarrow> lpGetNumElements m;
     m \<leftarrow> (if numele \<noteq> LP_HDR_NUMELE_UNKNOWN then lpSetNumElements m (u64 (numele - deleted))
           else Some m);
     lpShrinkToFit a m }"

definition lpDeleteRangeWithEntry ::
  "allocator \<Rightarrow> mem \<Rightarrow> int \<Rightarrow> nat \<Rightarrow> (mem \<times> int option) option" where
  "lpDeleteRangeWithEntry a m p num = do {
     bytes \<leftarrow> lpBytes m;
     let eofptr = bytes - 1;
     let first = p;
     if num = 0 then Some (m, Some p)
     else do {
       (tail, deleted) \<leftarrow> lpDeleteRange_tail m bytes num first 0;
       let poff = first;
       m \<leftarrow> memmove_int m first tail (eofptr - tail + 1);
       m \<leftarrow> lpDelete_finish a m (bytes - (tail - first)) deleted;
       b \<leftarrow> rd m poff;
       Some (m, if b = LP_EOF then None else Some poff) } }"

definition lpDeleteRange :: "allocator \<Rightarrow> mem \<Rightarrow> int \<Rightarrow> nat \<Rightarrow> mem option" where
  "lpDeleteRange a m index num = do {
     numele \<leftarrow> lpGetNumElements m;
     if num = 0 then Some m
     else do {
       p \<leftarrow> lpSeek m index;
       case p of
         None \<Rightarrow> Some m
       | Some p \<Rightarrow>
           let index = (if numele \<noteq> LP_HDR_NUMELE_UNKNOWN \<and> index < 0 then numele + index else index) in
           if numele \<noteq> LP_HDR_NUMELE_UNKNOWN \<and> u64 (numele - u64 index) \<le> int num then do {
             m \<leftarrow> store m p [LP_EOF];
             m \<leftarrow> lpSetTotalBytes m (p + 1);
             m \<leftarrow> lpSetNumElements m index;
             lpShrinkToFit a m }
           else do {
             (m, _) \<leftarrow> lpDeleteRangeWithEntry a m p num;
             Some m } } }"

text \<open>The loop of \<open>lpBatchDelete\<close> over the element pointers; it returns the block and \<open>dst\<close>.\<close>

fun lpBatchDelete_loop :: "mem \<Rightarrow> int \<Rightarrow> int \<Rightarrow> int list \<Rightarrow> (mem \<times> int) option" where
  "lpBatchDelete_loop m lp_end dst [] = Some (m, dst)"
| "lpBatchDelete_loop m lp_end dst (skip # ps) = do {
     b \<leftarrow> rd m skip;
     guard (b \<noteq> LP_EOF);
     keep_start \<leftarrow> lpSkip m skip;
     let keep_end = (case ps of q # _ \<Rightarrow> q | [] \<Rightarrow> lp_end);
     if ps \<noteq> [] \<and> keep_start = keep_end then lpBatchDelete_loop m lp_end dst ps
     else do {
       guard (keep_end > keep_start);
       let bytes_to_keep = keep_end - keep_start;
       m \<leftarrow> memmove_int m dst keep_start bytes_to_keep;
       lpBatchDelete_loop m lp_end (dst + bytes_to_keep) ps } }"

definition lpBatchDelete :: "allocator \<Rightarrow> mem \<Rightarrow> int list \<Rightarrow> mem option" where
  "lpBatchDelete a m ps =
     (case ps of
        [] \<Rightarrow> Some m
      | dst # _ \<Rightarrow> do {
          total_bytes \<leftarrow> lpGetTotalBytes m;
          let lp_end = total_bytes;
          b \<leftarrow> rd m (lp_end - 1);
          guard (b = LP_EOF);
          (m, dst) \<leftarrow> lpBatchDelete_loop m lp_end dst ps;
          let total_bytes = total_bytes - (lp_end - dst);
          b \<leftarrow> rd m (total_bytes - 1);
          guard (b = LP_EOF);
          lpDelete_finish a m total_bytes (int (length ps)) })"

section \<open>Merging\<close>

text \<open>
  \<open>lpMerge\<close> on two distinct listpacks: the merged block and whether it is the first one
  extended (\<open>append\<close>); the other block is freed.
\<close>

definition lpMerge :: "allocator \<Rightarrow> mem \<Rightarrow> mem \<Rightarrow> (mem \<times> bool) option" where
  "lpMerge a first second = do {
     first_bytes \<leftarrow> lpBytes first;
     (first, first_len) \<leftarrow> lpLength first;
     second_bytes \<leftarrow> lpBytes second;
     (second, second_len) \<leftarrow> lpLength second;
     let append = (first_bytes \<ge> second_bytes);
     let (target, target_bytes, source, source_bytes) =
       (if append then (first, first_bytes, second, second_bytes)
        else (second, second_bytes, first, first_bytes));
     let lpbytes = u64 (first_bytes + second_bytes - LP_HDR_SIZE - 1);
     guard (lpbytes < UINT32_MAX);
     let lplength = u64 (first_len + second_len);
     let lplength = (if lplength < UINT16_MAX then lplength else UINT16_MAX);
     let target = realloc a target (nat lpbytes);
     target \<leftarrow> (if append then do {
                  bs \<leftarrow> load source LP_HDR_SIZE (nat (source_bytes - LP_HDR_SIZE));
                  store target (target_bytes - 1) bs }
                else do {
                  target \<leftarrow> memmove_int target (source_bytes - 1) LP_HDR_SIZE
                              (target_bytes - LP_HDR_SIZE);
                  bs \<leftarrow> load source 0 (nat (source_bytes - 1));
                  store target 0 bs });
     target \<leftarrow> lpSetNumElements target lplength;
     target \<leftarrow> lpSetTotalBytes target lpbytes;
     Some (target, append) }"

section \<open>Validation of a block\<close>

text \<open>
  \<open>entry_cb\<close> is the caller's check of each entry, with its user data as a state. The loop
  returns \<open>None\<close> inside for \<open>return 0\<close>, otherwise \<open>p\<close> and the count.
\<close>

type_synonym 'u listpackValidateEntryCB = "int \<Rightarrow> int \<Rightarrow> 'u \<Rightarrow> bool \<times> 'u"

partial_function (option) lpValidate_loop ::
  "mem \<Rightarrow> int \<Rightarrow> int \<Rightarrow> 'u listpackValidateEntryCB option \<Rightarrow> int option \<Rightarrow> int \<Rightarrow> 'u \<Rightarrow>
   (int option \<times> int) option option" where
  "lpValidate_loop m bytes numele entry_cb pp count ud =
     (case pp of
        None \<Rightarrow> Some (Some (None, count))
      | Some p \<Rightarrow>
          Option.bind (rd m p) (\<lambda>b.
            if b = LP_EOF then Some (Some (Some p, count))
            else Option.bind (lpValidateNext m (Some p) bytes) (\<lambda>(ok, q).
              if \<not> ok then Some None
              else
                (let (cb_ok, ud) =
                   (case entry_cb of Some cb \<Rightarrow> cb p numele ud | None \<Rightarrow> (True, ud))
                 in if \<not> cb_ok then Some None
                    else lpValidate_loop m bytes numele entry_cb q (u32 (count + 1)) ud))))"

declare lpValidate_loop.simps [code]

definition lpValidateIntegrity ::
  "mem \<Rightarrow> int \<Rightarrow> bool \<Rightarrow> 'u listpackValidateEntryCB option \<Rightarrow> 'u \<Rightarrow> bool option" where
  "lpValidateIntegrity m sz deep entry_cb cb_userdata =
     (if sz < LP_HDR_SIZE + 1 then Some False
      else do {
        bytes \<leftarrow> lpGetTotalBytes m;
        if bytes \<noteq> sz then Some False
        else do {
          b \<leftarrow> rd m (sz - 1);
          if b \<noteq> LP_EOF then Some False
          else if \<not> deep then Some True
          else do {
            numele \<leftarrow> lpGetNumElements m;
            r \<leftarrow> lpValidate_loop m bytes numele entry_cb (Some LP_HDR_SIZE) 0 cb_userdata;
            case r of
              None \<Rightarrow> Some False
            | Some (p, count) \<Rightarrow>
                if p \<noteq> Some (sz - 1) then Some False
                else if numele \<noteq> LP_HDR_NUMELE_UNKNOWN \<and> numele \<noteq> count then Some False
                else Some True } } })"

end
