(* ===== verification/Bits_Base.thy ===== *)
theory Bits_Base
  imports Redis_Base
begin

unbundle bit_operations_syntax

text \<open>
  Shared facts on shifts, masks and bytes at an offset. Shifts and masks of integers become
  division, remainder and addition, the form in which the decoders are compared with the
  little-endian reference.
\<close>

named_theorems mask_simps \<open>shifts and masks as arithmetic\<close>

section \<open>Shifts and masks of integers\<close>

lemma or_push_bit:
  fixes a b :: int
  assumes "0 \<le> a" and "a < 2 ^ n"
  shows "a OR push_bit n b = a + 2 ^ n * b" and "push_bit n b OR a = a + 2 ^ n * b"
proof -
  have "a AND push_bit n b = 0"
  proof (rule bit_eqI)
    fix k
    show "bit (a AND push_bit n b) k \<longleftrightarrow> bit 0 k"
    proof (cases "k < n")
      case False
      then have "\<not> bit a k"
        using assms bit_take_bit_iff [of n a k] by (simp add: take_bit_int_eq_self)
      then show ?thesis by (simp add: bit_and_iff)
    qed (simp add: bit_and_iff bit_push_bit_iff)
  qed
  then show "a OR push_bit n b = a + 2 ^ n * b"
    by (simp flip: disjunctive_add_eq_or add: push_bit_eq_mult)
  then show "push_bit n b OR a = a + 2 ^ n * b" by (simp add: or.commute)
qed

lemma and_numerals [mask_simps]:
  fixes v :: int
  shows "v AND 255 = v mod 256" and "v AND 127 = v mod 128" and "v AND 63 = v mod 64"
    and "v AND 31 = v mod 32" and "v AND 15 = v mod 16" and "v AND 7 = v mod 8"
  using take_bit_eq_mask [of 8 v] take_bit_eq_mask [of 7 v] take_bit_eq_mask [of 6 v]
    take_bit_eq_mask [of 5 v] take_bit_eq_mask [of 4 v] take_bit_eq_mask [of 3 v]
  by (simp_all add: take_bit_eq_mod mask_eq_exp_minus_1)

lemma drop_bit_div [mask_simps]: "drop_bit n (v :: int) = v div 2 ^ n"
  by (rule drop_bit_eq_div)

text \<open>A mask of the high bits keeps the quotient.\<close>

lemma and_high_mask:
  "x AND push_bit n (mask k) = push_bit n (take_bit k (drop_bit n (x :: int)))"
  by (rule bit_eqI) (auto simp: bit_simps bit_and_iff)

lemma and_high_eq: "x AND 2 ^ n * (2 ^ k - 1) = 2 ^ n * (x div 2 ^ n mod 2 ^ k)" for x :: int
  using and_high_mask [of x n k]
  by (simp only: push_bit_eq_mult take_bit_eq_mod drop_bit_eq_div mask_eq_exp_minus_1 mult.commute)

lemma and_high_numerals:
  fixes x :: int
  shows "x AND 128 = 128 * (x div 128 mod 2)"
    and "x AND 192 = 64 * (x div 64 mod 4)"
    and "x AND 224 = 32 * (x div 32 mod 8)"
    and "x AND 240 = 16 * (x div 16 mod 16)"
proof -
  show "x AND 128 = 128 * (x div 128 mod 2)" using and_high_eq [of x 7 1] by simp
  show "x AND 192 = 64 * (x div 64 mod 4)" using and_high_eq [of x 6 2] by simp
  show "x AND 224 = 32 * (x div 32 mod 8)" using and_high_eq [of x 5 3] by simp
  show "x AND 240 = 16 * (x div 16 mod 16)" using and_high_eq [of x 4 4] by simp
qed

lemma or_128: "0 \<le> x \<Longrightarrow> x < 128 \<Longrightarrow> x OR 128 = x + (128 :: int)"
  using or_push_bit(1) [of x 7 1] by simp

lemma or_192: "0 \<le> x \<Longrightarrow> x < 64 \<Longrightarrow> x OR 192 = x + (192 :: int)"
  using or_push_bit(1) [of x 6 3] by simp

lemma or_224: "0 \<le> x \<Longrightarrow> x < 32 \<Longrightarrow> x OR 224 = x + (224 :: int)"
  using or_push_bit(1) [of x 5 7] by simp

section \<open>Bytes\<close>

lemma uint_byte_less: "uint (b :: byte) < 256"
  using uint_lt2p [of b] by simp

lemma uint_word8: "0 \<le> v \<Longrightarrow> v < 256 \<Longrightarrow> uint (word_of_int v :: byte) = v"
  by (simp add: uint_word_of_int)

lemma uint_word8_mod: "uint (word_of_int v :: byte) = v mod 256"
  by (simp add: uint_word_of_int)

lemma uint_and_byte [mask_simps]:
  "uint ((b :: byte) AND 127) = uint b mod 128" "uint (b AND 63) = uint b mod 64"
  "uint (b AND 31) = uint b mod 32" "uint (b AND 15) = uint b mod 16"
  by (simp_all add: uint_and and_numerals)

lemma zdiv_eq_iff:
  fixes x c q :: int
  assumes "0 < c"
  shows "x div c = q \<longleftrightarrow> c * q \<le> x \<and> x < c * q + c"
proof
  assume q: "x div c = q"
  have "x = c * q + x mod c" using mult_div_mod_eq [of c x] by (simp only: q)
  moreover have "0 \<le> x mod c" "x mod c < c" using assms by simp_all
  ultimately show "c * q \<le> x \<and> x < c * q + c" by linarith
next
  assume "c * q \<le> x \<and> x < c * q + c"
  then show "x div c = q" using int_div_pos_eq [of x c q "x - c * q"] by auto
qed

lemma div_mod_byte:
  assumes "0 \<le> x" and "x < (256 :: int)"
  shows "x div 128 mod 2 = x div 128" "x div 64 mod 4 = x div 64"
    "x div 32 mod 8 = x div 32" "x div 16 mod 16 = x div 16"
  using assms by (intro mod_pos_pos_trivial; simp add: div_less_iff_less_mult)+

lemma and_high_byte:
  shows "(b :: byte) AND 128 = 0 \<longleftrightarrow> uint b < 128"
    and "b AND 192 = 128 \<longleftrightarrow> 128 \<le> uint b \<and> uint b < 192"
    and "b AND 224 = 192 \<longleftrightarrow> 192 \<le> uint b \<and> uint b < 224"
    and "b AND 240 = 224 \<longleftrightarrow> 224 \<le> uint b \<and> uint b < 240"
    and "b AND 255 = b"
proof -
  note high = div_mod_byte [OF uint_ge_0 uint_byte_less [of b]] and_high_numerals
    word_uint_eq_iff uint_and
  show "b AND 128 = 0 \<longleftrightarrow> uint b < 128" by (simp add: high zdiv_eq_iff)
  show "b AND 192 = 128 \<longleftrightarrow> 128 \<le> uint b \<and> uint b < 192" by (simp add: high zdiv_eq_iff)
  show "b AND 224 = 192 \<longleftrightarrow> 192 \<le> uint b \<and> uint b < 224" by (simp add: high zdiv_eq_iff)
  show "b AND 240 = 224 \<longleftrightarrow> 224 \<le> uint b \<and> uint b < 240" by (simp add: high zdiv_eq_iff)
  show "b AND 255 = b" using uint_byte_less [of b] by (simp add: high mask_simps)
qed

section \<open>Bytes at an offset\<close>

primrec bytes_at :: "mem \<Rightarrow> int \<Rightarrow> byte list \<Rightarrow> bool" where
  "bytes_at m p [] \<longleftrightarrow> 0 \<le> p \<and> p \<le> int (length m)"
| "bytes_at m p (b # bs) \<longleftrightarrow> rd m p = Some b \<and> bytes_at m (p + 1) bs"

lemma rd_Some_iff: "rd m p = Some b \<longleftrightarrow> 0 \<le> p \<and> p < int (length m) \<and> m ! nat p = b"
  by (auto simp: rd_def)

lemma bytes_at_append:
  "bytes_at m p (xs @ ys) \<longleftrightarrow> bytes_at m p xs \<and> bytes_at m (p + int (length xs)) ys"
proof (induction xs arbitrary: p)
  case Nil
  then show ?case by (cases ys) (auto simp: rd_Some_iff)
next
  case (Cons x xs)
  then show ?case by (simp add: ac_simps)
qed

lemma bytes_at_range: "bytes_at m p bs \<Longrightarrow> 0 \<le> p \<and> p + int (length bs) \<le> int (length m)"
  by (induction bs arbitrary: p) (auto simp: rd_Some_iff, force)

lemma bytes_at_iff:
  "bytes_at m p bs \<longleftrightarrow> 0 \<le> p \<and> p + int (length bs) \<le> int (length m) \<and>
    take (length bs) (drop (nat p) m) = bs"
proof (induction bs arbitrary: p)
  case Nil
  then show ?case by auto
next
  case (Cons b bs)
  show ?case
  proof (cases "0 \<le> p \<and> p < int (length m)")
    case True
    then have "drop (nat p) m = m ! nat p # drop (Suc (nat p)) m"
      by (intro Cons_nth_drop_Suc [symmetric]) auto
    moreover have "nat (p + 1) = Suc (nat p)" using True by (auto simp: nat_add_distrib)
    ultimately show ?thesis using True Cons.IH [of "p + 1"] by (auto simp: rd_Some_iff)
  next
    case False
    then show ?thesis by (auto simp: rd_Some_iff)
  qed
qed

lemma bytes_at_load: "bytes_at m p bs \<Longrightarrow> load m p (length bs) = Some bs"
  by (auto simp: bytes_at_iff load_def nat_add_distrib)

lemma bytes_at_split: "bytes_at (pre @ bs @ post) (int (length pre)) bs"
  by (simp add: bytes_at_iff)

lemma bytes_at_mid:
  "p = int (length pre) \<Longrightarrow> bytes_at (pre @ bs @ post) p bs"
  by (simp add: bytes_at_iff)

end
