(* ===== verification/Listpack_Enc_Correct.thy ===== *)
theory Listpack_Enc_Correct
  imports Listpack_Enc Bits_Base Util_Num_Correct
begin

unbundle bit_operations_syntax

text \<open>
  The element encodings of the listpack are inverse to their decoders: a stored integer or string
  is read back as it was, the size functions agree with the bytes written, and a back length is
  read from right to left as it was written.
\<close>

section \<open>Encoding bytes\<close>

lemma lp_encoding_tests:
  "LP_ENCODING_IS_7BIT_UINT b \<longleftrightarrow> uint b < 128"
  "LP_ENCODING_IS_6BIT_STR b \<longleftrightarrow> 128 \<le> uint b \<and> uint b < 192"
  "LP_ENCODING_IS_13BIT_INT b \<longleftrightarrow> 192 \<le> uint b \<and> uint b < 224"
  "LP_ENCODING_IS_12BIT_STR b \<longleftrightarrow> 224 \<le> uint b \<and> uint b < 240"
  "LP_ENCODING_IS_32BIT_STR b \<longleftrightarrow> uint b = 240"
  "LP_ENCODING_IS_16BIT_INT b \<longleftrightarrow> uint b = 241"
  "LP_ENCODING_IS_24BIT_INT b \<longleftrightarrow> uint b = 242"
  "LP_ENCODING_IS_32BIT_INT b \<longleftrightarrow> uint b = 243"
  "LP_ENCODING_IS_64BIT_INT b \<longleftrightarrow> uint b = 244"
  unfolding LP_ENCODING_IS_7BIT_UINT_def LP_ENCODING_IS_6BIT_STR_def
      LP_ENCODING_IS_13BIT_INT_def LP_ENCODING_IS_12BIT_STR_def LP_ENCODING_IS_32BIT_STR_def
      LP_ENCODING_IS_16BIT_INT_def LP_ENCODING_IS_24BIT_INT_def LP_ENCODING_IS_32BIT_INT_def
      LP_ENCODING_IS_64BIT_INT_def and_high_byte
  by (simp_all add: word_uint_eq_iff)

lemma lp_EOF_uint: "b = LP_EOF \<longleftrightarrow> uint b = 255"
  by (simp add: word_uint_eq_iff)

lemmas lp_tests = lp_encoding_tests lp_EOF_uint

section \<open>Little-endian fields\<close>

lemma lp_rd_le_eq: "bytes_at m p bs \<Longrightarrow> lp_rd_le m p (length bs) sh = Some (push_bit sh (le_uint bs))"
proof (induction bs arbitrary: p sh)
  case (Cons b bs)
  have "push_bit sh (uint b) OR push_bit (sh + 8) (le_uint bs) =
    push_bit sh (uint b OR push_bit 8 (le_uint bs))"
    by (simp add: push_bit_or push_bit_push_bit)
  also have "uint b OR push_bit 8 (le_uint bs) = uint b + 256 * le_uint bs"
    using or_push_bit(1) [of "uint b" 8 "le_uint bs"] uint_byte_less [of b] by simp
  finally show ?case using Cons by simp
qed simp

lemma le_uint4:
  "uint b0 OR push_bit 8 (uint b1) OR push_bit 16 (uint b2) OR push_bit 24 (uint b3) =
    le_uint [b0, b1, b2, b3 :: byte]"
proof -
  have "push_bit 16 (uint b2) = push_bit 8 (push_bit 8 (uint b2))"
    and "push_bit 24 (uint b3) = push_bit 8 (push_bit 8 (push_bit 8 (uint b3)))"
    by (simp_all add: push_bit_push_bit)
  then have "uint b0 OR push_bit 8 (uint b1) OR push_bit 16 (uint b2) OR push_bit 24 (uint b3) =
    uint b0 OR push_bit 8 (uint b1 OR push_bit 8 (uint b2 OR push_bit 8 (uint b3)))"
    by (simp add: push_bit_or or.assoc)
  also have "\<dots> = le_uint [b0, b1, b2, b3]"
    using uint_byte_less [of b0] uint_byte_less [of b1] uint_byte_less [of b2]
    by (simp add: or_push_bit(1))
  finally show ?thesis .
qed

lemma le_uint2: "uint b0 OR push_bit 8 (uint b1) = le_uint [b0, b1 :: byte]"
  using uint_byte_less [of b0] by (simp add: or_push_bit(1))

lemma le_bytes_4:
  "le_bytes 4 v = [word_of_int v, word_of_int (v div 256), word_of_int (v div 65536), word_of_int (v div 16777216)]"
  using zdiv_zmult2_eq [of 256 v 256] zdiv_zmult2_eq [of 256 v 65536]
  by (simp add: eval_nat_numeral)

lemma le_bytes_2: "le_bytes 2 v = [word_of_int v, word_of_int (v div 256)]"
  by (simp add: numeral_eq_Suc)

lemma word_mod256 [mask_simps]: "(word_of_int (v AND 255) :: byte) = word_of_int v"
  by (simp add: mask_simps)

section \<open>Integers\<close>

text \<open>The encoded integer is an encoding byte followed by the little-endian value, or packed.\<close>

lemma i64_id: "LLONG_MIN \<le> v \<Longrightarrow> v \<le> LLONG_MAX \<Longrightarrow> i64 v = v"
  by (simp add: i64_def)

lemma lp_int_of_uval_wrap:
  assumes "0 < n" and "n \<le> 64" and "- (2 ^ (n - 1)) \<le> v" and "v < 2 ^ (n - 1)"
  shows "lp_int_of_uval (v mod 2 ^ n) (2 ^ (n - 1)) (2 ^ n - 1) = v"
proof -
  have n: "(2 :: int) ^ n = 2 * 2 ^ (n - 1)" using assms(1) by (metis power_Suc Suc_diff_1)
  have "(2 :: int) ^ (n - 1) \<le> 2 ^ 63" using assms by (intro power_increasing) auto
  show ?thesis
  proof (cases "v < 0")
    case True
    then have "v mod 2 ^ n = v + 2 ^ n"
      using assms n mod_pos_pos_trivial [of "v + 2 ^ n" "2 ^ n"] by simp
    moreover have "- v - 1 < 2 ^ 63" using assms \<open>2 ^ (n - 1) \<le> 2 ^ 63\<close> by linarith
    then have "u64 (- 1 - v) = - 1 - v" "i64 (- 1 - v) = - 1 - v"
      using True by (auto intro!: u64_id i64_id)
    ultimately show ?thesis using True assms n by (simp add: lp_int_of_uval_def)
  next
    case False
    then have "v mod 2 ^ n = v" using assms n by (intro mod_pos_pos_trivial) auto
    moreover have "i64 v = v" using False assms \<open>2 ^ (n - 1) \<le> 2 ^ 63\<close> by (intro i64_id) auto
    ultimately show ?thesis using False assms by (simp add: lp_int_of_uval_def)
  qed
qed


lemma le_bytes_wrap:
  assumes "- (256 ^ n) \<le> 2 * v" and "2 * v < 256 ^ n"
  shows "le_bytes n (if v < 0 then 256 ^ n + v else v) = le_bytes n v"
proof -
  have "(if v < 0 then 256 ^ n + v else v) mod 256 ^ n = v mod 256 ^ n" by simp
  then show ?thesis by (metis le_bytes_cong_mod)
qed

lemma le_bytes_3:
  "le_bytes 3 v = [word_of_int v, word_of_int (v div 256), word_of_int (v div 65536)]"
  using zdiv_zmult2_eq [of 256 v 256] by (simp add: eval_nat_numeral)

lemma le_bytes_map: "le_bytes n v = map (\<lambda>i. word_of_int (v div 256 ^ i)) [0..<n]"
proof (induction n arbitrary: v)
  case (Suc n)
  have "v div 256 div 256 ^ i = v div 256 ^ Suc i" for i
    by (simp add: zdiv_zmult2_eq)
  then show ?case using Suc [of "v div 256"]
    by (simp add: upt_conv_Cons map_Suc_upt [symmetric] del: upt_Suc power_Suc)
qed simp

lemma le_bytes_8:
  "le_bytes 8 v = [word_of_int v, word_of_int (v div 2 ^ 8), word_of_int (v div 2 ^ 16),
    word_of_int (v div 2 ^ 24), word_of_int (v div 2 ^ 32), word_of_int (v div 2 ^ 40),
    word_of_int (v div 2 ^ 48), word_of_int (v div 2 ^ 56)]"
  by (simp add: le_bytes_map upt_rec)

lemma lp_int_enc_7: "0 \<le> v \<Longrightarrow> v \<le> 127 \<Longrightarrow> lpEncodeIntegerGetType v = [word_of_int v]"
  by (simp add: lpEncodeIntegerGetType_def)

lemma lp_int_enc_13:
  assumes "\<not> (0 \<le> v \<and> v \<le> 127)" and "- 4096 \<le> v" and "v \<le> 4095"
  shows "lpEncodeIntegerGetType v =
    [word_of_int (v mod 8192 div 256 + 192), word_of_int (v mod 8192)]"
proof -
  have "(if v < 0 then 2 ^ 13 + v else v) = v mod 8192"
    using assms mod_pos_pos_trivial [of "v + 8192" 8192] by (auto simp: add.commute)
  moreover have "0 \<le> v mod 8192 div 256" "v mod 8192 div 256 < 32" by (simp_all add: div_less_iff_less_mult)
  ultimately show ?thesis
    using assms by (simp add: lpEncodeIntegerGetType_def mask_simps or_192 Let_def)
qed

text \<open>The wider integers: an encoding byte and the little-endian two's complement value.\<close>

lemma lp_int_enc_wide:
  assumes "LLONG_MIN \<le> v" and "v \<le> LLONG_MAX" and "\<not> (- 4096 \<le> v \<and> v \<le> 4095)"
  obtains (16) "lpEncodeIntegerGetType v = 0xF1 # le_bytes 2 v" and "- (2 ^ 15) \<le> v" and "v < 2 ^ 15"
    | (24) "lpEncodeIntegerGetType v = 0xF2 # le_bytes 3 v" and "- (2 ^ 23) \<le> v" and "v < 2 ^ 23"
    | (32) "lpEncodeIntegerGetType v = 0xF3 # le_bytes 4 v" and "- (2 ^ 31) \<le> v" and "v < 2 ^ 31"
    | (64) "lpEncodeIntegerGetType v = 0xF4 # le_bytes 8 v"
proof -
  have neg: "\<not> (0 \<le> v \<and> v \<le> 127)" using assms by auto
  consider "- 32768 \<le> v \<and> v \<le> 32767"
    | "\<not> (- 32768 \<le> v \<and> v \<le> 32767)" "- 8388608 \<le> v \<and> v \<le> 8388607"
    | "\<not> (- 32768 \<le> v \<and> v \<le> 32767)" "\<not> (- 8388608 \<le> v \<and> v \<le> 8388607)"
      "- 2147483648 \<le> v \<and> v \<le> 2147483647"
    | "\<not> (- 32768 \<le> v \<and> v \<le> 32767)" "\<not> (- 8388608 \<le> v \<and> v \<le> 8388607)"
      "\<not> (- 2147483648 \<le> v \<and> v \<le> 2147483647)"
    by blast
  then show ?thesis
  proof cases
    case 1
    let ?w = "if v < 0 then 256 ^ 2 + v else v"
    have "lpEncodeIntegerGetType v = 0xF1 # [word_of_int ?w, word_of_int (?w div 256)]"
      using 1 neg assms(3) by (simp only: lpEncodeIntegerGetType_def) (simp add: mask_simps Let_def)
    then show ?thesis using that(1) 1 le_bytes_wrap [of 2 v] le_bytes_2 [of ?w] by simp
  next
    case 2
    let ?w = "if v < 0 then 256 ^ 3 + v else v"
    have "lpEncodeIntegerGetType v =
      0xF2 # [word_of_int ?w, word_of_int (?w div 256), word_of_int (?w div 65536)]"
      using 2 neg assms(3) by (simp only: lpEncodeIntegerGetType_def) (simp add: mask_simps Let_def)
    then show ?thesis using that(2) 2 le_bytes_wrap [of 3 v] le_bytes_3 [of ?w] by simp
  next
    case 3
    let ?w = "if v < 0 then 256 ^ 4 + v else v"
    have "lpEncodeIntegerGetType v = 0xF3 # [word_of_int ?w, word_of_int (?w div 256),
      word_of_int (?w div 65536), word_of_int (?w div 16777216)]"
      using 3 neg assms(3) by (simp only: lpEncodeIntegerGetType_def) (simp add: mask_simps Let_def)
    then show ?thesis using that(3) 3 le_bytes_wrap [of 4 v] le_bytes_4 [of ?w] by simp
  next
    case 4
    have "lpEncodeIntegerGetType v = 0xF4 # le_bytes 8 (u64 v)"
      using 4 neg assms(3)
      by (simp only: lpEncodeIntegerGetType_def le_bytes_8) (simp add: mask_simps Let_def)
    then show ?thesis using that(4) le_bytes_cong_mod [of 8 v] by (simp add: u64_def)
  qed
qed

lemma lp_rd_le_bytes:
  "bytes_at m p (le_bytes n v) \<Longrightarrow> lp_rd_le m p n 0 = Some (v mod 256 ^ n)"
  using lp_rd_le_eq [of m p "le_bytes n v" 0] by (simp add: le_uint_le_bytes)

lemma lp_int_of_uval_7: "0 \<le> v \<Longrightarrow> v \<le> 127 \<Longrightarrow> lp_int_of_uval v UINT64_MAX 0 = v"
  by (simp add: lp_int_of_uval_def i64_def)

lemmas lp_uval_wrap =
  lp_int_of_uval_wrap [of 13, simplified] lp_int_of_uval_wrap [of 16, simplified]
  lp_int_of_uval_wrap [of 24, simplified] lp_int_of_uval_wrap [of 32, simplified]
  lp_int_of_uval_wrap [of 64, simplified]

text \<open>
  All that the readers of an element of \<open>n\<close> bytes at \<open>p\<close> compute; \<open>r\<close> is the
  value they return.
\<close>

definition lp_reads :: "mem \<Rightarrow> int \<Rightarrow> int \<Rightarrow> (mem option \<Rightarrow> lpval option) \<Rightarrow> bool" where
  "lp_reads m p n r \<longleftrightarrow>
     (\<forall>ib. lpGetWithBuf m p ib = r ib) \<and>
     (\<forall>ib es. lpGetWithSize m p ib es =
       Option.bind (r ib) (\<lambda>x. Some (x, n + lpEncodeBacklenBytes n))) \<and>
     lpCurrentEncodedSizeUnsafe m p = Some n \<and>
     (\<exists>b. rd m p = Some b \<and> b \<noteq> LP_EOF \<and> 0 < lpCurrentEncodedSizeBytes b \<and>
       lpCurrentEncodedSizeBytes b \<le> n)"

lemmas lp_read_defs = lp_reads_def lpGetWithBuf_def lpGetWithSize_def
  lpCurrentEncodedSizeUnsafe_def lpCurrentEncodedSizeBytes_def lp_tests

lemma lp_int_7_read:
  assumes "0 \<le> v" and "v \<le> 127" and "bytes_at m p (lpEncodeIntegerGetType v)"
  shows "lp_reads m p 1 (lp_return_int v)"
proof -
  have u: "uint (word_of_int v :: byte) = v" using assms by (simp add: uint_word8)
  have rd: "rd m p = Some (word_of_int v)" using assms by (simp add: lp_int_enc_7)
  have "v mod 128 = v" using assms by simp
  then show ?thesis
    using assms(1,2)
    by (simp add: lp_read_defs rd u mask_simps lp_int_of_uval_7 lpEncodeBacklenBytes_def)
qed

lemma lp_int_13_read:
  assumes "\<not> (0 \<le> v \<and> v \<le> 127)" and "- 4096 \<le> v" and "v \<le> 4095"
    and "bytes_at m p (lpEncodeIntegerGetType v)"
  shows "lp_reads m p 2 (lp_return_int v)"
proof -
  define h l where "h = v mod 8192 div 256" and "l = v mod 8192 mod 256"
  define b0 b1 :: byte where "b0 = word_of_int (h + 192)" and "b1 = word_of_int (v mod 8192)"
  have h: "0 \<le> h" "h < 32" by (simp_all add: h_def div_less_iff_less_mult)
  have enc: "lpEncodeIntegerGetType v = [b0, b1]"
    using assms lp_int_enc_13 unfolding b0_def b1_def h_def by blast
  have u: "uint b0 = h + 192" using h unfolding b0_def by (intro uint_word8) auto
  have ul: "uint b1 = l" by (simp add: b1_def l_def uint_word8_mod)
  have rd: "rd m p = Some b0" "rd m (p + 1) = Some b1" using assms(4) by (simp_all add: enc)
  have "(h + 192) mod 32 = h" using h mod_add_eq [of h 32 192] by simp
  then have "push_bit 8 (uint (b0 AND 0x1f)) OR uint b1 = l + 256 * h"
    using or_push_bit(2) [of l 8 h] by (simp add: mask_simps u ul l_def)
  also have "\<dots> = v mod 8192" unfolding l_def h_def using mod_div_mult_eq [of "v mod 8192" 256] by linarith
  finally have uval: "push_bit 8 (uint (b0 AND 0x1f)) OR uint b1 = v mod 8192" .
  have wrap: "lp_int_of_uval (v mod 8192) 4096 8191 = v"
    using assms by (intro lp_uval_wrap(1)) auto
  show ?thesis
    using h wrap by (simp add: lp_read_defs rd u uval lpEncodeBacklenBytes_def)
qed

lemma lp_int_wide_read:
  assumes "LLONG_MIN \<le> v" and "v \<le> LLONG_MAX" and "\<not> (- 4096 \<le> v \<and> v \<le> 4095)"
    and "bytes_at m p (lpEncodeIntegerGetType v)"
  shows "lp_reads m p (int (length (lpEncodeIntegerGetType v))) (lp_return_int v)"
  using assms(1-3)
proof (cases rule: lp_int_enc_wide)
  case 16
  then have at: "rd m p = Some 0xF1" "bytes_at m (p + 1) (le_bytes 2 v)" using assms(4) by auto
  note r = at(1) lp_rd_le_bytes [OF at(2), simplified] lp_uval_wrap(2) [OF 16(2,3) [simplified]]
  show ?thesis
    by (simp add: 16(1) r lp_read_defs lpEncodeBacklenBytes_def drop_bit_div)
next
  case 24
  then have at: "rd m p = Some 0xF2" "bytes_at m (p + 1) (le_bytes 3 v)" using assms(4) by auto
  note r = at(1) lp_rd_le_bytes [OF at(2), simplified] lp_uval_wrap(3) [OF 24(2,3) [simplified]]
  show ?thesis
    by (simp add: 24(1) r lp_read_defs lpEncodeBacklenBytes_def drop_bit_div)
next
  case 32
  then have at: "rd m p = Some 0xF3" "bytes_at m (p + 1) (le_bytes 4 v)" using assms(4) by auto
  note r = at(1) lp_rd_le_bytes [OF at(2), simplified] lp_uval_wrap(4) [OF 32(2,3) [simplified]]
  show ?thesis
    by (simp add: 32(1) r lp_read_defs lpEncodeBacklenBytes_def drop_bit_div)
next
  case 64
  then have at: "rd m p = Some 0xF4" "bytes_at m (p + 1) (le_bytes 8 v)" using assms(4) by auto
  have "lp_int_of_uval (v mod 18446744073709551616) 9223372036854775808 18446744073709551615 = v"
    using assms by (intro lp_uval_wrap(5)) auto
  note r = at(1) lp_rd_le_bytes [OF at(2), simplified] this
  show ?thesis
    by (simp add: 64(1) r lp_read_defs lpEncodeBacklenBytes_def drop_bit_div)
qed

lemma lp_int_read:
  assumes "LLONG_MIN \<le> v" and "v \<le> LLONG_MAX" and "bytes_at m p (lpEncodeIntegerGetType v)"
  shows "lp_reads m p (int (length (lpEncodeIntegerGetType v))) (lp_return_int v)"
proof -
  consider "0 \<le> v \<and> v \<le> 127" | "\<not> (0 \<le> v \<and> v \<le> 127)" "- 4096 \<le> v \<and> v \<le> 4095"
    | "\<not> (- 4096 \<le> v \<and> v \<le> 4095)" by blast
  then show ?thesis
  proof cases
    case 1
    then show ?thesis using lp_int_7_read [of v m p] assms by (simp add: lp_int_enc_7)
  next
    case 2
    then show ?thesis using lp_int_13_read [of v m p] assms by (simp add: lp_int_enc_13)
  next
    case 3
    then show ?thesis using lp_int_wide_read [of v m p] assms by blast
  qed
qed

section \<open>Strings\<close>

lemma lp_str_read:
  assumes "length s < 2 ^ 32 - 5" and "bytes_at m p (lpEncodeString s)"
  shows "lp_reads m p (int (length (lpEncodeString s)))
    (\<lambda>ib. Some (LpString (p + int (length (lpEncodeString s)) - int (length s)) (int (length s))))"
proof -
  define n where "n = int (length s)"
  have n: "0 \<le> n" "n < 2 ^ 32 - 5" using assms(1) by (auto simp: n_def)
  consider "n < 64" | "64 \<le> n" "n < 4096" | "4096 \<le> n" by linarith
  then show ?thesis
  proof cases
    case 1
    define b0 :: byte where "b0 = word_of_int (n + 128)"
    have u: "uint b0 = n + 128" using 1 n unfolding b0_def by (intro uint_word8) auto
    have enc: "lpEncodeString s = b0 # s" using 1 n by (simp add: lpEncodeString_def n_def [symmetric] or_128 b0_def)
    have rd: "rd m p = Some b0" using assms(2) by (simp add: enc)
    have "(n + 128) mod 64 = n" using 1 n mod_add_eq [of n 64 128] by simp
    then show ?thesis using 1 n
      by (simp add: lp_read_defs rd u enc LP_ENCODING_6BIT_STR_LEN_def mask_simps n_def [symmetric]
          add.commute)
  next
    case 2
    define b0 b1 :: byte where "b0 = word_of_int (n div 256 + 224)" and "b1 = word_of_int n"
    have h: "0 \<le> n div 256" "n div 256 < 16" using 2 n by (simp_all add: div_less_iff_less_mult)
    have u: "uint b0 = n div 256 + 224" using h unfolding b0_def by (intro uint_word8) auto
    have u1: "uint b1 = n mod 256" by (simp add: b1_def uint_word8_mod)
    have enc: "lpEncodeString s = b0 # b1 # s"
      using 2 h by (simp add: lpEncodeString_def n_def [symmetric] mask_simps or_224 b0_def b1_def)
    have rd: "rd m p = Some b0" "rd m (p + 1) = Some b1" using assms(2) by (simp_all add: enc)
    have "(n div 256 + 224) mod 16 = n div 256" using h mod_add_eq [of "n div 256" 16 224] by simp
    then have "push_bit 8 (uint (b0 AND 0xF)) OR uint b1 = n"
      using or_push_bit(2) [of "n mod 256" 8 "n div 256"] by (simp add: mask_simps u u1)
    then have len: "LP_ENCODING_12BIT_STR_LEN m p = Some n"
      by (simp add: LP_ENCODING_12BIT_STR_LEN_def rd)
    show ?thesis using 2 h
      by (simp add: lp_read_defs rd u enc len n_def [symmetric] add.commute)
  next
    case 3
    define b0 :: byte where "b0 = 0xF0"
    have u: "uint b0 = 240" by (simp add: b0_def)
    have enc: "lpEncodeString s = b0 # le_bytes 4 n @ s"
      using 3 by (simp add: lpEncodeString_def n_def [symmetric] mask_simps le_bytes_4 b0_def)
    obtain b1 b2 b3 b4 where b: "le_bytes 4 n = [b1, b2, b3, b4]" using le_bytes_4 by blast
    have rd: "rd m p = Some b0" "rd m (p + 1) = Some b1" "rd m (p + 2) = Some b2"
      "rd m (p + 3) = Some b3" "rd m (p + 4) = Some b4"
      using assms(2) by (simp_all add: enc b add.commute)
    have "le_uint [b1, b2, b3, b4] = n" using le_uint_le_bytes [of 4 n] n by (simp add: b)
    then have len: "LP_ENCODING_32BIT_STR_LEN m p = Some n"
      by (simp add: LP_ENCODING_32BIT_STR_LEN_def rd le_uint4)
    have "u32 (5 + n) = 5 + n" using n by (simp add: u32_def)
    then show ?thesis using 3
      by (simp add: lp_read_defs rd u enc len b n_def [symmetric] add.commute)
  qed
qed

section \<open>Back lengths\<close>

lemma length_lpEncodeBacklen: "int (length (lpEncodeBacklen l)) = lpEncodeBacklenBytes l"
  by (simp add: lpEncodeBacklen_def lpEncodeBacklenBytes_def)

lemma lpEncodeBacklenBytes_range: "1 \<le> lpEncodeBacklenBytes l \<and> lpEncodeBacklenBytes l \<le> 5"
  by (simp add: lpEncodeBacklenBytes_def)

text \<open>A continuation byte carries seven bits below its high bit, the first byte none above.\<close>

lemma backlen_cont:
  fixes x :: int
  defines "b \<equiv> word_of_int ((x AND 127) OR 128) :: byte"
  shows "b AND 128 \<noteq> 0" and "uint (b AND 127) = x mod 128"
proof -
  have r: "0 \<le> x mod 128" "x mod 128 < 128" by simp_all
  then have "b = word_of_int (x mod 128 + 128)" unfolding b_def mask_simps by (simp only: or_128)
  moreover have "uint (word_of_int (x mod 128 + 128) :: byte) = x mod 128 + 128"
    by (intro uint_word8) (use r in linarith)+
  ultimately have "uint b = x mod 128 + 128" by simp
  then show "b AND 128 \<noteq> 0" and "uint (b AND 127) = x mod 128"
    by (simp_all add: and_high_byte mask_simps)
qed

lemma backlen_first:
  fixes x :: int
  assumes "0 \<le> x" and "x < 128"
  shows "(word_of_int x :: byte) AND 128 = 0" and "uint ((word_of_int x :: byte) AND 127) = x"
  using assms by (simp_all add: and_high_byte mask_simps uint_word8)

lemma or_mod_step: "(l mod 2 ^ k) OR push_bit k (l div 2 ^ k mod 128) = l mod 2 ^ (k + 7)" for l :: int
proof -
  have "l mod 2 ^ (k + 7) = 2 ^ k * (l div 2 ^ k mod 128) + l mod 2 ^ k"
    using zmod_zmult2_eq [of 128 l "2 ^ k"] by (simp add: power_add mult.commute)
  then show ?thesis by (simp add: or_push_bit(1))
qed

lemma or_mod_last: "(l mod 2 ^ k) OR push_bit k (l div 2 ^ k) = l" for l :: int
  by (simp add: or_push_bit(1))

lemmas or_mod_steps =
  or_mod_step [of _ 7, simplified] or_mod_step [of _ 14, simplified] or_mod_step [of _ 21, simplified]
  or_mod_last [of _ 7, simplified] or_mod_last [of _ 14, simplified] or_mod_last [of _ 21, simplified]
  or_mod_last [of _ 28, simplified]

lemma lpDecodeBacklen_encode:
  assumes "0 \<le> l" and "l < 2 ^ 35"
    and "bytes_at m (q - lpEncodeBacklenBytes l + 1) (lpEncodeBacklen l)"
  shows "lpDecodeBacklen m q = Some l"
proof -
  note defs = lpEncodeBacklen_def lpEncodeBacklenBytes_def lpDecodeBacklen_def Let_def
    backlen_cont backlen_first or_mod_steps drop_bit_div
  consider "l \<le> 127" | "128 \<le> l" "l \<le> 16383" | "16384 \<le> l" "l \<le> 2097151"
    | "2097152 \<le> l" "l \<le> 268435455" | "268435456 \<le> l" by linarith
  then show ?thesis
  proof cases
    case 1
    then show ?thesis using assms by (simp add: defs)
  next
    case 2
    then have "0 \<le> l div 128" "l div 128 < 128" by (simp_all add: div_less_iff_less_mult)
    then show ?thesis using assms 2 by (simp add: defs)
  next
    case 3
    then have "0 \<le> l div 16384" "l div 16384 < 128" by (simp_all add: div_less_iff_less_mult)
    then show ?thesis using assms 3 by (simp add: defs)
  next
    case 4
    then have "0 \<le> l div 2097152" "l div 2097152 < 128" by (simp_all add: div_less_iff_less_mult)
    then show ?thesis using assms 4 by (simp add: defs)
  next
    case 5
    then have "0 \<le> l div 268435456" "l div 268435456 < 128"
      using assms by (simp_all add: div_less_iff_less_mult)
    then show ?thesis using assms 5 by (simp add: defs)
  qed
qed

end
