(* ===== verification/Listpack_Layout.thy ===== *)
theory Listpack_Layout
  imports Listpack_Edit Listpack_Enc_Correct
begin

unbundle bit_operations_syntax

text \<open>
  The layout of a listpack: a header with the number of bytes and of elements, the elements, each
  followed by its back length, and an end byte. \<open>lp_repr m es\<close> says that the block \<open>m\<close>
  holds the elements \<open>es\<close>; the traversal operations compute the offsets of that list.
\<close>

section \<open>Elements\<close>

text \<open>
  The elements a listpack holds: a string that is the notation of a 64-bit integer is stored as an
  integer, so the strings are the others.
\<close>

primrec lp_ok :: "listpackEntry \<Rightarrow> bool" where
  "lp_ok (LpeStr s) \<longleftrightarrow> int (length s) < 2 ^ 32 - 5 \<and> string2ll s = None"
| "lp_ok (LpeInt v) \<longleftrightarrow> LLONG_MIN \<le> v \<and> v \<le> LLONG_MAX"

primrec lp_enc :: "listpackEntry \<Rightarrow> byte list" where
  "lp_enc (LpeStr s) = lpEncodeString s"
| "lp_enc (LpeInt v) = lpEncodeIntegerGetType v"

definition lp_bytes :: "listpackEntry \<Rightarrow> byte list" where
  "lp_bytes e = lp_enc e @ lpEncodeBacklen (int (length (lp_enc e)))"

definition lp_body :: "listpackEntry list \<Rightarrow> byte list" where
  "lp_body es = concat (map lp_bytes es)"

text \<open>The value of an element at offset \<open>p\<close> as the readers return it.\<close>

primrec lp_value :: "listpackEntry \<Rightarrow> int \<Rightarrow> mem option \<Rightarrow> lpval option" where
  "lp_value (LpeStr s) p ib =
     Some (LpString (p + int (length (lp_enc (LpeStr s))) - int (length s)) (int (length s)))"
| "lp_value (LpeInt v) p ib = lp_return_int v ib"

lemma lp_enc_reads:
  assumes "lp_ok e" and "bytes_at m p (lp_enc e)"
  shows "lp_reads m p (int (length (lp_enc e))) (lp_value e p)"
proof (cases e)
  case (LpeStr s)
  have "lp_value (LpeStr s) p = (\<lambda>ib. Some (LpString (p + int (length (lpEncodeString s)) -
    int (length s)) (int (length s))))"
    by (rule ext) simp
  then show ?thesis using LpeStr assms lp_str_read [of s m p] by simp
next
  case (LpeInt v)
  have "lp_value (LpeInt v) p = lp_return_int v" by (rule ext) simp
  then show ?thesis using LpeInt assms lp_int_read [of v m p] by simp
qed

lemma length_lpEncodeString: "length s < length (lpEncodeString s)"
  and length_lpEncodeString_le: "length (lpEncodeString s) \<le> length s + 5"
  by (simp_all add: lpEncodeString_def Let_def)

lemma lp_enc_length:
  assumes "lp_ok e"
  shows "0 < length (lp_enc e) \<and> int (length (lp_enc e)) < 2 ^ 32"
proof (cases e)
  case (LpeStr s)
  then show ?thesis
    using assms length_lpEncodeString [of s] length_lpEncodeString_le [of s] by auto
next
  case (LpeInt v)
  have "0 < length (lpEncodeIntegerGetType v) \<and> length (lpEncodeIntegerGetType v) \<le> 9"
    by (simp add: lpEncodeIntegerGetType_def Let_def)
  then show ?thesis using LpeInt by auto
qed

lemma length_lp_bytes:
  "int (length (lp_bytes e)) =
    int (length (lp_enc e)) + lpEncodeBacklenBytes (int (length (lp_enc e)))"
  by (simp add: lp_bytes_def length_lpEncodeBacklen)

lemma lp_body_simps [simp]:
  "lp_body [] = []" "lp_body (e # es) = lp_bytes e @ lp_body es"
  "lp_body (es @ fs) = lp_body es @ lp_body fs"
  by (simp_all add: lp_body_def)

section \<open>The header\<close>

lemma lp_get_total: "bytes_at m 0 (le_bytes 4 t) \<Longrightarrow> lpGetTotalBytes m = Some (t mod 2 ^ 32)"
  using le_uint_le_bytes [of 4 t]
  by (simp add: lpGetTotalBytes_def le_bytes_4 le_uint4 del: le_uint.simps)

lemma lp_get_num: "bytes_at m 4 (le_bytes 2 n) \<Longrightarrow> lpGetNumElements m = Some (n mod 65536)"
  using le_uint_le_bytes [of 2 n]
  by (simp add: lpGetNumElements_def le_bytes_2 le_uint2 del: le_uint.simps)

lemma lp_set_total:
  assumes "length h = 4"
  shows "lpSetTotalBytes (h @ rest) t = Some (le_bytes 4 t @ rest)"
proof -
  obtain a b c d where "h = [a, b, c, d]" using assms by (auto simp: length_Suc_conv numeral_eq_Suc)
  then show ?thesis
    by (simp add: lpSetTotalBytes_def store_def le_bytes_4 mask_simps)
qed

lemma lp_set_num:
  assumes "length h = 4" and "length k = 2"
  shows "lpSetNumElements (h @ k @ rest) n = Some (h @ le_bytes 2 n @ rest)"
proof -
  obtain a b where "k = [a, b]" using assms by (auto simp: length_Suc_conv numeral_eq_Suc)
  then show ?thesis using assms(1)
    by (simp add: lpSetNumElements_def store_def le_bytes_2 mask_simps)
qed

section \<open>The representation\<close>

definition lp_total :: "listpackEntry list \<Rightarrow> int" where
  "lp_total es = 7 + int (length (lp_body es))"

definition lp_image :: "int \<Rightarrow> listpackEntry list \<Rightarrow> byte list" where
  "lp_image num es = le_bytes 4 (lp_total es) @ le_bytes 2 num @ lp_body es @ [LP_EOF]"

text \<open>The element count of the header is exact or says that it is unknown.\<close>

definition lp_num_ok :: "int \<Rightarrow> nat \<Rightarrow> bool" where
  "lp_num_ok num n \<longleftrightarrow> num = LP_HDR_NUMELE_UNKNOWN \<or> num = int n \<and> n < 65535"

definition lp_repr :: "mem \<Rightarrow> listpackEntry list \<Rightarrow> bool" where
  "lp_repr m es \<longleftrightarrow> (\<exists>num rest. m = lp_image num es @ rest \<and> lp_num_ok num (length es)) \<and>
     lp_total es < 2 ^ 32 \<and> (\<forall>e \<in> set es. lp_ok e)"

definition lp_off :: "listpackEntry list \<Rightarrow> nat \<Rightarrow> int" where
  "lp_off es i = 6 + int (length (lp_body (take i es)))"

lemma lp_off_0 [simp]: "lp_off es 0 = 6"
  by (simp add: lp_off_def)

lemma lp_off_Suc: "i < length es \<Longrightarrow> lp_off es (Suc i) = lp_off es i + int (length (lp_bytes (es ! i)))"
  by (simp add: lp_off_def take_Suc_conv_app_nth)

lemma lp_off_length: "lp_off es (length es) = lp_total es - 1"
  by (simp add: lp_off_def lp_total_def)

lemma lp_body_split:
  "i \<le> length es \<Longrightarrow> lp_body es = lp_body (take i es) @ lp_body (drop i es)"
  by (metis append_take_drop_id lp_body_simps(3))

lemma lp_off_le: "i \<le> length es \<Longrightarrow> lp_off es i \<le> lp_total es - 1"
  using lp_body_split [of i es] by (simp add: lp_off_def lp_total_def)

lemma lp_bytes_pos: "lp_ok e \<Longrightarrow> 0 < length (lp_bytes e)"
  using lp_enc_length [of e] by (simp add: lp_bytes_def)

lemma lp_repr_header:
  assumes "lp_repr m es"
  obtains num where "lpGetTotalBytes m = Some (lp_total es)" and "lpGetNumElements m = Some num"
    and "lp_num_ok num (length es)"
proof -
  obtain num rest where m: "m = lp_image num es @ rest" and num: "lp_num_ok num (length es)"
    using assms by (auto simp: lp_repr_def)
  have t: "0 \<le> lp_total es" "lp_total es < 2 ^ 32" using assms by (auto simp: lp_repr_def lp_total_def)
  have "bytes_at m 0 (le_bytes 4 (lp_total es))"
    unfolding m lp_image_def by (simp add: bytes_at_iff)
  then have "lpGetTotalBytes m = Some (lp_total es)" using lp_get_total [of m "lp_total es"] t by simp
  moreover have "bytes_at m 4 (le_bytes 2 num)"
    unfolding m lp_image_def by (simp add: bytes_at_iff)
  then have "lpGetNumElements m = Some (num mod 65536)" by (rule lp_get_num)
  moreover have "num mod 65536 = num" using num by (auto simp: lp_num_ok_def)
  ultimately show ?thesis using that num by simp
qed

lemma lp_repr_total: "lp_repr m es \<Longrightarrow> lpGetTotalBytes m = Some (lp_total es)"
  using lp_repr_header by blast

lemma lp_repr_length: "lp_repr m es \<Longrightarrow> lp_total es \<le> int (length m)"
  by (auto simp: lp_repr_def lp_image_def lp_total_def)

lemma lp_repr_at_gen:
  assumes "lp_repr m es" and "i \<le> length es"
  shows "bytes_at m (lp_off es i) (lp_body (drop i es) @ [LP_EOF])"
proof -
  obtain num rest where m: "m = lp_image num es @ rest" using assms by (auto simp: lp_repr_def)
  have "m = (le_bytes 4 (lp_total es) @ le_bytes 2 num @ lp_body (take i es)) @
    (lp_body (drop i es) @ [LP_EOF]) @ rest"
    unfolding m lp_image_def using lp_body_split [OF assms(2)] by simp
  then show ?thesis by (simp only:) (rule bytes_at_mid, simp add: lp_off_def)
qed

lemma lp_repr_at:
  assumes "lp_repr m es" and "i < length es"
  shows "bytes_at m (lp_off es i) (lp_bytes (es ! i))"
proof -
  have "drop i es = es ! i # drop (Suc i) es" using assms(2) by (simp add: Cons_nth_drop_Suc)
  then show ?thesis
    using lp_repr_at_gen [of m es i] assms by (simp add: bytes_at_append)
qed

lemma lp_repr_eof: "lp_repr m es \<Longrightarrow> rd m (lp_off es (length es)) = Some LP_EOF"
  using lp_repr_at_gen [of m es "length es"] by simp

lemma lp_repr_ok: "lp_repr m es \<Longrightarrow> i < length es \<Longrightarrow> lp_ok (es ! i)"
  by (auto simp: lp_repr_def)

lemma lp_repr_reads:
  assumes "lp_repr m es" and "i < length es"
  shows "lp_reads m (lp_off es i) (int (length (lp_enc (es ! i)))) (lp_value (es ! i) (lp_off es i))"
  using lp_repr_at [OF assms] lp_repr_ok [OF assms]
  by (intro lp_enc_reads) (auto simp: lp_bytes_def bytes_at_append)

section \<open>Traversal\<close>

lemma lpSkip_off:
  assumes "lp_repr m es" and "i < length es"
  shows "lpSkip m (lp_off es i) = Some (lp_off es (Suc i))"
  using lp_repr_reads [OF assms] assms(2)
  by (simp add: lpSkip_def lp_reads_def lp_off_Suc length_lp_bytes)

lemma lpDecodeBacklen_off:
  assumes "lp_repr m es" and "i < length es"
  shows "lpDecodeBacklen m (lp_off es (Suc i) - 1) = Some (int (length (lp_enc (es ! i))))"
proof (rule lpDecodeBacklen_encode)
  let ?n = "int (length (lp_enc (es ! i)))"
  have n: "?n < 2 ^ 32" using lp_enc_length lp_repr_ok [OF assms] by blast
  then show "?n < 2 ^ 35" by simp
  have "lp_off es (Suc i) - 1 - lpEncodeBacklenBytes ?n + 1 = lp_off es i + ?n"
    using assms(2) by (simp add: lp_off_Suc length_lp_bytes)
  then show "bytes_at m (lp_off es (Suc i) - 1 - lpEncodeBacklenBytes ?n + 1) (lpEncodeBacklen ?n)"
    using lp_repr_at [OF assms] by (simp add: lp_bytes_def bytes_at_append)
qed simp

lemma lpValidateNext_off:
  assumes "lp_repr m es" and "i < length es"
  shows "lpValidateNext m (Some (lp_off es i)) (lp_total es) = Some (True, Some (lp_off es (Suc i)))"
proof -
  let ?n = "int (length (lp_enc (es ! i)))"
  let ?b = "lpEncodeBacklenBytes ?n"
  obtain b where b: "rd m (lp_off es i) = Some b" "b \<noteq> LP_EOF" "0 < lpCurrentEncodedSizeBytes b"
    "lpCurrentEncodedSizeBytes b \<le> ?n" and sz: "lpCurrentEncodedSizeUnsafe m (lp_off es i) = Some ?n"
    using lp_repr_reads [OF assms] by (auto simp: lp_reads_def)
  have suc: "lp_off es (Suc i) = lp_off es i + (?n + ?b)"
    using assms(2) by (simp add: lp_off_Suc length_lp_bytes)
  have le: "lp_off es (Suc i) \<le> lp_total es - 1" using assms(2) by (intro lp_off_le) simp
  have ge: "6 \<le> lp_off es i" by (simp add: lp_off_def)
  have bl: "1 \<le> ?b" "?b \<le> 5" using lpEncodeBacklenBytes_range [of ?n] by auto
  have n: "?n < 2 ^ 32" using lp_enc_length lp_repr_ok [OF assms] by blast
  have "u64 (?n + ?b) = ?n + ?b" using n bl by (intro u64_id) auto
  moreover have "lpDecodeBacklen m (lp_off es i + (?n + ?b) - 1) = Some ?n"
    using lpDecodeBacklen_off [OF assms] by (simp add: suc)
  ultimately show ?thesis
    using b le ge bl
    by (simp add: lpValidateNext_def OUT_OF_RANGE_def sz suc Let_def)
qed

lemma lpAssertValidEntry_off:
  "lp_repr m es \<Longrightarrow> i < length es \<Longrightarrow> lpAssertValidEntry m (lp_total es) (lp_off es i) = Some ()"
  by (simp add: lpAssertValidEntry_def lpValidateNext_off)

text \<open>The pointer to element \<open>i\<close>, \<open>NULL\<close> past the end.\<close>

definition lp_ptr :: "listpackEntry list \<Rightarrow> nat \<Rightarrow> int option" where
  "lp_ptr es i = (if i < length es then Some (lp_off es i) else None)"

lemma rd_off:
  assumes "lp_repr m es" and "i \<le> length es"
  obtains b where "rd m (lp_off es i) = Some b" and "b = LP_EOF \<longleftrightarrow> i = length es"
proof (cases "i = length es")
  case True
  then show ?thesis using that lp_repr_eof [OF assms(1)] by blast
next
  case False
  then show ?thesis using that lp_repr_reads [of m es i] assms by (auto simp: lp_reads_def)
qed

lemma lpNextWithBytes_off:
  assumes "lp_repr m es" and "i < length es"
  shows "lpNextWithBytes m (lp_off es i) (lp_total es) = Some (lp_ptr es (Suc i))"
proof -
  have "Suc i \<le> length es" using assms(2) by simp
  then obtain b where "rd m (lp_off es (Suc i)) = Some b" "b = LP_EOF \<longleftrightarrow> Suc i = length es"
    by (rule rd_off [OF assms(1)])
  then show ?thesis using assms
    by (auto simp: lpNextWithBytes_def lpSkip_off lp_ptr_def lpAssertValidEntry_off)
qed

lemma lpNext_off:
  assumes "lp_repr m es" and "i < length es"
  shows "lpNext m (lp_off es i) = Some (lp_ptr es (Suc i))"
proof -
  have "lpNext m (lp_off es i) = lpNextWithBytes m (lp_off es i) (lp_total es)"
    unfolding lpNext_def lpNextWithBytes_def lpBytes_def lp_repr_total [OF assms(1)]
    by (simp cong: if_cong)
  then show ?thesis using assms by (simp add: lpNextWithBytes_off)
qed

lemma lpFirst_off:
  assumes "lp_repr m es"
  shows "lpFirst m = Some (lp_ptr es 0)"
proof -
  obtain b where "rd m (lp_off es 0) = Some b" "b = LP_EOF \<longleftrightarrow> 0 = length es"
    using rd_off [OF assms, of 0] by blast
  then show ?thesis
    using assms lp_repr_total [OF assms] lpAssertValidEntry_off [OF assms, of 0]
    by (auto simp: lpFirst_def lpBytes_def lp_ptr_def)
qed

lemma lp_off_pos: "lp_repr m es \<Longrightarrow> 0 < i \<Longrightarrow> i \<le> length es \<Longrightarrow> 6 < lp_off es i"
proof (cases i)
  case (Suc j)
  assume "lp_repr m es" "i \<le> length es"
  then have "j < length es" using Suc by simp
  then show ?thesis
    using Suc lp_off_Suc [of j es] lp_bytes_pos [OF lp_repr_ok [OF \<open>lp_repr m es\<close> \<open>j < length es\<close>]]
    by (simp add: lp_off_def del: length_greater_0_conv)
qed simp

lemma lpPrev_off:
  assumes "lp_repr m es" and "i \<le> length es"
  shows "lpPrev m (lp_off es i) = Some (if i = 0 then None else Some (lp_off es (i - 1)))"
proof (cases i)
  case 0
  then show ?thesis by (simp add: lpPrev_def)
next
  case (Suc j)
  then have j: "j < length es" using assms by simp
  let ?n = "int (length (lp_enc (es ! j)))"
  have n: "0 < ?n" "?n < 2 ^ 32" using lp_enc_length lp_repr_ok [OF assms(1) j] by auto
  have "u64 (?n + lpEncodeBacklenBytes ?n) = ?n + lpEncodeBacklenBytes ?n"
    using n lpEncodeBacklenBytes_range [of ?n] by (intro u64_id) auto
  moreover have "lp_off es (Suc j) - (?n + lpEncodeBacklenBytes ?n) = lp_off es j"
    using j by (simp add: lp_off_Suc length_lp_bytes)
  moreover have "lp_off es (Suc j) \<noteq> 6" using lp_off_pos [OF assms(1), of "Suc j"] j by simp
  ultimately show ?thesis
    using Suc lpDecodeBacklen_off [OF assms(1) j] lpAssertValidEntry_off [OF assms(1) j]
      lp_repr_total [OF assms(1)]
    by (simp add: lpPrev_def lpBytes_def Let_def)
qed

lemma lpLast_off:
  "lp_repr m es \<Longrightarrow> lpLast m = Some (if es = [] then None else Some (lp_off es (length es - 1)))"
  using lpPrev_off [of m es "length es"] lp_repr_total [of m es] lp_off_length [of es]
  by (simp add: lpLast_def)

lemma lpSeek_forward_off:
  "lp_repr m es \<Longrightarrow> i \<le> length es \<Longrightarrow>
   lpSeek_forward m n (lp_ptr es i) = Some (lp_ptr es (i + n))"
proof (induction n arbitrary: i)
  case (Suc n)
  show ?case
  proof (cases "i < length es")
    case True
    then have "lp_ptr es i = Some (lp_off es i)" by (simp add: lp_ptr_def)
    then show ?thesis using Suc.prems Suc.IH [of "Suc i"] True by (simp add: lpNext_off)
  qed (simp add: lp_ptr_def)
qed simp

lemma lpSeek_backward_off:
  "lp_repr m es \<Longrightarrow> i < length es \<Longrightarrow>
   lpSeek_backward m n (Some (lp_off es i)) =
     Some (if n \<le> i then Some (lp_off es (i - n)) else None)"
proof (induction n arbitrary: i)
  case (Suc n)
  show ?case
  proof (cases i)
    case 0
    then show ?thesis using Suc.prems lpPrev_off [of m es 0] by (cases n) simp_all
  next
    case (Suc j)
    then show ?thesis using Suc.prems Suc.IH [of j] lpPrev_off [of m es i] by simp
  qed
qed simp

section \<open>Length and seek\<close>

lemma lp_body_ge: "\<forall>e \<in> set es. lp_ok e \<Longrightarrow> 2 * length es \<le> length (lp_body es)"
proof (induction es)
  case (Cons e es)
  have "0 < length (lp_enc e)" using lp_enc_length [of e] Cons.prems by simp
  moreover have "1 \<le> length (lpEncodeBacklen (int (length (lp_enc e))))"
    using lpEncodeBacklenBytes_range length_lpEncodeBacklen by (metis of_nat_1 of_nat_le_iff)
  ultimately have "2 \<le> length (lp_bytes e)" unfolding lp_bytes_def length_append by linarith
  then show ?case using Cons by simp
qed simp

lemma lp_repr_count: "lp_repr m es \<Longrightarrow> int (length es) < 2 ^ 31"
  using lp_body_ge [of es] by (auto simp: lp_repr_def lp_total_def)

lemma lpLength_loop_off:
  assumes "lp_repr m es" and "i \<le> length es" and "0 \<le> c" and "c + int (length es - i) < 2 ^ 32"
  shows "lpLength_loop m (lp_ptr es i) c = Some (c + int (length es - i))"
  using assms(2-)
proof (induction "length es - i" arbitrary: i c)
  case 0
  then show ?case by (simp add: lpLength_loop.simps lp_ptr_def)
next
  case (Suc k)
  then have i: "i < length es" by simp
  then have "lp_ptr es i = Some (lp_off es i)" by (simp add: lp_ptr_def)
  moreover have "u32 (c + 1) = c + 1" using Suc i by (simp add: u32_def)
  ultimately have "lpLength_loop m (lp_ptr es i) c = lpLength_loop m (lp_ptr es (Suc i)) (c + 1)"
    using lpNext_off [OF assms(1) i] by (subst lpLength_loop.simps) simp
  also have "\<dots> = Some (c + 1 + int (length es - Suc i))" using Suc i by simp
  finally show ?case using i by simp
qed

text \<open>The count of the header can be replaced: only \<open>lpLength\<close> and the edits write it.\<close>

lemma lp_set_num_repr:
  assumes "lp_repr m es" and "lp_num_ok n (length es)"
  shows "\<exists>m'. lpSetNumElements m n = Some m' \<and> lp_repr m' es"
proof -
  obtain num rest where "m = lp_image num es @ rest" using assms by (auto simp: lp_repr_def)
  then have "lpSetNumElements m n = Some (lp_image n es @ rest)"
    using lp_set_num [of "le_bytes 4 (lp_total es)" "le_bytes 2 num"] by (simp add: lp_image_def)
  then show ?thesis using assms by (auto simp: lp_repr_def)
qed

lemma lpLength_off:
  assumes "lp_repr m es"
  shows "\<exists>m'. lpLength m = Some (m', int (length es)) \<and> lp_repr m' es"
proof -
  obtain num where num: "lpGetNumElements m = Some num" "lp_num_ok num (length es)"
    using lp_repr_header [OF assms] by blast
  show ?thesis
  proof (cases "num = LP_HDR_NUMELE_UNKNOWN")
    case True
    have loop: "lpLength_loop m (lp_ptr es 0) 0 = Some (int (length es))"
      using lpLength_loop_off [OF assms, of 0 0] lp_repr_count [OF assms] by simp
    show ?thesis
    proof (cases "int (length es) < LP_HDR_NUMELE_UNKNOWN")
      case small: True
      then obtain m' where "lpSetNumElements m (int (length es)) = Some m'" "lp_repr m' es"
        using lp_set_num_repr [OF assms, of "int (length es)"] by (auto simp: lp_num_ok_def)
      then show ?thesis using True num loop small lpFirst_off [OF assms]
        by (simp add: lpLength_def)
    next
      case False
      then show ?thesis using True num loop assms lpFirst_off [OF assms]
        by (simp add: lpLength_def)
    qed
  next
    case False
    then show ?thesis using num assms by (auto simp: lpLength_def lp_num_ok_def)
  qed
qed

text \<open>\<open>lpSeek\<close> on a list: an index from the end when negative.\<close>

definition lp_index :: "listpackEntry list \<Rightarrow> int \<Rightarrow> int option" where
  "lp_index es k =
     (let j = (if k < 0 then int (length es) + k else k)
      in if 0 \<le> j \<and> j < int (length es) then Some (lp_off es (nat j)) else None)"

lemma lpSeek_scan_off:
  assumes "lp_repr m es"
  shows "lpSeek_scan m (\<not> k < 0) k = Some (lp_index es k)"
proof (cases "k < 0")
  case True
  let ?n = "nat (- 1 - k)"
  show ?thesis
  proof (cases "es = []")
    case True
    then show ?thesis using lpLast_off [OF assms] \<open>k < 0\<close>
      by (cases ?n) (simp_all add: lpSeek_scan_def lp_index_def)
  next
    case False
    then have "length es - 1 < length es" by simp
    note bk = lpSeek_backward_off [OF assms this, of ?n]
    have eq: "?n \<le> length es - 1 \<longleftrightarrow> 0 \<le> int (length es) + k"
      using True False by (cases es) auto
    have "length es - 1 - ?n = nat (int (length es) + k)" if "0 \<le> int (length es) + k"
      using True that by auto
    then show ?thesis
      using True False lpLast_off [OF assms] bk eq
      by (simp add: lpSeek_scan_def lp_index_def)
  qed
next
  case False
  then show ?thesis
    using lpFirst_off [OF assms] lpSeek_forward_off [OF assms, of 0 "nat k"]
    by (auto simp: lpSeek_scan_def lp_index_def lp_ptr_def)
qed

lemma lpSeek_off:
  assumes "lp_repr m es"
  shows "lpSeek m k = Some (lp_index es k)"
proof -
  obtain num where num: "lpGetNumElements m = Some num" "lp_num_ok num (length es)"
    using lp_repr_header [OF assms] by blast
  show ?thesis
  proof (cases "num = LP_HDR_NUMELE_UNKNOWN")
    case True
    then show ?thesis using num lpSeek_scan_off [OF assms, of k] by (simp add: lpSeek_def)
  next
    case False
    then have n: "num = int (length es)" using num by (simp add: lp_num_ok_def)
    define j where "j = (if k < 0 then num + k else k)"
    have "lpSeek m k = (if j < 0 then Some None else if j \<ge> num then Some None
      else if j > num div 2 then lpSeek_scan m False (j - num) else lpSeek_scan m True j)"
      using num False by (simp add: lpSeek_def j_def)
    moreover have "lp_index es k = (if 0 \<le> j \<and> j < num then lp_index es j else None)"
      by (auto simp: lp_index_def j_def n)
    moreover have "lp_index es (j - num) = lp_index es j" if "0 \<le> j" "j < num"
      using that by (simp add: lp_index_def n)
    ultimately show ?thesis
      using lpSeek_scan_off [OF assms, of j] lpSeek_scan_off [OF assms, of "j - num"] by auto
  qed
qed

end
