(* ===== verification/Listpack_Find.thy ===== *)
theory Listpack_Find
  imports Listpack_Layout
begin

text \<open>
  Reading and searching a listpack as a list of strings. The string of an element is the stored
  string or the decimal notation of the stored integer; \<open>lpFind\<close> and \<open>lpCompare\<close>, which
  compare integers as integers, decide equality of these strings.
\<close>

primrec lp_str :: "listpackEntry \<Rightarrow> byte list" where
  "lp_str (LpeStr s) = s"
| "lp_str (LpeInt v) = sdec v"

text \<open>The element a string is stored as.\<close>

definition lp_entry :: "byte list \<Rightarrow> listpackEntry" where
  "lp_entry s = (case string2ll s of Some v \<Rightarrow> LpeInt v | None \<Rightarrow> LpeStr s)"

lemma lp_str_entry [simp]: "lp_str (lp_entry s) = s"
  by (auto simp: lp_entry_def string2ll_iff split: option.split)

lemma lp_entry_str: "lp_ok e \<Longrightarrow> lp_entry (lp_str e) = e"
proof (cases e)
  case (LpeInt v)
  assume "lp_ok e"
  then have "string2ll (sdec v) = Some v" using LpeInt by (simp add: string2ll_iff)
  then show ?thesis using LpeInt by (simp add: lp_entry_def)
qed (simp add: lp_entry_def)

lemma lp_ok_entry: "int (length s) < 2 ^ 32 - 5 \<Longrightarrow> lp_ok (lp_entry s)"
proof (cases "string2ll s")
  case (Some v)
  then have "LLONG_MIN \<le> v \<and> v \<le> LLONG_MAX" by (auto simp: string2ll_iff)
  then show ?thesis using Some by (simp add: lp_entry_def)
qed (simp add: lp_entry_def)

lemma lp_str_int_iff: "lp_ok (LpeInt v) \<Longrightarrow> string2ll s = Some v \<longleftrightarrow> lp_str (LpeInt v) = s"
  by (auto simp: string2ll_iff)

section \<open>Reading an element as a string\<close>

text \<open>
  \<open>lpGet\<close> with a buffer of \<open>LP_INTBUF_SIZE\<close> bytes gives the string of the element: inside
  the listpack, or at the start of the buffer.
\<close>

definition lp_gets :: "mem \<Rightarrow> lpval \<Rightarrow> byte list \<Rightarrow> bool" where
  "lp_gets m v s \<longleftrightarrow>
     (case v of
        LpString q n \<Rightarrow> n = int (length s) \<and> load m q (length s) = Some s
      | LpIntbuf buf n \<Rightarrow> take n buf = s
      | LpInteger _ \<Rightarrow> False)"

lemma lp_value_str_load:
  assumes "lp_repr m es" and "i < length es" and "es ! i = LpeStr s"
  shows "load m (lp_off es i + int (length (lpEncodeString s)) - int (length s)) (length s) = Some s"
proof -
  have "\<exists>h. lpEncodeString s = h @ s"
    unfolding lpEncodeString_def Let_def by (auto simp del: append_Cons append_Nil)
  then obtain h where h: "lpEncodeString s = h @ s" by blast
  have "bytes_at m (lp_off es i) (lpEncodeString s)"
    using lp_repr_at [OF assms(1,2)] assms(3) by (simp add: lp_bytes_def bytes_at_append)
  then have "bytes_at m (lp_off es i + int (length h)) s" by (simp add: h bytes_at_append)
  then show ?thesis using bytes_at_load by (simp add: h)
qed

lemma lpGet_off:
  assumes "lp_repr m es" and "i < length es"
  shows "lpGet m (lp_off es i) ib = lp_value (es ! i) (lp_off es i) ib"
  using lp_repr_reads [OF assms] by (simp add: lpGet_def lp_reads_def)

lemma lpGet_string:
  assumes "lp_repr m es" and "i < length es" and "LP_INTBUF_SIZE \<le> length buf"
  shows "\<exists>v. lpGet m (lp_off es i) (Some buf) = Some v \<and> lp_gets m v (lp_str (es ! i))"
proof (cases "es ! i")
  case (LpeStr s)
  then show ?thesis using lpGet_off [OF assms(1,2)] lp_value_str_load [OF assms(1,2)]
    by (simp add: lp_gets_def)
next
  case (LpeInt v)
  then have v: "LLONG_MIN \<le> v" "v \<le> LLONG_MAX" using lp_repr_ok [OF assms(1,2)] by auto
  then have "length (sdec v) < length buf" using sdec_length [of v] assms(3) by simp
  then show ?thesis using LpeInt lpGet_off [OF assms(1,2)] ll2string_ok [OF v] assms(3)
    by (simp add: lp_gets_def lp_return_int_def)
qed

section \<open>Searching\<close>

text \<open>The first element, from \<open>i\<close> on, whose string is \<open>s\<close>, with \<open>skip\<close> elements passed after each comparison.\<close>

fun lp_find :: "nat \<Rightarrow> byte list \<Rightarrow> nat \<Rightarrow> nat \<Rightarrow> listpackEntry list \<Rightarrow> nat option" where
  "lp_find skip s cnt i [] = None"
| "lp_find skip s 0 i (e # es) =
     (if lp_str e = s then Some i else lp_find skip s skip (Suc i) es)"
| "lp_find skip s (Suc cnt) i (e # es) = lp_find skip s cnt (Suc i) es"

definition find_arg_ok :: "byte list \<Rightarrow> lpFindArg \<Rightarrow> bool" where
  "find_arg_ok s arg \<longleftrightarrow> fa_s arg = s \<and>
     (fa_vencoding arg = 0 \<or> fa_vencoding arg = 1 \<and> string2ll s = Some (fa_vll arg) \<or>
      fa_vencoding arg = 255 \<and> string2ll s = None)"

lemma lpFindCmp_off:
  assumes "lp_repr m es" and "i < length es" and "find_arg_ok s arg"
  shows "\<exists>v arg'. lp_value (es ! i) (lp_off es i) None = Some v \<and>
    lpFindCmp m (lp_off es i) arg v = Some (arg', lp_str (es ! i) = s) \<and> find_arg_ok s arg'"
proof (cases "es ! i")
  case (LpeStr t)
  have "load m (lp_off es i + int (length (lpEncodeString t)) - int (length t)) (length t) = Some t"
    using lp_value_str_load [OF assms(1,2) LpeStr] .
  then show ?thesis using LpeStr assms(3)
    by (cases "length t = length s") (auto simp: lpFindCmp_def find_arg_ok_def)
next
  case (LpeInt v)
  have v: "string2ll s = Some v \<longleftrightarrow> lp_str (es ! i) = s"
    using lp_str_int_iff [of v s] lp_repr_ok [OF assms(1,2)] LpeInt by simp
  have long: "length s \<ge> 32 \<or> length s = 0 \<Longrightarrow> string2ll s = None"
    using string2ll_length [of s] by (cases "string2ll s") fastforce+
  show ?thesis
  proof (cases "string2ll s")
    case None
    then show ?thesis using LpeInt assms(3) v
      by (auto simp: lpFindCmp_def find_arg_ok_def lp_return_int_def lpStringToInt64_eq Let_def)
  next
    case (Some w)
    then have "\<not> (length s \<ge> 32 \<or> length s = 0)" using long by auto
    then show ?thesis using LpeInt assms(3) v Some
      by (auto simp: lpFindCmp_def find_arg_ok_def lp_return_int_def lpStringToInt64_eq Let_def)
  qed
qed

lemma lpFind_check_off:
  assumes "lp_repr m es" and "i \<le> length es"
  shows "lpFind_check m (lp_total es) (lp_off es i) = Some ()"
proof (cases "i = length es")
  case True
  then have "lpAssertValidEntry m (lp_total es) (lp_off es i) = Some ()"
    using lp_repr_eof [OF assms(1)]
    by (simp add: lpAssertValidEntry_def lpValidateNext_def OUT_OF_RANGE_def lp_off_length)
      (simp add: lp_total_def)
  then show ?thesis using True lp_off_length [of es] by (simp add: lpFind_check_def)
next
  case False
  then show ?thesis using assms lp_off_le [of i es]
    by (simp add: lpFind_check_def lpAssertValidEntry_off) (simp add: lp_off_def)
qed

lemma lpFind_step_off:
  assumes "lp_repr m es" and "i < length es" and "find_arg_ok s arg"
  shows "\<exists>arg' n. lpFind_step m (lp_total es) lpFindCmp skip (lp_off es i) cnt n0 arg =
      Some (if cnt = 0 \<and> lp_str (es ! i) = s then Inl (lp_off es i)
        else Inr (lp_off es (Suc i), if cnt = 0 then skip else cnt - 1, n), arg') \<and>
    find_arg_ok s arg'"
proof (cases cnt)
  case 0
  let ?n = "int (length (lp_bytes (es ! i)))"
  obtain v arg' where v: "lp_value (es ! i) (lp_off es i) None = Some v"
    "lpFindCmp m (lp_off es i) arg v = Some (arg', lp_str (es ! i) = s)" "find_arg_ok s arg'"
    using lpFindCmp_off [OF assms] by blast
  have "lpGetWithSize m (lp_off es i) None n0 = Some (v, ?n)"
    using lp_repr_reads [OF assms(1,2)] v(1) by (simp add: lp_reads_def length_lp_bytes)
  moreover have "6 \<le> lp_off es i" by (simp add: lp_off_def)
  moreover have "lp_off es i + ?n < lp_total es"
    using lp_off_le [of "Suc i" es] lp_off_Suc [of i es] assms(2) by simp
  ultimately show ?thesis
    using 0 v assms(2)
    by (cases v) (auto simp: lpFind_step_def lp_off_Suc)
next
  case (Suc c)
  then show ?thesis using assms by (auto simp: lpFind_step_def lpSkip_off)
qed

lemma lpFind_loop_off:
  assumes "lp_repr m es" and "i < length es" and "find_arg_ok s arg"
  shows "\<exists>arg'. lpFind_loop m (lp_total es) lpFindCmp skip (lp_off es i) cnt n arg =
    Some (map_option (lp_off es) (lp_find skip s cnt i (drop i es)), arg')"
  using assms(2,3)
proof (induction "length es - i" arbitrary: i cnt n arg)
  case (Suc k)
  obtain arg' n' where st: "lpFind_step m (lp_total es) lpFindCmp skip (lp_off es i) cnt n arg =
      Some (if cnt = 0 \<and> lp_str (es ! i) = s then Inl (lp_off es i)
        else Inr (lp_off es (Suc i), if cnt = 0 then skip else cnt - 1, n'), arg')"
    and arg: "find_arg_ok s arg'"
    using lpFind_step_off [OF assms(1) Suc.prems] by blast
  have dr: "drop i es = es ! i # drop (Suc i) es" using Suc.prems by (simp add: Cons_nth_drop_Suc)
  show ?case
  proof (cases "cnt = 0 \<and> lp_str (es ! i) = s")
    case True
    then show ?thesis using st dr by (subst lpFind_loop.simps) simp
  next
    case False
    let ?cnt = "if cnt = 0 then skip else cnt - 1"
    have sp: "lp_find skip s cnt i (drop i es) = lp_find skip s ?cnt (Suc i) (drop (Suc i) es)"
      using False dr by (cases cnt) auto
    have i: "Suc i \<le> length es" using Suc.prems by simp
    then obtain b where b: "rd m (lp_off es (Suc i)) = Some b" "b = LP_EOF \<longleftrightarrow> Suc i = length es"
      by (rule rd_off [OF assms(1)])
    show ?thesis
    proof (cases "Suc i = length es")
      case True
      then show ?thesis
        using st False b lpFind_check_off [OF assms(1) i] sp
        by (subst lpFind_loop.simps) simp
    next
      case more: False
      then have "lpFind_loop m (lp_total es) lpFindCmp skip (lp_off es i) cnt n arg =
        lpFind_loop m (lp_total es) lpFindCmp skip (lp_off es (Suc i)) ?cnt n' arg'"
        using st False b lpFind_check_off [OF assms(1) i]
        by (subst lpFind_loop.simps) simp
      then show ?thesis using Suc.hyps(1) [of "Suc i" arg' ?cnt n'] Suc.hyps(2) arg more i sp by simp
    qed
  qed
qed simp

lemma lpFind_off:
  assumes "lp_repr m es" and "i \<le> length es"
  shows "lpFind m None s skip = Some (map_option (lp_off es) (lp_find skip s 0 0 es))"
    and "i < length es \<Longrightarrow>
      lpFind m (Some (lp_off es i)) s skip = Some (map_option (lp_off es) (lp_find skip s 0 i (drop i es)))"
proof -
  let ?arg = "\<lparr>fa_s = s, fa_vencoding = 0, fa_vll = 0\<rparr>"
  have arg: "find_arg_ok s ?arg" by (simp add: find_arg_ok_def)
  note tot = lp_repr_total [OF assms(1)]
  show "lpFind m (Some (lp_off es i)) s skip =
    Some (map_option (lp_off es) (lp_find skip s 0 i (drop i es)))" if "i < length es"
    using lpFind_loop_off [OF assms(1) that arg, of skip 0 123456789] tot
    by (auto simp: lpFind_def lpFindCbInternal_def lpBytes_def)
  show "lpFind m None s skip = Some (map_option (lp_off es) (lp_find skip s 0 0 es))"
  proof (cases "es = []")
    case True
    then show ?thesis using lpFirst_off [OF assms(1)] tot
      by (simp add: lpFind_def lpFindCbInternal_def lpBytes_def lp_ptr_def)
  next
    case False
    then show ?thesis
      using lpFind_loop_off [OF assms(1) _ arg, of 0 skip 0 123456789] lpFirst_off [OF assms(1)] tot
      by (auto simp: lpFind_def lpFindCbInternal_def lpBytes_def lp_ptr_def)
  qed
qed

text \<open>\<open>lpCompare\<close> with or without a cache decides equality with the string of the element.\<close>

definition cmp_cache_ok :: "byte list \<Rightarrow> (int \<times> int) option \<Rightarrow> bool" where
  "cmp_cache_ok s cache \<longleftrightarrow>
     (case cache of
        None \<Rightarrow> True
      | Some (v, valid) \<Rightarrow> valid = 0 \<or> valid = 1 \<and> string2ll s = Some v \<or>
          valid = - 1 \<and> string2ll s = None)"

lemma lpCompare_off:
  assumes "lp_repr m es" and "i < length es" and "cmp_cache_ok s cache"
  shows "\<exists>cache'. lpCompare m (lp_off es i) s cache = Some (lp_str (es ! i) = s, cache') \<and>
    cmp_cache_ok s cache'"
proof -
  have "i \<le> length es" using assms(2) by simp
  then obtain b where b: "rd m (lp_off es i) = Some b" "b \<noteq> LP_EOF"
    using rd_off [OF assms(1)] assms(2) by blast
  note get = lpGet_off [OF assms(1,2), of None]
  show ?thesis
  proof (cases "es ! i")
    case (LpeStr t)
    then show ?thesis using b get lp_value_str_load [OF assms(1,2) LpeStr] assms(3)
      by (cases "length s = length t") (auto simp: lpCompare_def)
  next
    case (LpeInt v)
    have v: "string2ll s = Some v \<longleftrightarrow> sdec v = s"
      using lp_str_int_iff [of v s] lp_repr_ok [OF assms(1,2)] LpeInt by simp
    show ?thesis
      using b get LpeInt v assms(3)
      by (cases "string2ll s"; cases cache)
        (auto simp: lpCompare_def lp_return_int_def lpStringToInt64_eq cmp_cache_ok_def)
  qed
qed

end
