(* ===== verification/Listpack_Insert.thy ===== *)
theory Listpack_Insert
  imports Listpack_Find Interfaces
begin

text \<open>
  The editing operations on a listpack refine the list operations they are named after: on a block
  that holds a list of elements, insertion, replacement, deletion, batches, ranges and merge give a
  block that holds the edited list, without an access outside the block or a failed assertion.
\<close>

section \<open>Moving the tail\<close>

text \<open>
  The pattern of every edit: the bytes \<open>X\<close> between \<open>pre\<close> and the tail \<open>B\<close> become
  room for \<open>n\<close> bytes, with a reallocation before when the block grows and after when it
  shrinks.
\<close>

lemma lp_splice:
  assumes m: "m = pre @ X @ B @ sl"
    and N: "N = int (length pre) + int n + int (length B)"
    and old: "old = int (length pre) + int (length X) + int (length B)"
    and m1: "m1 = (if N > old \<and> N > int (length m) then realloc a m (nat N) else m)"
  shows "\<exists>m2 Z rest. memmove_int m1 (int (length pre) + int n) (int (length pre) + int (length X))
      (int (length B)) = Some m2 \<and>
    (if N < old then realloc a m2 (nat N) else m2) = pre @ Z @ B @ rest \<and> length Z = n"
proof -
  obtain sl' where m1': "m1 = pre @ X @ B @ sl'" and len: "N \<le> int (length m1)"
  proof (cases "N > old \<and> N > int (length m)")
    case True
    then have "length m \<le> nat N" by auto
    then show ?thesis
      using that [of "sl @ map (junk a) [length m ..< nat N + slack a (nat N)]"] True
      by (simp add: m1 m realloc_def min_def)
  next
    case False
    then have "N \<le> int (length m)" using m old by auto
    then show ?thesis using that [of sl] False by (simp add: m1 m)
  qed
  let ?d = "length pre + n" and ?s = "length pre + length X"
  have "memmove_int m1 (int ?d) (int ?s) (int (length B)) =
    Some (take ?d m1 @ take (length B) (drop ?s m1) @ drop (?d + length B) m1)"
    using len N by (simp only: memmove_int_def) (simp add: memmove_nat m1' del: of_nat_add)
  moreover have "take (length B) (drop ?s m1) = B" by (simp add: m1')
  ultimately have mv: "memmove_int m1 (int (length pre) + int n) (int (length pre) + int (length X))
    (int (length B)) = Some (take ?d m1 @ B @ drop (?d + length B) m1)" by simp
  have "take ?d m1 = pre @ take n (X @ B @ sl')" by (simp add: m1')
  moreover have "length (take n (X @ B @ sl')) = n" using len N by (simp add: m1')
  ultimately obtain Z where Z: "take ?d m1 = pre @ Z" "length Z = n" by blast
  show ?thesis
  proof (cases "N < old")
    case True
    have "nat N = length pre + length Z + length B" using N Z by simp
    then show ?thesis using True mv Z by (auto simp: realloc_def)
  next
    case False
    then show ?thesis using mv Z by auto
  qed
qed

lemma store_room:
  assumes "length Z = length x + length y"
  shows "Option.bind (store (pre @ Z @ rest) (int (length pre)) x)
      (\<lambda>m. store m (int (length pre) + int (length x)) y) = Some (pre @ x @ y @ rest)"
proof -
  have "store (pre @ Z @ rest) (int (length pre)) x = Some (pre @ x @ drop (length x) Z @ rest)"
    using assms by (simp add: store_nat)
  moreover have "store (pre @ x @ drop (length x) Z @ rest) (int (length pre + length x)) y =
    Some (pre @ x @ y @ rest)"
    using assms by (subst store_nat) simp_all
  ultimately show ?thesis by simp
qed

lemma lpInsert_move_ok:
  assumes m: "m = pre @ X @ B @ sl"
    and w: "w = LP_BEFORE \<longrightarrow> X = []"
    and old: "old = int (length pre) + int (length X) + int (length B)"
    and N: "N = int (length pre) + enclen + bl + int (length B)"
    and n: "0 \<le> enclen" "0 \<le> bl"
  shows "\<exists>Z rest. lpInsert_move a m w (int (length pre)) enclen bl (int (length X)) old N =
    Some (pre @ Z @ B @ rest) \<and> int (length Z) = enclen + bl"
proof -
  let ?n = "nat (enclen + bl)"
  have n': "int ?n = enclen + bl" using n by simp
  have N': "N = int (length pre) + int ?n + int (length B)" using N n' by simp
  let ?m1 = "if N > old \<and> N > int (length m) then realloc a m (nat N) else m"
  obtain m2 Z rest where sp: "memmove_int ?m1 (int (length pre) + int ?n)
      (int (length pre) + int (length X)) (int (length B)) = Some m2"
    "(if N < old then realloc a m2 (nat N) else m2) = pre @ Z @ B @ rest" "length Z = ?n"
    using lp_splice [OF m N' old refl] by blast
  have p1: "int (length pre) + int ?n = int (length pre) + enclen + bl"
    and cnt: "old - int (length pre) - int (length X) = int (length B)"
    using n' old by simp_all
  then have "memmove_int ?m1 (int (length pre) + enclen + bl)
      (int (length pre) + int (length X)) (old - int (length pre) - int (length X)) = Some m2"
    using sp(1) by (simp only: p1 cnt)
  then have "(if w = LP_BEFORE
     then memmove_int ?m1 (int (length pre) + enclen + bl) (int (length pre)) (old - int (length pre))
     else memmove_int ?m1 (int (length pre) + enclen + bl) (int (length pre) + int (length X))
       (old - int (length pre) - int (length X))) = Some m2"
    using w by auto
  then have "lpInsert_move a m w (int (length pre)) enclen bl (int (length X)) old N =
    Some (pre @ Z @ B @ rest)"
    using sp(2) by (simp add: lpInsert_move_def)
  then show ?thesis using sp(3) n' by auto
qed

section \<open>The header\<close>

lemma lpGetNumElements_image:
  assumes "lp_num_ok num n"
  shows "lpGetNumElements (le_bytes 4 t @ le_bytes 2 num @ rest) = Some num"
proof -
  have "bytes_at (le_bytes 4 t @ le_bytes 2 num @ rest) 4 (le_bytes 2 num)"
    by (simp add: bytes_at_iff)
  then show ?thesis using lp_get_num [of _ num] assms by (auto simp: lp_num_ok_def)
qed

definition lp_count :: "lp_where \<Rightarrow> bool \<Rightarrow> nat \<Rightarrow> nat" where
  "lp_count w del n = (if del then n - 1 else if w = LP_REPLACE then n else n + 1)"

lemma lpInsert_header_ok:
  assumes "lp_num_ok num n" and "del \<longrightarrow> 0 < n"
  shows "\<exists>num'. lpInsert_header (le_bytes 4 t @ le_bytes 2 num @ rest) w del N =
      Some (le_bytes 4 N @ le_bytes 2 num' @ rest) \<and> lp_num_ok num' (lp_count w del n)"
proof (cases "(w \<noteq> LP_REPLACE \<or> del) \<and> num \<noteq> LP_HDR_NUMELE_UNKNOWN")
  case True
  then have num: "num = int n" "n < 65535" using assms by (auto simp: lp_num_ok_def)
  let ?k = "if \<not> del then u32 (num + 1) else u32 (num - 1)"
  have k: "?k = int (lp_count w del n)" and ok: "lp_num_ok ?k (lp_count w del n)"
    using num True assms(2) by (auto simp: lp_count_def lp_num_ok_def u32_def)
  have "lpInsert_header (le_bytes 4 t @ le_bytes 2 num @ rest) w del N =
    lpSetTotalBytes (le_bytes 4 t @ le_bytes 2 ?k @ rest) N"
    using True lp_set_num [of "le_bytes 4 t" "le_bytes 2 num" rest ?k]
    by (simp add: lpInsert_header_def lpGetNumElements_image [OF assms(1)])
  then show ?thesis using ok lp_set_total [of "le_bytes 4 t" "le_bytes 2 ?k @ rest" N] by auto
next
  case False
  then have "lpInsert_header (le_bytes 4 t @ le_bytes 2 num @ rest) w del N =
    lpSetTotalBytes (le_bytes 4 t @ le_bytes 2 num @ rest) N"
    by (auto simp: lpInsert_header_def lpGetNumElements_image [OF assms(1)])
  moreover have "lp_num_ok num (lp_count w del n)"
    using False assms by (auto simp: lp_count_def lp_num_ok_def)
  ultimately show ?thesis using lp_set_total [of "le_bytes 4 t"] by auto
qed

section \<open>Insertion, replacement and deletion\<close>

lemma lp_new_element_str:
  "lp_new_element (Some s) None = (lp_enc (lp_entry s), int (length (lp_enc (lp_entry s))))"
  by (simp add: lp_new_element_def lpEncodeGetType_def lp_entry_def lpStringToInt64_eq
      lpEncodeString_def Let_def split: option.split)

lemma lp_new_element_int:
  "lp_new_element None (Some (lpEncodeIntegerGetType v)) =
    (lp_enc (LpeInt v), int (length (lp_enc (LpeInt v))))"
  by (simp add: lp_new_element_def)

text \<open>The two ways the callers name a new element.\<close>

definition lp_names :: "byte list option \<Rightarrow> byte list option \<Rightarrow> listpackEntry \<Rightarrow> bool" where
  "lp_names elestr eleint e \<longleftrightarrow> \<not> (elestr = None \<and> eleint = None) \<and>
     lp_new_element elestr eleint = (lp_enc e, int (length (lp_enc e)))"

lemma lp_names_str: "lp_names (Some s) None (lp_entry s)"
  by (simp add: lp_names_def lp_new_element_str)

lemma lp_names_int: "lp_names None (Some (lpEncodeIntegerGetType v)) (LpeInt v)"
  by (simp add: lp_names_def lp_new_element_int)

text \<open>The split of the block at element \<open>i\<close>, and how to put an edited one together.\<close>

lemma lp_repr_split:
  assumes "lp_repr m es" and "i \<le> length es"
  obtains num A sl where "lp_num_ok num (length es)"
    and "A = le_bytes 4 (lp_total es) @ le_bytes 2 num @ lp_body (take i es)"
    and "m = A @ lp_body (drop i es) @ [LP_EOF] @ sl" and "int (length A) = lp_off es i"
proof -
  obtain num rest where m: "m = lp_image num es @ rest" "lp_num_ok num (length es)"
    using assms by (auto simp: lp_repr_def)
  then show ?thesis
    using that [of num "le_bytes 4 (lp_total es) @ le_bytes 2 num @ lp_body (take i es)" rest]
      lp_body_split [OF assms(2)]
    by (simp add: lp_image_def lp_off_def)
qed

lemma lp_repr_join:
  assumes "m = le_bytes 4 (lp_total fs) @ le_bytes 2 num @ lp_body fs @ [LP_EOF] @ rest"
    and "lp_num_ok num (length fs)" and "lp_total fs < 2 ^ 32" and "\<forall>e \<in> set fs. lp_ok e"
  shows "lp_repr m fs"
  using assms by (auto simp: lp_repr_def lp_image_def)

lemma lp_total_less: "lp_repr m es \<Longrightarrow> 7 \<le> lp_total es \<and> lp_total es < 2 ^ 32"
  by (auto simp: lp_repr_def lp_total_def)

lemma lp_bytes_less: "lp_ok e \<Longrightarrow> 0 < int (length (lp_bytes e)) \<and> int (length (lp_bytes e)) < 2 ^ 32 + 5"
  using lp_enc_length [of e] lpEncodeBacklenBytes_range [of "int (length (lp_enc e))"]
  by (simp add: length_lp_bytes)

lemma rd_body:
  assumes "\<forall>e \<in> set ds. lp_ok e"
  shows "\<exists>b. rd (A @ lp_body ds @ [LP_EOF] @ rest) (int (length A)) = Some b \<and> (b = LP_EOF \<longleftrightarrow> ds = [])"
proof (cases ds)
  case Nil
  then show ?thesis by (simp add: rd_def)
next
  case (Cons d ds')
  let ?m = "A @ lp_enc d @ (lpEncodeBacklen (int (length (lp_enc d))) @ lp_body ds' @ [LP_EOF] @ rest)"
  have "lp_reads ?m (int (length A)) (int (length (lp_enc d))) (lp_value d (int (length A)))"
    using assms Cons by (intro lp_enc_reads bytes_at_split) auto
  then show ?thesis using Cons by (auto simp: lp_reads_def lp_bytes_def)
qed

text \<open>The block cut into what stays in front, the elements from \<open>i\<close> up to \<open>j\<close>, and the tail.\<close>

definition lp_seg :: "listpackEntry list \<Rightarrow> nat \<Rightarrow> nat \<Rightarrow> byte list" where
  "lp_seg es i j = lp_body (take (j - i) (drop i es))"

definition lp_tail :: "listpackEntry list \<Rightarrow> nat \<Rightarrow> byte list" where
  "lp_tail es j = lp_body (drop j es) @ [LP_EOF]"

lemma lp_seg_length:
  assumes "i \<le> j"
  shows "lp_off es j - lp_off es i = int (length (lp_seg es i j))"
proof -
  have "take j es = take i es @ take (j - i) (drop i es)"
    using assms by (metis le_add_diff_inverse take_add)
  then show ?thesis by (simp add: lp_off_def lp_seg_def)
qed

lemma lp_repr_cut:
  assumes "lp_repr m es" and "i \<le> j" and "j \<le> length es"
  obtains num A sl where "lp_num_ok num (length es)"
    and "A = le_bytes 4 (lp_total es) @ le_bytes 2 num @ lp_body (take i es)"
    and "m = A @ lp_seg es i j @ lp_tail es j @ sl" and "int (length A) = lp_off es i"
    and "lp_total es = int (length A) + int (length (lp_seg es i j)) + int (length (lp_tail es j))"
proof -
  have i: "i \<le> length es" using assms by simp
  have "lp_body (drop i es) = lp_seg es i j @ lp_body (drop j es)"
    using assms(2,3) lp_body_split [of "j - i" "drop i es"] by (simp add: lp_seg_def)
  then show ?thesis
    by (rule_tac lp_repr_split [OF assms(1) i])
      (rule that, auto simp: lp_tail_def lp_total_def lp_body_split [OF i])
qed

text \<open>
  The elements from \<open>i\<close> up to \<open>j\<close> are replaced by \<open>gs\<close>, which is empty for a
  deletion and the new element otherwise.
\<close>

definition lp_edit :: "bool \<Rightarrow> listpackEntry list \<Rightarrow> byte list \<Rightarrow> byte list \<Rightarrow> bool" where
  "lp_edit del gs ele bl \<longleftrightarrow>
     (if del then gs = [] \<and> ele = [] \<and> bl = []
      else \<exists>e. gs = [e] \<and> lp_ok e \<and> ele = lp_enc e \<and> bl = lpEncodeBacklen (int (length ele)))"

lemma lp_edit_body: "lp_edit del gs ele bl \<Longrightarrow> lp_body gs = ele @ bl"
  by (auto simp: lp_edit_def lp_bytes_def split: if_splits)

lemma lp_edit_size: "lp_edit del gs ele bl \<Longrightarrow> int (length ele) + int (length bl) < 2 ^ 32 + 5"
  using lp_bytes_less by (fastforce simp: lp_edit_def lp_bytes_def split: if_splits)

lemma lp_edit_new_size:
  assumes "lp_repr m es" and "i \<le> j" and "j \<le> length es" and "lp_edit del gs ele bl"
  shows "u64 (lp_total es + int (length ele) + int (length bl) - int (length (lp_seg es i j))) =
    lp_total (take i es @ gs @ drop j es)"
proof -
  have "lp_total es + int (length ele) + int (length bl) - int (length (lp_seg es i j)) =
    lp_total (take i es @ gs @ drop j es)"
    using lp_seg_length [OF assms(2), of es] lp_body_split [OF assms(3)] lp_edit_body [OF assms(4)]
    by (simp add: lp_total_def lp_off_def)
  moreover have "lp_total (take i es @ gs @ drop j es) < 2 ^ 64"
    using lp_total_less [OF assms(1)] lp_edit_size [OF assms(4)] calculation by simp
  ultimately show ?thesis by (simp add: u64_id lp_total_def)
qed

lemma lp_edit_store:
  assumes "lp_edit del gs ele bl" and "int (length Z) = int (length ele) + int (length bl)"
  shows "(if del then Some (A @ Z @ T) else
      Option.bind (store (A @ Z @ T) (int (length A)) ele)
        (\<lambda>m. store m (int (length A) + int (length ele)) bl)) = Some (A @ lp_body gs @ T)"
  using store_room [of Z ele bl A T] assms lp_edit_body [OF assms(1)]
  by (cases del) (auto simp: lp_edit_def)

lemma lp_edit_newp:
  assumes "lp_edit del gs ele bl" and "int (length Z) = int (length ele) + int (length bl)"
    and "int (length A) = lp_off es i" and "i \<le> length es" and "\<forall>e \<in> set es. lp_ok e"
  shows "(if del then Option.bind (rd (A @ Z @ lp_tail es j @ rest) (int (length A)))
        (\<lambda>b. Some (if b = LP_EOF then None else Some (int (length A))))
      else Some (Some (int (length A)))) = Some (lp_ptr (take i es @ gs @ drop j es) i)"
proof (cases del)
  case True
  then have "Z = []" "gs = []" using assms(1,2) by (auto simp: lp_edit_def)
  moreover obtain b where "rd (A @ lp_body (drop j es) @ [LP_EOF] @ rest) (int (length A)) = Some b"
    "b = LP_EOF \<longleftrightarrow> drop j es = []"
    using rd_body [of "drop j es" A rest] assms(5) by (auto dest: in_set_dropD)
  ultimately show ?thesis
    using True assms(3,4) by (auto simp: lp_tail_def lp_ptr_def lp_off_def)
next
  case False
  then show ?thesis using assms by (auto simp: lp_edit_def lp_ptr_def lp_off_def)
qed

lemma lpInsert_edit_ok:
  fixes a :: allocator
  assumes repr: "lp_repr m es" and ij: "i \<le> j" "j \<le> length es" "j \<le> i + 1"
    and gs: "lp_edit del gs ele bl"
    and w: "w = (if i = j then LP_BEFORE else LP_REPLACE)" "del \<longrightarrow> i \<noteq> j"
  defines "fs \<equiv> take i es @ gs @ drop j es"
  defines "r \<equiv> lpInsert_edit a m w del (lp_off es i) ele (int (length ele)) bl (lp_total es)
    (lp_off es j - lp_off es i)"
  shows "if lp_total fs > UINT32_MAX then r = Some None
    else \<exists>m'. r = Some (Some (m', lp_ptr fs i)) \<and> lp_repr m' fs"
proof (cases "lp_total fs > UINT32_MAX")
  case True
  then show ?thesis using lp_edit_new_size [OF repr ij(1,2) gs] lp_seg_length [OF ij(1), of es]
    by (simp add: r_def lpInsert_edit_def fs_def)
next
  case False
  let ?X = "lp_seg es i j" and ?B = "lp_tail es j"
  obtain num A sl where s: "lp_num_ok num (length es)"
    "A = le_bytes 4 (lp_total es) @ le_bytes 2 num @ lp_body (take i es)"
    "m = A @ ?X @ ?B @ sl" "int (length A) = lp_off es i"
    and old: "lp_total es = int (length A) + int (length ?X) + int (length ?B)"
    using lp_repr_cut [OF repr ij(1,2)] by metis
  have N: "lp_total fs = int (length A) + int (length ele) + int (length bl) + int (length ?B)"
    using s(2) lp_edit_body [OF gs] by (simp add: fs_def lp_total_def lp_tail_def)
  have "w = LP_BEFORE \<longrightarrow> ?X = []" using w(1) by (auto simp: lp_seg_def)
  from lpInsert_move_ok [OF s(3) this old N, of a]
  obtain Z rest where mv: "lpInsert_move a m w (int (length A)) (int (length ele)) (int (length bl))
      (int (length ?X)) (lp_total es) (lp_total fs) = Some (A @ Z @ ?B @ rest)"
    "int (length Z) = int (length ele) + int (length bl)"
    by auto
  have len: "length fs = lp_count w del (length es)"
    using gs w ij by (auto simp: fs_def lp_count_def lp_edit_def split: if_splits)
  have oks: "\<forall>e \<in> set es. lp_ok e" and okf: "\<forall>e \<in> set fs. lp_ok e"
    using gs repr
    by (auto simp: fs_def lp_repr_def lp_edit_def dest: in_set_takeD in_set_dropD split: if_splits)
  have pos: "del \<longrightarrow> 0 < length es" using w(2) ij by auto
  obtain num' where hdr: "lpInsert_header (A @ lp_body gs @ ?B @ rest) w del (lp_total fs) =
      Some (le_bytes 4 (lp_total fs) @ le_bytes 2 num' @ lp_body fs @ [LP_EOF] @ rest)"
    "lp_num_ok num' (length fs)"
    using lpInsert_header_ok [OF s(1) pos, of "lp_total es"
        "lp_body (take i es) @ lp_body gs @ ?B @ rest" w "lp_total fs"] len
    by (auto simp: s(2) fs_def lp_tail_def)
  have i: "i \<le> length es" using ij by simp
  have "r = Some (Some (le_bytes 4 (lp_total fs) @ le_bytes 2 num' @ lp_body fs @ [LP_EOF] @ rest,
    lp_ptr fs i))"
    unfolding r_def lpInsert_edit_def lp_seg_length [OF ij(1)] Let_def
    unfolding lp_edit_new_size [OF repr ij(1,2) gs] fs_def [symmetric] s(4) [symmetric]
    using False mv(1) lp_edit_newp [OF gs mv(2) s(4) i oks, of j rest] hdr(1)
      lp_edit_store [OF gs mv(2), of A "?B @ rest"]
    by (simp add: fs_def [symmetric])
  moreover have "lp_repr (le_bytes 4 (lp_total fs) @ le_bytes 2 num' @ lp_body fs @ [LP_EOF] @ rest) fs"
    using hdr(2) False okf by (intro lp_repr_join) auto
  ultimately show ?thesis using False by auto
qed

text \<open>The four uses of \<open>lpInsert\<close>.\<close>

lemma lpInsert_before:
  fixes a :: allocator
  assumes "lp_repr m es" and "i \<le> length es" and "lp_ok e" and "lp_names es' ei e"
  defines "fs \<equiv> take i es @ [e] @ drop i es"
  defines "r \<equiv> lpInsert a m es' ei (lp_off es i) LP_BEFORE"
  shows "if lp_total fs > UINT32_MAX then r = Some None
    else \<exists>m'. r = Some (Some (m', lp_ptr fs i)) \<and> lp_repr m' fs"
proof -
  have "lp_edit False [e] (lp_enc e) (lpEncodeBacklen (int (length (lp_enc e))))"
    using assms(3) by (simp add: lp_edit_def)
  from lpInsert_edit_ok [OF assms(1) order_refl assms(2) _ this, of LP_BEFORE a]
  show ?thesis using assms(4) lp_repr_total [OF assms(1)]
    by (auto simp: lpInsert_def r_def fs_def lp_names_def)
qed

lemma lpInsert_after:
  fixes a :: allocator
  assumes "lp_repr m es" and "i < length es" and "lp_names es' ei e"
  shows "lpInsert a m es' ei (lp_off es i) LP_AFTER = lpInsert a m es' ei (lp_off es (Suc i)) LP_BEFORE"
proof -
  have "6 \<le> lp_off es (Suc i)" "lp_off es (Suc i) < lp_total es"
    using lp_off_le [of "Suc i" es] assms(2) by (auto simp: lp_off_def)
  then have "ASSERT_INTEGRITY m (lp_off es (Suc i)) = Some ()"
    using lp_repr_total [OF assms(1)] by (simp add: ASSERT_INTEGRITY_def)
  then show ?thesis using lpSkip_off [OF assms(1,2)] assms(3)
    by (auto simp: lpInsert_def lp_names_def)
qed

lemma lp_replaced_len:
  assumes "lp_repr m es" and "i < length es"
  obtains n where "lpCurrentEncodedSizeUnsafe m (lp_off es i) = Some n"
    and "u32 (n + lpEncodeBacklenBytes n) = lp_off es (Suc i) - lp_off es i"
    and "ASSERT_INTEGRITY_LEN m (lp_off es i) (lp_off es (Suc i) - lp_off es i) = Some ()"
proof -
  let ?n = "int (length (lp_enc (es ! i)))"
  have sz: "lpCurrentEncodedSizeUnsafe m (lp_off es i) = Some ?n"
    using lp_repr_reads [OF assms] by (simp add: lp_reads_def)
  have off: "lp_off es (Suc i) = lp_off es i + (?n + lpEncodeBacklenBytes ?n)"
    using assms(2) by (simp add: lp_off_Suc length_lp_bytes)
  have le: "lp_off es (Suc i) \<le> lp_total es - 1" using assms(2) by (intro lp_off_le) simp
  have "6 \<le> lp_off es i" by (simp add: lp_off_def)
  then have "u32 (?n + lpEncodeBacklenBytes ?n) = ?n + lpEncodeBacklenBytes ?n"
    using le off lp_total_less [OF assms(1)] lpEncodeBacklenBytes_range [of ?n] by (simp add: u32_def)
  moreover have "ASSERT_INTEGRITY_LEN m (lp_off es i) (?n + lpEncodeBacklenBytes ?n) = Some ()"
    using le off lp_repr_total [OF assms(1)] \<open>6 \<le> lp_off es i\<close>
    by (simp add: ASSERT_INTEGRITY_LEN_def)
  ultimately show ?thesis using that [OF sz] by (simp add: off)
qed

lemma lpInsert_replace:
  fixes a :: allocator
  assumes "lp_repr m es" and "i < length es" and "lp_ok e" and "lp_names es' ei e"
  defines "fs \<equiv> take i es @ [e] @ drop (Suc i) es"
  defines "r \<equiv> lpInsert a m es' ei (lp_off es i) LP_REPLACE"
  shows "if lp_total fs > UINT32_MAX then r = Some None
    else \<exists>m'. r = Some (Some (m', lp_ptr fs i)) \<and> lp_repr m' fs"
proof -
  have "lp_edit False [e] (lp_enc e) (lpEncodeBacklen (int (length (lp_enc e))))"
    using assms(3) by (simp add: lp_edit_def)
  moreover have "i \<le> Suc i" "Suc i \<le> length es" using assms(2) by auto
  moreover obtain n where "lpCurrentEncodedSizeUnsafe m (lp_off es i) = Some n"
    "u32 (n + lpEncodeBacklenBytes n) = lp_off es (Suc i) - lp_off es i"
    "ASSERT_INTEGRITY_LEN m (lp_off es i) (lp_off es (Suc i) - lp_off es i) = Some ()"
    using lp_replaced_len [OF assms(1,2)] .
  ultimately show ?thesis
    using lpInsert_edit_ok [OF assms(1), of i "Suc i" False "[e]" "lp_enc e" _ LP_REPLACE a]
      assms(4) lp_repr_total [OF assms(1)]
    by (auto simp: lpInsert_def r_def fs_def lp_names_def)
qed

lemma lpDelete_ok:
  assumes "lp_repr m es" and "i < length es"
  defines "fs \<equiv> take i es @ drop (Suc i) es"
  shows "\<exists>m'. lpDelete a m (lp_off es i) = Some (Some (m', lp_ptr fs i)) \<and> lp_repr m' fs"
proof -
  have "lp_edit True [] [] []" by (simp add: lp_edit_def)
  moreover have i: "i \<le> Suc i" "Suc i \<le> length es" using assms(2) by auto
  moreover have "\<not> lp_total fs > UINT32_MAX"
    using lp_total_less [OF assms(1)] lp_body_split [of "Suc i" es] i
    by (simp add: fs_def lp_total_def take_Suc_conv_app_nth)
  moreover obtain n where "lpCurrentEncodedSizeUnsafe m (lp_off es i) = Some n"
    "u32 (n + lpEncodeBacklenBytes n) = lp_off es (Suc i) - lp_off es i"
    "ASSERT_INTEGRITY_LEN m (lp_off es i) (lp_off es (Suc i) - lp_off es i) = Some ()"
    using lp_replaced_len [OF assms(1,2)] .
  ultimately show ?thesis
    using lpInsert_edit_ok [OF assms(1), of i "Suc i" True "[]" "[]" "[]" LP_REPLACE a]
      lp_repr_total [OF assms(1)]
    by (auto simp: lpInsert_def lpDelete_def fs_def lp_new_element_def)
qed

end
