(* ===== verification/Listpack_Batch.thy ===== *)
theory Listpack_Batch
  imports Listpack_Insert
begin

text \<open>
  The remaining editing operations of the listpack: creation, the wrappers of \<open>lpInsert\<close>,
  batches, ranges, merge and duplication, each as an operation on the list of elements.
\<close>

section \<open>Creation and copies\<close>

lemma block_split:
  assumes "7 \<le> length (m :: mem)"
  obtains h k b r where "m = h @ k @ [b] @ r" and "length h = 4" and "length k = 2"
proof -
  have "m = take 6 m @ m ! 6 # drop 7 m" using assms id_take_nth_drop [of 6 m] by simp
  moreover have "take 6 m = take 4 m @ take 2 (drop 4 m)" using take_add [of 4 2 m] by simp
  ultimately have "m = take 4 m @ take 2 (drop 4 m) @ [m ! 6] @ drop 7 m" by simp
  then show ?thesis using assms that [of "take 4 m" "take 2 (drop 4 m)" "m ! 6" "drop 7 m"] by simp
qed

lemma lpNew_ok: "\<exists>m. lpNew a capacity = Some m \<and> lp_repr m []"
proof -
  let ?m = "realloc a [] (nat (if capacity > LP_HDR_SIZE + 1 then capacity else LP_HDR_SIZE + 1))"
  have "7 \<le> length ?m" by auto
  then obtain h k b r where m: "?m = h @ k @ [b] @ r" "length h = 4" "length k = 2"
    by (rule block_split)
  have "store (le_bytes 4 7 @ le_bytes 2 0 @ [b] @ r) 6 [LP_EOF] =
    Some (le_bytes 4 7 @ le_bytes 2 0 @ [LP_EOF] @ r)"
    by (simp add: store_def)
  then have "lpNew a capacity = Some (le_bytes 4 7 @ le_bytes 2 0 @ [LP_EOF] @ r)"
    using lp_set_total [OF m(2), of "k @ [b] @ r" 7]
      lp_set_num [OF length_le_bytes m(3), of 7 "[b] @ r" 0]
    by (simp only: lpNew_def Let_def m(1)) simp
  moreover have "lp_repr (le_bytes 4 7 @ le_bytes 2 0 @ [LP_EOF] @ r) []"
    using lp_repr_join [of _ "[]" 0 r] by (simp add: lp_total_def lp_num_ok_def)
  ultimately show ?thesis by blast
qed

lemma lp_repr_prefix:
  assumes "lp_repr m es" and "take (nat (lp_total es)) m' = take (nat (lp_total es)) m"
  shows "lp_repr m' es"
proof -
  obtain num rest where m: "m = lp_image num es @ rest" "lp_num_ok num (length es)"
    using assms(1) by (auto simp: lp_repr_def)
  have "length (lp_image num es) = nat (lp_total es)" by (simp add: lp_image_def lp_total_def)
  then have "take (nat (lp_total es)) m' = lp_image num es" using assms(2) m(1) by simp
  then have "m' = lp_image num es @ drop (nat (lp_total es)) m'" by (metis append_take_drop_id)
  then show ?thesis using assms(1) m(2) by (auto simp: lp_repr_def)
qed

lemma lpShrinkToFit_ok:
  assumes "lp_repr m es"
  shows "\<exists>m'. lpShrinkToFit a m = Some m' \<and> lp_repr m' es"
proof -
  have "lp_repr (realloc a m (nat (lp_total es))) es"
    using lp_repr_length [OF assms] by (intro lp_repr_prefix [OF assms]) simp
  then show ?thesis using assms lp_repr_total [OF assms] by (simp add: lpShrinkToFit_def)
qed

lemma lpDup_ok:
  assumes "lp_repr m es"
  shows "\<exists>m'. lpDup a m = Some m' \<and> lp_repr m' es"
proof -
  let ?n = "nat (lp_total es)"
  have len: "?n \<le> length m" using lp_repr_length [OF assms] by simp
  then have "load m 0 ?n = Some (take ?n m)" by (simp add: load_def)
  moreover have "store (realloc a [] ?n) 0 (take ?n m) =
    Some (take ?n m @ drop ?n (realloc a [] ?n))"
    using len by (simp add: store_def)
  moreover have "lp_repr (take ?n m @ drop ?n (realloc a [] ?n)) es"
    using len by (intro lp_repr_prefix [OF assms]) simp
  ultimately show ?thesis using lp_repr_total [OF assms] by (simp add: lpDup_def lpBytes_def)
qed

section \<open>The ends of the list\<close>

lemma lpAppend_ok:
  fixes a :: allocator
  assumes "lp_repr m es" and "lp_ok (lp_entry s)"
  defines "fs \<equiv> es @ [lp_entry s]"
  shows "if lp_total fs > UINT32_MAX then lpAppend a m s = Some None
    else \<exists>m'. lpAppend a m s = Some (Some m') \<and> lp_repr m' fs"
  using lpInsert_before [OF assms(1) order_refl assms(2) lp_names_str, of a]
    lp_repr_total [OF assms(1)] lp_off_length [of es]
  by (auto simp: lpAppend_def drop_newp_def fs_def)

lemma lpAppendInteger_ok:
  fixes a :: allocator
  assumes "lp_repr m es" and "lp_ok (LpeInt v)"
  defines "fs \<equiv> es @ [LpeInt v]"
  shows "if lp_total fs > UINT32_MAX then lpAppendInteger a m v = Some None
    else \<exists>m'. lpAppendInteger a m v = Some (Some m') \<and> lp_repr m' fs"
  using lpInsert_before [OF assms(1) order_refl assms(2) lp_names_int, of a]
    lp_repr_total [OF assms(1)] lp_off_length [of es]
  by (auto simp: lpAppendInteger_def lpInsertInteger_def drop_newp_def fs_def)

lemma lpPrepend_ok:
  fixes a :: allocator
  assumes "lp_repr m es" and "lp_ok (lp_entry s)"
  defines "fs \<equiv> lp_entry s # es"
  shows "if lp_total fs > UINT32_MAX then lpPrepend a m s = Some None
    else \<exists>m'. lpPrepend a m s = Some (Some m') \<and> lp_repr m' fs"
proof (cases "es = []")
  case True
  then show ?thesis using lpAppend_ok [OF assms(1,2), of a] lpFirst_off [OF assms(1)]
    by (auto simp: lpPrepend_def lp_ptr_def fs_def)
next
  case False
  then show ?thesis
    using lpInsert_before [OF assms(1) le0 assms(2) lp_names_str, of a] lpFirst_off [OF assms(1)]
    by (auto simp: lpPrepend_def lp_ptr_def drop_newp_def fs_def)
qed

lemma lpPrependInteger_ok:
  fixes a :: allocator
  assumes "lp_repr m es" and "lp_ok (LpeInt v)"
  defines "fs \<equiv> LpeInt v # es"
  shows "if lp_total fs > UINT32_MAX then lpPrependInteger a m v = Some None
    else \<exists>m'. lpPrependInteger a m v = Some (Some m') \<and> lp_repr m' fs"
proof (cases "es = []")
  case True
  then show ?thesis using lpAppendInteger_ok [OF assms(1,2), of a] lpFirst_off [OF assms(1)]
    by (auto simp: lpPrependInteger_def lp_ptr_def fs_def)
next
  case False
  then show ?thesis
    using lpInsert_before [OF assms(1) le0 assms(2) lp_names_int, of a] lpFirst_off [OF assms(1)]
    by (auto simp: lpPrependInteger_def lpInsertInteger_def lp_ptr_def drop_newp_def fs_def)
qed

section \<open>Batches\<close>

primrec lp_norm :: "listpackEntry \<Rightarrow> listpackEntry" where
  "lp_norm (LpeStr s) = lp_entry s"
| "lp_norm (LpeInt v) = LpeInt v"

lemma lp_entry_element_eq:
  "lp_entry_element e = (lp_enc (lp_norm e), int (length (lp_enc (lp_norm e))))"
  by (cases e) (simp_all add: lp_entry_element_def lp_new_element_str lp_new_element_int)

lemma lpBatch_addedlen_eq: "lpBatch_addedlen es = int (length (lp_body (map lp_norm es)))"
  by (induction es) (simp_all add: lp_entry_element_eq lp_bytes_def)

lemma lpBatch_store_ok:
  assumes "length Z = length (lp_body (map lp_norm gs))"
  shows "lpBatch_store (A @ Z @ T) (int (length A)) np gs =
    Some (A @ lp_body (map lp_norm gs) @ T,
      if gs = [] then np else Some (int (length A) + int (length (lp_body (map lp_norm (butlast gs))))))"
  using assms
proof (induction gs arbitrary: A Z np)
  case (Cons g gs)
  let ?e = "lp_enc (lp_norm g)"
  let ?b = "lpEncodeBacklen (int (length ?e))"
  define Z1 Z2 where "Z1 = take (length ?e + length ?b) Z" and "Z2 = drop (length ?e + length ?b) Z"
  have Z: "Z = Z1 @ Z2" "length Z1 = length ?e + length ?b" "length Z2 = length (lp_body (map lp_norm gs))"
    using Cons.prems by (auto simp: Z1_def Z2_def lp_bytes_def)
  have "Option.bind (store (A @ Z @ T) (int (length A)) ?e)
    (\<lambda>m. store m (int (length A) + int (length ?e)) ?b) = Some (A @ ?e @ ?b @ Z2 @ T)"
    using store_room [OF Z(2), of A "Z2 @ T"] by (simp add: Z(1))
  then obtain m1 where st: "store (A @ Z @ T) (int (length A)) ?e = Some m1"
    "store m1 (int (length A) + int (length ?e)) ?b = Some (A @ ?e @ ?b @ Z2 @ T)"
    by (auto simp: bind_eq_Some_conv)
  have "lpBatch_store (A @ Z @ T) (int (length A)) np (g # gs) =
    lpBatch_store ((A @ ?e @ ?b) @ Z2 @ T) (int (length (A @ ?e @ ?b))) (Some (int (length A))) gs"
    by (simp add: lp_entry_element_eq st Let_def add.assoc)
  also have "\<dots> = Some ((A @ ?e @ ?b) @ lp_body (map lp_norm gs) @ T,
      if gs = [] then Some (int (length A))
      else Some (int (length (A @ ?e @ ?b)) + int (length (lp_body (map lp_norm (butlast gs))))))"
    by (rule Cons.IH [OF Z(3)])
  finally show ?case by (simp add: lp_bytes_def)
qed simp

lemma lp_batch_num_ok:
  assumes "lp_num_ok num n" and "0 < k"
  shows "lp_num_ok (if num \<noteq> LP_HDR_NUMELE_UNKNOWN then
      if int k > LP_HDR_NUMELE_UNKNOWN - num then LP_HDR_NUMELE_UNKNOWN else num + int k
    else num) (n + k)"
  using assms by (auto simp: lp_num_ok_def)

lemma lpBatch_header_ok:
  assumes "lp_num_ok num n" and "0 < k" and m_def: "m = le_bytes 4 t @ le_bytes 2 num @ rest"
  shows "\<exists>num'. Option.bind (if num \<noteq> LP_HDR_NUMELE_UNKNOWN then
        if int k > LP_HDR_NUMELE_UNKNOWN - num then lpSetNumElements m LP_HDR_NUMELE_UNKNOWN
        else lpSetNumElements m (num + int k)
      else Some m) (\<lambda>m. lpSetTotalBytes m N) = Some (le_bytes 4 N @ le_bytes 2 num' @ rest) \<and>
    lp_num_ok num' (n + k)"
proof -
  define num' where "num' = (if num \<noteq> LP_HDR_NUMELE_UNKNOWN then
      if int k > LP_HDR_NUMELE_UNKNOWN - num then LP_HDR_NUMELE_UNKNOWN else num + int k
    else num)"
  have "(if num \<noteq> LP_HDR_NUMELE_UNKNOWN then
        if int k > LP_HDR_NUMELE_UNKNOWN - num then lpSetNumElements m LP_HDR_NUMELE_UNKNOWN
        else lpSetNumElements m (num + int k)
      else Some m) = Some (le_bytes 4 t @ le_bytes 2 num' @ rest)"
    by (simp add: m_def num'_def lp_set_num)
  moreover have "lp_num_ok num' (n + k)" using lp_batch_num_ok [OF assms(1,2)] by (simp add: num'_def)
  ultimately show ?thesis using lp_set_total [of "le_bytes 4 t" "le_bytes 2 num' @ rest" N] by auto
qed

lemma lpBatch_finish:
  assumes num: "lp_num_ok num n" and k: "0 < k" "length fs = n + k" and total: "lp_total fs \<le> UINT32_MAX"
    and ok: "\<forall>e \<in> set fs. lp_ok e"
    and M: "M = le_bytes 4 t @ le_bytes 2 num @ lp_body fs @ [LP_EOF] @ rest"
  shows "\<exists>m'. Option.bind (lpGetNumElements M) (\<lambda>num_elements.
      Option.bind (if num_elements \<noteq> LP_HDR_NUMELE_UNKNOWN then
          if int k > LP_HDR_NUMELE_UNKNOWN - num_elements
          then lpSetNumElements M LP_HDR_NUMELE_UNKNOWN
          else lpSetNumElements M (num_elements + int k)
        else Some M) (\<lambda>m.
        Option.bind (lpSetTotalBytes m (lp_total fs)) (\<lambda>m. Some (Some (m, np))))) =
      Some (Some (m', np)) \<and> lp_repr m' fs"
proof -
  obtain num' where hdr: "Option.bind (if num \<noteq> LP_HDR_NUMELE_UNKNOWN then
      if int k > LP_HDR_NUMELE_UNKNOWN - num
      then lpSetNumElements M LP_HDR_NUMELE_UNKNOWN else lpSetNumElements M (num + int k)
    else Some M) (\<lambda>m. lpSetTotalBytes m (lp_total fs)) =
      Some (le_bytes 4 (lp_total fs) @ le_bytes 2 num' @ lp_body fs @ [LP_EOF] @ rest)"
    and num': "lp_num_ok num' (length fs)"
    using lpBatch_header_ok [OF num k(1) M] k(2) by metis
  let ?m' = "le_bytes 4 (lp_total fs) @ le_bytes 2 num' @ lp_body fs @ [LP_EOF] @ rest"
  have "lp_repr ?m' fs" using num' total ok by (intro lp_repr_join) auto
  moreover have "lpGetNumElements M = Some num"
    using lpGetNumElements_image [OF num] by (simp add: M)
  ultimately show ?thesis
    using hdr unfolding bind_eq_Some_conv by (intro exI [of _ ?m']) auto
qed

lemma lpBatchInsert_ok:
  fixes a :: allocator
  assumes repr: "lp_repr m es" and i: "i \<le> length es" and gs: "gs \<noteq> []"
    and ok: "\<forall>g \<in> set gs. lp_ok (lp_norm g)" and size: "int (length (lp_body (map lp_norm gs))) < 2 ^ 63"
  defines "fs \<equiv> take i es @ map lp_norm gs @ drop i es"
  defines "r \<equiv> lpBatchInsert a m (lp_off es i) LP_BEFORE gs"
  shows "if lp_total fs > UINT32_MAX then r = Some None
    else \<exists>m'. r = Some (Some (m', Some (lp_off fs (i + length gs - 1)))) \<and> lp_repr m' fs"
proof -
  let ?Y = "lp_body (map lp_norm gs)" and ?B = "lp_tail es i"
  obtain num A sl where s: "lp_num_ok num (length es)"
    "A = le_bytes 4 (lp_total es) @ le_bytes 2 num @ lp_body (take i es)"
    "m = A @ lp_seg es i i @ ?B @ sl" "int (length A) = lp_off es i"
    and old: "lp_total es = int (length A) + int (length (lp_seg es i i)) + int (length ?B)"
    using lp_repr_cut [OF repr order_refl i] by metis
  have seg: "lp_seg es i i = []" by (simp add: lp_seg_def)
  have N: "lp_total fs = int (length A) + int (length ?Y) + int (length ?B)"
    using s(2) by (simp add: fs_def lp_total_def lp_tail_def)
  have added: "u64 (lpBatch_addedlen gs) = int (length ?Y)"
    using size by (simp add: lpBatch_addedlen_eq u64_id)
  have new: "u64 (lp_total es + int (length ?Y)) = lp_total fs"
    using size old N seg lp_total_less [OF repr] by (intro u64_id [THEN trans]) auto
  show ?thesis
  proof (cases "lp_total fs > UINT32_MAX")
    case True
    then show ?thesis using gs lp_repr_total [OF repr] added new
      by (simp add: r_def lpBatchInsert_def)
  next
    case False
    let ?m1 = "if lp_total fs > lp_total es \<and> lp_total fs > int (length m)
      then realloc a m (nat (lp_total fs)) else m" and ?np = "Some (lp_off fs (i + length gs - 1))"
    obtain m2 Z rest where mv: "memmove_int ?m1 (int (length A) + int (length ?Y))
        (int (length A)) (int (length ?B)) = Some m2" "m2 = A @ Z @ ?B @ rest" "length Z = length ?Y"
      using lp_splice [OF s(3) N old refl, of a] N old seg by auto
    have "min (i + length gs - 1) i = i" using gs by (cases gs) auto
    then have tk: "take (i + length gs - 1) fs = take i es @ map lp_norm (butlast gs)"
      using i gs by (simp add: fs_def butlast_conv_take take_map)
    define M where "M = A @ ?Y @ ?B @ rest"
    have st: "lpBatch_store m2 (lp_off es i) None gs = Some (M, ?np)"
      using lpBatch_store_ok [OF mv(3), of A "?B @ rest" None] gs tk s(4)
      by (simp add: mv(2) lp_off_def M_def)
    have M: "M = le_bytes 4 (lp_total es) @ le_bytes 2 num @ lp_body fs @ [LP_EOF] @ rest"
      by (simp add: M_def s(2) fs_def lp_tail_def)
    have fin: "0 < length gs" "length fs = length es + length gs" "lp_total fs \<le> UINT32_MAX"
      "\<forall>e \<in> set fs. lp_ok e"
      using gs i False ok repr by (auto simp: fs_def lp_repr_def dest: in_set_takeD in_set_dropD)
    have cnt: "int (length ?B) = lp_total es - lp_off es i" using old seg s(4) by simp
    show ?thesis
      using False gs mv(1) [unfolded s(4) cnt] st lpBatch_finish [OF s(1) fin M, of ?np]
      unfolding r_def lpBatchInsert_def lp_repr_total [OF repr] added Let_def
      by (simp add: new split del: if_split cong: if_cong)
  qed
qed

lemma lpBatchAppend_ok:
  fixes a :: allocator
  assumes "lp_repr m es" and "gs \<noteq> []" and "\<forall>g \<in> set gs. lp_ok (lp_norm g)"
    and "int (length (lp_body (map lp_norm gs))) < 2 ^ 63"
  defines "fs \<equiv> es @ map lp_norm gs"
  shows "if lp_total fs > UINT32_MAX then lpBatchAppend a m gs = Some None
    else \<exists>m'. lpBatchAppend a m gs = Some (Some m') \<and> lp_repr m' fs"
  using lpBatchInsert_ok [OF assms(1) order_refl assms(2-4), of a] lp_repr_total [OF assms(1)]
    lp_off_length [of es]
  by (auto simp: lpBatchAppend_def drop_newp_def fs_def)

end
