(* ===== verification/Listpack_Range.thy ===== *)
theory Listpack_Range
  imports Listpack_Batch
begin

text \<open>
  Deletion of ranges and of given elements, and the merge of two listpacks, as operations on the
  lists of elements.
\<close>

section \<open>Ranges\<close>

lemma lpDeleteRange_tail_off:
  assumes "lp_repr m es" and "i < length es" and "0 < num"
  shows "lpDeleteRange_tail m (lp_total es) num (lp_off es i) d =
    Some (lp_off es (min (i + num) (length es)), d + int (min num (length es - i)))"
  using assms(2,3)
proof (induction num arbitrary: i d)
  case (Suc num)
  have "Suc i \<le> length es" using Suc.prems by simp
  then obtain b where b: "rd m (lp_off es (Suc i)) = Some b" "b = LP_EOF \<longleftrightarrow> Suc i = length es"
    by (rule rd_off [OF assms(1)])
  show ?case
  proof (cases "Suc i = length es")
    case True
    then show ?thesis using b lpSkip_off [OF assms(1) Suc.prems(1)] by simp
  next
    case False
    then have i: "Suc i < length es" using Suc.prems by simp
    show ?thesis
    proof (cases "num = 0")
      case True
      then show ?thesis
        using b False i lpSkip_off [OF assms(1) Suc.prems(1)] lpAssertValidEntry_off [OF assms(1) i]
        by simp
    next
      case num: False
      have "1 + int (min num (length es - Suc i)) = int (min (Suc num) (length es - i))"
        using i by (simp add: min_def) auto
      then show ?thesis
        using num Suc.IH [OF i, of "d + 1"] b False lpSkip_off [OF assms(1) Suc.prems(1)]
          lpAssertValidEntry_off [OF assms(1) i]
        by simp
    qed
  qed
qed simp

text \<open>The elements from \<open>i\<close> up to \<open>j\<close> removed, and the header and the size adjusted.\<close>

lemma lp_remove_finish:
  assumes num: "lp_num_ok num n" and k: "n = length fs + k" and total: "lp_total fs < 2 ^ 32"
    and ok: "\<forall>e \<in> set fs. lp_ok e"
    and M: "M = le_bytes 4 t @ le_bytes 2 num @ lp_body fs @ [LP_EOF] @ rest"
  shows "\<exists>m'. lpDelete_finish a M (lp_total fs) (int k) = Some m' \<and> lp_repr m' fs"
proof -
  let ?N = "lp_total fs"
  let ?m1 = "le_bytes 4 ?N @ le_bytes 2 num @ lp_body fs @ [LP_EOF] @ rest"
  define num' where "num' = (if num \<noteq> LP_HDR_NUMELE_UNKNOWN then u64 (num - int k) else num)"
  let ?m2 = "le_bytes 4 ?N @ le_bytes 2 num' @ lp_body fs @ [LP_EOF] @ rest"
  have "lp_num_ok num' (length fs)"
    using num k by (auto simp: num'_def lp_num_ok_def u64_def)
  then have "lp_repr ?m2 fs" using total ok by (intro lp_repr_join) auto
  then obtain m' where "lpShrinkToFit a ?m2 = Some m'" "lp_repr m' fs"
    using lpShrinkToFit_ok by blast
  moreover have "lpSetTotalBytes M ?N = Some ?m1" using lp_set_total by (simp add: M)
  moreover have "lpGetNumElements ?m1 = Some num" using lpGetNumElements_image [OF num] by simp
  moreover have "(if num \<noteq> LP_HDR_NUMELE_UNKNOWN then lpSetNumElements ?m1 (u64 (num - int k))
    else Some ?m1) = Some ?m2"
    by (simp add: num'_def lp_set_num)
  ultimately show ?thesis by (simp add: lpDelete_finish_def cong: if_cong split del: if_split)
qed

lemma lp_seg_remove:
  assumes "lp_repr m es" and "i \<le> j" and "j \<le> length es"
  defines "fs \<equiv> take i es @ drop j es"
  shows "lp_total es - (lp_off es j - lp_off es i) = lp_total fs" and "lp_total fs < 2 ^ 32"
    and "\<forall>e \<in> set fs. lp_ok e"
proof -
  show "lp_total es - (lp_off es j - lp_off es i) = lp_total fs"
    using lp_seg_length [OF assms(2), of es] lp_body_split [OF assms(3)]
    by (simp add: lp_total_def lp_off_def fs_def)
  then show "lp_total fs < 2 ^ 32"
    using lp_total_less [OF assms(1)] lp_seg_length [OF assms(2), of es] by simp
  show "\<forall>e \<in> set fs. lp_ok e"
    using assms(1) by (auto simp: fs_def lp_repr_def dest: in_set_takeD in_set_dropD)
qed

lemma memmove_int_close:
  "\<exists>rest. memmove_int (A @ X @ T @ sl) (int (length A)) (int (length A) + int (length X)) (int (length T)) =
    Some (A @ T @ rest)"
  using memmove_nat [of "length A + length X" "length T" "A @ X @ T @ sl" "length A"]
  by (simp add: memmove_int_def)

lemma lpDeleteRangeWithEntry_ok:
  fixes num :: nat
  assumes repr: "lp_repr m es" and i: "i < length es"
  defines "fs \<equiv> take i es @ drop (i + num) es"
  shows "\<exists>m'. lpDeleteRangeWithEntry a m (lp_off es i) num = Some (m', lp_ptr fs i) \<and> lp_repr m' fs"
proof (cases "num = 0")
  case True
  then show ?thesis using repr lp_repr_total [OF repr] i
    by (simp add: lpDeleteRangeWithEntry_def lpBytes_def fs_def lp_ptr_def)
next
  case False
  define j where "j = min (i + num) (length es)"
  have j: "i \<le> j" "j \<le> length es" and fs: "fs = take i es @ drop j es"
    using i by (auto simp: j_def fs_def min_def)
  obtain n A sl where s: "lp_num_ok n (length es)"
    "A = le_bytes 4 (lp_total es) @ le_bytes 2 n @ lp_body (take i es)"
    "m = A @ lp_seg es i j @ lp_tail es j @ sl" "int (length A) = lp_off es i"
    and old: "lp_total es = int (length A) + int (length (lp_seg es i j)) + int (length (lp_tail es j))"
    using lp_repr_cut [OF repr j] by metis
  have seg: "lp_off es j = lp_off es i + int (length (lp_seg es i j))"
    using lp_seg_length [OF j(1), of es] by simp
  have cnt: "lp_total es - lp_off es j = int (length (lp_tail es j))" using old s(4) seg by simp
  obtain rest where mv: "memmove_int m (lp_off es i) (lp_off es j) (int (length (lp_tail es j))) =
      Some (A @ lp_tail es j @ rest)"
    using memmove_int_close [of A "lp_seg es i j" "lp_tail es j" sl] s(3,4) seg by auto
  have M: "A @ lp_tail es j @ rest = le_bytes 4 (lp_total es) @ le_bytes 2 n @ lp_body fs @ [LP_EOF] @ rest"
    by (simp add: s(2) fs lp_tail_def)
  define d where "d = min num (length es - i)"
  have d: "length es = length fs + d" using i by (auto simp: fs j_def d_def)
  note rm = lp_seg_remove [OF repr j, folded fs]
  obtain m' where m': "lpDelete_finish a (A @ lp_tail es j @ rest) (lp_total fs) (int d) = Some m'"
    "lp_repr m' fs"
    using lp_remove_finish [OF s(1) d rm(2,3) M, of a] by blast
  have off: "lp_off fs i = lp_off es i" using i by (simp add: lp_off_def fs)
  have "i \<le> length fs" using i j by (simp add: fs)
  then obtain b where b: "rd m' (lp_off es i) = Some b" "b = LP_EOF \<longleftrightarrow> i = length fs"
    using rd_off [OF m'(2), of i] off by auto
  then have ptr: "(if b = LP_EOF then None else Some (lp_off es i)) = lp_ptr fs i"
    using off \<open>i \<le> length fs\<close> by (simp add: lp_ptr_def)
  have "lpDeleteRange_tail m (lp_total es) num (lp_off es i) 0 = Some (lp_off es j, int d)"
    using lpDeleteRange_tail_off [OF repr i] False by (simp add: j_def d_def)
  then have "lpDeleteRangeWithEntry a m (lp_off es i) num = Some (m', lp_ptr fs i)"
    using False lp_repr_total [OF repr] mv m'(1) b(1) ptr
    unfolding lpDeleteRangeWithEntry_def lpBytes_def Let_def
    by (simp add: cnt rm(1))
  then show ?thesis using m'(2) by blast
qed

text \<open>
  \<open>lpDeleteRange\<close>: when the header shows that the range reaches the end, only the end byte
  is moved. The index counts from the end when it is negative; out of range, nothing is deleted.
\<close>

definition lp_range :: "'a list \<Rightarrow> int \<Rightarrow> nat \<Rightarrow> 'a list" where
  "lp_range es k num =
     (let j = (if k < 0 then int (length es) + k else k)
      in if 0 \<le> j \<and> j < int (length es) then take (nat j) es @ drop (nat j + num) es else es)"

lemma lp_truncate:
  assumes repr: "lp_repr m es" and i: "i < length es" and n: "length es < 65535"
  shows "\<exists>m'. Option.bind (store m (lp_off es i) [LP_EOF]) (\<lambda>m.
      Option.bind (lpSetTotalBytes m (lp_off es i + 1)) (\<lambda>m.
      Option.bind (lpSetNumElements m (int i)) (lpShrinkToFit a))) = Some m' \<and> lp_repr m' (take i es)"
proof -
  obtain num A sl where s: "A = le_bytes 4 (lp_total es) @ le_bytes 2 num @ lp_body (take i es)"
    "m = A @ lp_body (drop i es) @ [LP_EOF] @ sl" "int (length A) = lp_off es i"
    using lp_repr_split [OF repr, of i] i by (metis less_imp_le)
  obtain b r where br: "lp_body (drop i es) @ [LP_EOF] @ sl = b # r"
    by (cases "lp_body (drop i es) @ [LP_EOF] @ sl") auto
  let ?fs = "take i es"
  have st: "store m (lp_off es i) [LP_EOF] = Some (A @ [LP_EOF] @ r)"
    using s(3) [symmetric] s(2) unfolding br by (simp add: store_nat)
  have tot: "lp_off es i + 1 = lp_total ?fs" by (simp add: lp_off_def lp_total_def)
  let ?m2 = "le_bytes 4 (lp_total ?fs) @ le_bytes 2 (int i) @ lp_body ?fs @ [LP_EOF] @ r"
  have "lp_repr ?m2 ?fs"
    using lp_seg_remove(2,3) [OF repr, of i "length es"] i n
    by (intro lp_repr_join) (auto simp: lp_num_ok_def)
  then obtain m' where "lpShrinkToFit a ?m2 = Some m'" "lp_repr m' ?fs"
    using lpShrinkToFit_ok by blast
  then show ?thesis
    by (simp add: st tot s(1) lp_set_total lp_set_num)
qed

lemma lpDeleteRange_ok:
  "lp_repr m es \<Longrightarrow> \<exists>m'. lpDeleteRange a m k num = Some m' \<and> lp_repr m' (lp_range es k num)"
proof -
  assume repr: "lp_repr m es"
  obtain n where n: "lpGetNumElements m = Some n" "lp_num_ok n (length es)"
    using lp_repr_header [OF repr] by blast
  define j where "j = (if k < 0 then int (length es) + k else k)"
  show ?thesis
  proof (cases "num = 0 \<or> \<not> (0 \<le> j \<and> j < int (length es))")
    case True
    then show ?thesis using repr n lpSeek_off [OF repr, of k]
      by (auto simp: lpDeleteRange_def lp_range_def lp_index_def j_def [symmetric] Let_def)
  next
    case False
    then have j: "nat j < length es" "lp_index es k = Some (lp_off es (nat j))"
      by (auto simp: lp_index_def j_def Let_def)
    have seek: "lpSeek m k = Some (Some (lp_off es (nat j)))" using lpSeek_off [OF repr, of k] j by simp
    have rng: "lp_range es k num = take (nat j) es @ drop (nat j + num) es"
      using False by (simp add: lp_range_def j_def [symmetric] Let_def)
    show ?thesis
    proof (cases "n \<noteq> LP_HDR_NUMELE_UNKNOWN \<and> int (length es) - j \<le> int num")
      case True
      then have ne: "n = int (length es)" "length es < 65535" using n by (auto simp: lp_num_ok_def)
      have idx: "k < 0 \<Longrightarrow> n + k = j" "\<not> k < 0 \<Longrightarrow> k = j"
        using ne(1) by (auto simp: j_def)
      have "u64 j = j" "u64 (n - j) = n - j" using False ne by (auto simp: u64_def)
      then have c: "n \<noteq> LP_HDR_NUMELE_UNKNOWN \<and> u64 (n - u64 j) \<le> int num" using True ne by simp
      have "drop (nat j + num) es = []" using True False by auto
      then have "lp_range es k num = take (nat j) es" using rng by simp
      moreover have "int (nat j) = j" using False by simp
      ultimately show ?thesis
        using lp_truncate [OF repr j(1) ne(2), of a] n(1) seek False c
        unfolding lpDeleteRange_def
        by (simp only: n(1) seek) (cases "k < 0"; simp add: idx Let_def)
    next
      case more: False
      have "\<not> (n \<noteq> LP_HDR_NUMELE_UNKNOWN \<and>
        u64 (n - u64 (if n \<noteq> LP_HDR_NUMELE_UNKNOWN \<and> k < 0 then n + k else k)) \<le> int num)"
        using more n False by (auto simp: lp_num_ok_def j_def u64_def split: if_splits)
      then show ?thesis
        using lpDeleteRangeWithEntry_ok [OF repr j(1), of a num] n(1) seek False rng
        unfolding lpDeleteRange_def by (simp only: n(1) seek) (auto simp: Let_def)
    qed
  qed
qed

section \<open>Given elements\<close>

text \<open>
  The elements of \<open>es\<close> from the first of the ascending indices \<open>is\<close> on that are not at one of
  them, and the whole list without them.
\<close>

fun lp_kept :: "'a list \<Rightarrow> nat list \<Rightarrow> 'a list" where
  "lp_kept es [] = []"
| "lp_kept es [i] = drop (Suc i) es"
| "lp_kept es (i # j # is) = take (j - Suc i) (drop (Suc i) es) @ lp_kept es (j # is)"

definition lp_without :: "'a list \<Rightarrow> nat list \<Rightarrow> 'a list" where
  "lp_without es is = map (nth es) (filter (\<lambda>k. k \<notin> set is) [0..<length es])"

lemma map_nth_upt: "j \<le> length es \<Longrightarrow> map (nth es) [i..<j] = take (j - i) (drop i es)"
  by (rule nth_equalityI) auto

lemma lp_kept_filter:
  assumes "sorted_wrt (<) (i # is)" and "\<forall>k \<in> set (i # is). k < length es"
  shows "lp_kept es (i # is) = map (nth es) (filter (\<lambda>k. k \<notin> set (i # is)) [i..<length es])"
  using assms
proof (induction "is" arbitrary: i)
  case Nil
  have "filter (\<lambda>k. k \<noteq> i) [i..<length es] = [Suc i..<length es]"
    using Nil.prems by (simp add: upt_conv_Cons)
  then show ?case by (simp add: map_nth_upt)
next
  case (Cons j js)
  have ij: "Suc i \<le> j" "j \<le> length es" "i < length es" and after: "\<forall>k \<in> set js. j < k"
    using Cons.prems by auto
  have "[i..<length es] = i # [Suc i..<j] @ [j..<length es]"
    using ij by (metis upt_add_eq_append le_iff_add upt_conv_Cons)
  moreover have "filter (\<lambda>k. k \<notin> set (i # j # js)) [Suc i..<j] = [Suc i..<j]"
    using after by (auto simp: filter_id_conv)
  moreover have "filter (\<lambda>k. k \<notin> set (i # j # js)) [j..<length es] =
    filter (\<lambda>k. k \<notin> set (j # js)) [j..<length es]"
    using ij by (auto intro: filter_cong)
  moreover have "map (nth es) [Suc i..<j] = take (j - Suc i) (drop (Suc i) es)"
    using ij by (simp add: map_nth_upt)
  ultimately show ?case using Cons.IH [of j] Cons.prems by simp
qed

lemma lp_kept_without:
  assumes "sorted_wrt (<) (i # is)" and "\<forall>k \<in> set (i # is). k < length es"
  shows "take i es @ lp_kept es (i # is) = lp_without es (i # is)"
proof -
  have i: "i \<le> length es" using assms(2) by simp
  then have "[0..<length es] = [0..<i] @ [i..<length es]" by (metis le_add_diff_inverse upt_add_eq_append zero_le)
  moreover have "filter (\<lambda>k. k \<notin> set (i # is)) [0..<i] = [0..<i]"
    using assms(1) by (auto simp: filter_id_conv)
  moreover have "map (nth es) [0..<i] = take i es" using map_nth_upt [OF i, of 0] by simp
  ultimately show ?thesis
    unfolding lp_without_def lp_kept_filter [OF assms] by (simp only: filter_append map_append)
qed

text \<open>
  One step of the loop: the block holds the kept elements \<open>A\<close>, a gap \<open>G\<close>, and from element \<open>i\<close>
  on what it held at first.
\<close>

lemma lpSkip_body:
  assumes "lp_ok e"
  shows "lpSkip (A @ lp_bytes e @ T) (int (length A)) = Some (int (length A) + int (length (lp_bytes e)))"
proof -
  have "bytes_at (A @ lp_enc e @ (lpEncodeBacklen (int (length (lp_enc e))) @ T)) (int (length A)) (lp_enc e)"
    by (simp add: bytes_at_mid)
  then show ?thesis
    using lp_enc_reads [OF assms] by (simp add: lpSkip_def lp_reads_def lp_bytes_def length_lpEncodeBacklen)
qed

lemma memmove_int_gap:
  assumes "d = int (length A)" and "s = int (length A) + int (length G)" and "n = int (length K)"
  obtains G' where "memmove_int (A @ G @ K @ T) d s n = Some (A @ K @ G' @ T)" and "length G' = length G"
proof
  show "memmove_int (A @ G @ K @ T) d s n = Some (A @ K @ drop (length K) (G @ K) @ T)"
    using memmove_nat [of "length A + length G" "length K" "A @ G @ K @ T" "length A"]
    by (simp add: memmove_int_def assms)
  show "length (drop (length K) (G @ K)) = length G" by simp
qed

lemma lpBatchDelete_head:
  fixes sl :: mem
  assumes "i < length es" and ok: "\<forall>e \<in> set es. lp_ok e" and off: "int (length H) = lp_off es i"
  defines "M \<equiv> H @ lp_body (drop i es) @ [LP_EOF] @ sl"
  shows "\<exists>b. rd M (lp_off es i) = Some b \<and> b \<noteq> LP_EOF"
    and "lpSkip M (lp_off es i) = Some (lp_off es (Suc i))"
    and "M = H @ lp_bytes (es ! i) @ lp_body (drop (Suc i) es) @ [LP_EOF] @ sl"
proof -
  have e: "lp_ok (es ! i)" "drop i es = es ! i # drop (Suc i) es"
    using assms(1) ok by (auto simp: Cons_nth_drop_Suc)
  have "\<forall>e \<in> set (drop i es). lp_ok e" using ok by (auto dest: in_set_dropD)
  from rd_body [OF this, of H sl] show "\<exists>b. rd M (lp_off es i) = Some b \<and> b \<noteq> LP_EOF"
    using assms(1) off by (auto simp: M_def)
  show M: "M = H @ lp_bytes (es ! i) @ lp_body (drop (Suc i) es) @ [LP_EOF] @ sl"
    by (simp add: M_def e(2))
  show "lpSkip M (lp_off es i) = Some (lp_off es (Suc i))"
    using lpSkip_body [OF e(1), of H] off assms(1) unfolding M by (simp add: lp_off_Suc)
qed

lemma lpBatchDelete_loop_last:
  assumes i: "i < length es" and ok: "\<forall>e \<in> set es. lp_ok e"
    and off: "int (length A) + int (length G) = lp_off es i"
  shows "\<exists>rest. lpBatchDelete_loop (A @ G @ lp_body (drop i es) @ [LP_EOF] @ sl) (lp_total es)
      (int (length A)) [lp_off es i] =
    Some (A @ lp_body (drop (Suc i) es) @ [LP_EOF] @ rest,
      int (length A) + int (length (lp_body (drop (Suc i) es))) + 1)"
proof -
  let ?K = "lp_body (drop (Suc i) es) @ [LP_EOF]"
  let ?n = "lp_total es - lp_off es (Suc i)"
  have n: "?n = int (length ?K)" "0 < ?n"
    using i lp_body_split [of "Suc i" es] by (auto simp: lp_off_def lp_total_def)
  note h = lpBatchDelete_head [OF i ok, of "A @ G" sl]
  obtain G' where "memmove_int (A @ (G @ lp_bytes (es ! i)) @ ?K @ sl) (int (length A)) (lp_off es (Suc i))
      ?n = Some (A @ ?K @ G' @ sl)"
    using memmove_int_gap [OF refl _ n(1), of "lp_off es (Suc i)" A "G @ lp_bytes (es ! i)"] off i
    by (auto simp: lp_off_Suc)
  then show ?thesis using h off n by (auto simp: algebra_simps)
qed

lemma lpBatchDelete_loop_ok:
  assumes "sorted_wrt (<) (i # is)" and "\<forall>k \<in> set (i # is). k < length es"
    and "\<forall>e \<in> set es. lp_ok e" and "int (length A) + int (length G) = lp_off es i"
  shows "\<exists>rest. lpBatchDelete_loop (A @ G @ lp_body (drop i es) @ [LP_EOF] @ sl) (lp_total es)
      (int (length A)) (map (lp_off es) (i # is)) =
    Some (A @ lp_body (lp_kept es (i # is)) @ [LP_EOF] @ rest,
      int (length A) + int (length (lp_body (lp_kept es (i # is)))) + 1)"
  using assms
proof (induction "is" arbitrary: i A G)
  case Nil
  then show ?case using lpBatchDelete_loop_last by simp
next
  case (Cons j js)
  let ?T = "lp_body (drop j es) @ [LP_EOF] @ sl" and ?B = "lp_bytes (es ! i)"
  have i: "i < length es" "Suc i \<le> j" "j < length es" using Cons.prems by auto
  note h = lpBatchDelete_head [OF i(1) Cons.prems(3), of "A @ G" sl]
  have tl: "sorted_wrt (<) (j # js)" "\<forall>k \<in> set (j # js). k < length es" using Cons.prems by auto
  define K where "K = lp_seg es (Suc i) j"
  have K: "lp_off es j = lp_off es (Suc i) + int (length K)" "K = lp_body (take (j - Suc i) (drop (Suc i) es))"
    using lp_seg_length [OF i(2), of es] by (auto simp: K_def lp_seg_def)
  have "drop (Suc i) es = take (j - Suc i) (drop (Suc i) es) @ drop j es"
    using i by (metis append_take_drop_id drop_drop le_add_diff_inverse2)
  then have body: "lp_body (drop (Suc i) es) @ [LP_EOF] @ sl = K @ ?T"
    unfolding K(2) by (metis append_assoc lp_body_simps(3))
  have off: "int (length A) + int (length (G @ ?B)) = lp_off es (Suc i)"
    using Cons.prems(4) i(1) by (simp add: lp_off_Suc)
  have M: "A @ G @ lp_body (drop i es) @ [LP_EOF] @ sl = A @ (G @ ?B) @ K @ ?T"
    using h(3) Cons.prems(4) body by simp
  show ?case
  proof (cases "K = []")
    case True
    moreover have "\<forall>e \<in> set (take (j - Suc i) (drop (Suc i) es)). lp_ok e"
      using Cons.prems(3) by (auto dest: in_set_takeD in_set_dropD)
    ultimately have "take (j - Suc i) (drop (Suc i) es) = []"
      using lp_body_ge [of "take (j - Suc i) (drop (Suc i) es)"] K(2)
      by (metis le_zero_eq length_0_conv list.size(3) mult_eq_0_iff zero_neq_numeral)
    then have "lp_kept es (i # j # js) = lp_kept es (j # js)" by simp
    then show ?thesis using Cons.IH [OF tl Cons.prems(3), of A "G @ ?B"] h(1,2) off K(1) True Cons.prems(4) M
      by auto
  next
    case False
    obtain G' where "memmove_int (A @ (G @ ?B) @ K @ ?T) (int (length A)) (lp_off es (Suc i)) (int (length K)) =
        Some (A @ K @ G' @ ?T)" "length G' = length (G @ ?B)"
      using memmove_int_gap [OF refl off [symmetric] refl] by blast
    moreover from this have "lpBatchDelete_loop (A @ (G @ ?B) @ K @ ?T) (lp_total es) (int (length A))
        (map (lp_off es) (i # j # js)) =
      lpBatchDelete_loop (A @ K @ G' @ ?T) (lp_total es) (int (length A) + int (length K)) (map (lp_off es) (j # js))"
      using h(1,2) K(1) False Cons.prems(4) M by (auto simp: Let_def simp del: lpBatchDelete_loop.simps(2)
        simp: lpBatchDelete_loop.simps(2) [of _ _ _ "lp_off es i"])
    moreover have "lp_body (lp_kept es (i # j # js)) = K @ lp_body (lp_kept es (j # js))" by (simp add: K(2))
    ultimately show ?thesis
      using Cons.IH [OF tl Cons.prems(3), of "A @ K" G'] off K(1) unfolding M
      by (simp del: lp_kept.simps lpBatchDelete_loop.simps add: add.assoc)
  qed
qed

lemma lp_without_length:
  assumes "sorted_wrt (<) is" and "\<forall>k \<in> set is. k < length es"
  shows "length es = length (lp_without es is) + length is"
proof -
  have "length (filter (\<lambda>k. k \<in> set is) [0..<length es]) = card (set is)"
    using assms(2) by (subst distinct_card [symmetric]) (auto intro: arg_cong [of _ _ card])
  also have "\<dots> = length is"
    using assms(1) by (simp add: distinct_card strict_sorted_imp_sorted strict_sorted_iff)
  finally show ?thesis
    using sum_length_filter_compl [of "\<lambda>k. k \<in> set is" "[0..<length es]"] by (simp add: lp_without_def)
qed

lemma lp_kept_body:
  assumes "sorted_wrt (<) (i # is)" and "\<forall>k \<in> set (i # is). k < length es"
  shows "length (lp_body (lp_kept es (i # is))) \<le> length (lp_body (drop i es))"
  using assms
proof (induction "is" arbitrary: i)
  case Nil
  then have "drop i es = es ! i # drop (Suc i) es" by (simp add: Cons_nth_drop_Suc)
  then show ?case by simp
next
  case (Cons j js)
  then have "drop i es = es ! i # take (j - Suc i) (drop (Suc i) es) @ drop j es"
    by (metis Cons_nth_drop_Suc append_take_drop_id drop_drop le_add_diff_inverse2 list.set_intros(1)
        list.set_intros(2) Suc_leI sorted_wrt.simps(2))
  then show ?case using Cons.IH [of j] Cons.prems by simp
qed

lemma lpBatchDelete_ok:
  assumes repr: "lp_repr m es" and "sorted_wrt (<) is" and "\<forall>k \<in> set is. k < length es"
  shows "\<exists>m'. lpBatchDelete a m (map (lp_off es) is) = Some m' \<and> lp_repr m' (lp_without es is)"
proof (cases "is")
  case Nil
  have "map (nth es) [0..<length es] = es" by (rule map_nth)
  then show ?thesis using repr Nil by (simp add: lpBatchDelete_def lp_without_def)
next
  case (Cons i js)
  have srt: "sorted_wrt (<) (i # js)" "\<forall>k \<in> set (i # js). k < length es" using assms(2,3) Cons by auto
  let ?fs = "take i es @ lp_kept es (i # js)"
  have fs: "?fs = lp_without es is" using lp_kept_without [OF srt] Cons by simp
  have ok: "\<forall>e \<in> set es. lp_ok e" using repr by (simp add: lp_repr_def)
  obtain num A sl where s: "lp_num_ok num (length es)"
    "A = le_bytes 4 (lp_total es) @ le_bytes 2 num @ lp_body (take i es)"
    "m = A @ lp_body (drop i es) @ [LP_EOF] @ sl" "int (length A) = lp_off es i"
    using lp_repr_split [OF repr, of i] srt(2) by (metis less_imp_le list.set_intros(1))
  obtain rest where loop: "lpBatchDelete_loop m (lp_total es) (lp_off es i) (map (lp_off es) (i # js)) =
    Some (A @ lp_body (lp_kept es (i # js)) @ [LP_EOF] @ rest,
      int (length A) + int (length (lp_body (lp_kept es (i # js)))) + 1)"
    using lpBatchDelete_loop_ok [OF srt ok, of A "[]" sl] s(3,4) by auto
  have tot: "int (length A) + int (length (lp_body (lp_kept es (i # js)))) + 1 = lp_total ?fs"
    by (simp add: s(2) lp_total_def del: lp_kept.simps)
  have len: "length es = length ?fs + length (i # js)" using lp_without_length [OF srt] fs Cons by simp
  have "\<forall>e \<in> set ?fs. lp_ok e" using ok by (auto simp: fs lp_without_def)
  moreover have "lp_total ?fs < 2 ^ 32"
    using lp_kept_body [of i js es] srt lp_total_less [OF repr] lp_body_split [of i es]
    by (simp add: lp_total_def del: lp_kept.simps)
  ultimately obtain m' where m': "lpDelete_finish a (A @ lp_body (lp_kept es (i # js)) @ [LP_EOF] @ rest) (lp_total ?fs)
      (int (length (i # js))) = Some m'" "lp_repr m' ?fs"
    using lp_remove_finish [OF s(1) len _ _, of _ "lp_total es" rest a] s(2) by fastforce
  have "rd (A @ lp_body (lp_kept es (i # js)) @ [LP_EOF] @ rest) (lp_total ?fs - 1) = Some LP_EOF"
    using rd_body [of "[]" "A @ lp_body (lp_kept es (i # js))" rest]
    unfolding tot [symmetric] by auto
  then show ?thesis
    using loop m' lp_repr_total [OF repr] lp_repr_eof [OF repr] fs Cons lp_off_length [of es]
    unfolding tot by (auto simp: lpBatchDelete_def simp del: lp_kept.simps lpBatchDelete_loop.simps)
qed

section \<open>Merging\<close>

lemma lpMerge_append:
  assumes t: "target = P @ [x] @ Z" and src: "source = h @ B @ r" "length h = 6" "length B \<le> length Z + 1"
  shows "\<exists>rest. Option.bind (load source 6 (length B)) (store target (int (length P))) = Some (P @ B @ rest)"
proof -
  have "load source 6 (length B) = Some B" using src(2) load_nat [of 6 "length B" source] by (simp add: src(1))
  then show ?thesis using src(3) by (simp add: t store_nat)
qed

lemma lpMerge_prepend:
  assumes t: "target = h @ B @ Z" "length h = 6" and src: "source = Q @ r" "6 \<le> length Q"
    and room: "length Q \<le> length Z + 6"
  shows "\<exists>rest. Option.bind (memmove_int target (int (length Q)) 6 (int (length B)))
    (\<lambda>target. Option.bind (load source 0 (length Q)) (store target 0)) = Some (Q @ B @ rest)"
proof -
  have mv: "memmove_int target (int (length Q)) 6 (int (length B)) =
    Some (take (length Q) target @ B @ drop (length Q + length B) target)"
    using memmove_nat [of 6 "length B" target "length Q"] t room by (simp add: memmove_int_def)
  have ld: "load source 0 (length Q) = Some Q" using load_nat [of 0 "length Q" source] by (simp add: src(1))
  have "length (take (length Q) target) = length Q" using t room by simp
  then have "store (take (length Q) target @ B @ drop (length Q + length B) target) 0 Q =
    Some (Q @ B @ drop (length Q + length B) target)"
    using store_nat [of 0 Q "take (length Q) target @ B @ drop (length Q + length B) target"] by simp
  then show ?thesis by (simp add: mv ld)
qed

lemma realloc_grow:
  assumes "length P \<le> n"
  obtains Z where "realloc a (P @ r) n = P @ Z" and "n \<le> length P + length Z"
proof
  show "realloc a (P @ r) n = P @ drop (length P) (realloc a (P @ r) n)"
    using take_realloc [of "length P" n "P @ r" a] assms
    by (metis append_eq_conv_conj append_take_drop_id le_add1 length_append)
  show "n \<le> length P + length (drop (length P) (realloc a (P @ r) n))" using assms by simp
qed

lemma lp_repr_shape:
  assumes "lp_repr m es"
  obtains h4 h2 sl where "m = h4 @ h2 @ lp_body es @ [LP_EOF] @ sl" and "length h4 = 4" and "length h2 = 2"
  using assms by (auto simp: lp_repr_def lp_image_def)

lemma lpMerge_copy:
  assumes t: "lp_repr target es" and src: "lp_repr source gs"
    and fs: "fs = (if app then es @ gs else gs @ es)"
  shows "\<exists>h4 h2 rest. (if app then
        Option.bind (load source 6 (nat (lp_total gs - 6)))
          (store (realloc a target (nat (lp_total fs))) (lp_total es - 1))
      else Option.bind (memmove_int (realloc a target (nat (lp_total fs))) (lp_total gs - 1) 6 (lp_total es - 6))
        (\<lambda>target. Option.bind (load source 0 (nat (lp_total gs - 1))) (store target 0))) =
    Some (h4 @ h2 @ lp_body fs @ [LP_EOF] @ rest) \<and> length h4 = 4 \<and> length h2 = 2"
proof -
  obtain h4 h2 sl where T: "target = h4 @ h2 @ lp_body es @ [LP_EOF] @ sl" "length h4 = 4" "length h2 = 2"
    by (rule lp_repr_shape [OF t])
  obtain k4 k2 r where S: "source = k4 @ k2 @ lp_body gs @ [LP_EOF] @ r" "length k4 = 4" "length k2 = 2"
    by (rule lp_repr_shape [OF src])
  let ?P = "h4 @ h2 @ lp_body es" and ?Q = "k4 @ k2 @ lp_body gs"
  have N: "nat (lp_total fs) = length ?P + 1 + length (lp_body gs)"
    using fs T by (auto simp: lp_total_def)
  obtain Z where Z: "realloc a target (nat (lp_total fs)) = ?P @ [LP_EOF] @ Z" "length (lp_body gs) \<le> length Z"
    using realloc_grow [of "?P @ [LP_EOF]" "nat (lp_total fs)" a sl] N T(1) by auto
  show ?thesis
  proof (cases app)
    case True
    have "nat (lp_total gs - 6) = length (lp_body gs @ [LP_EOF])" "lp_total es - 1 = int (length ?P)"
      using T by (auto simp: lp_total_def)
    then show ?thesis
      using lpMerge_append [of _ ?P LP_EOF Z source "k4 @ k2" "lp_body gs @ [LP_EOF]" r] True Z S T fs
      by fastforce
  next
    case False
    have "nat (lp_total gs - 1) = length ?Q" "lp_total gs - 1 = int (length ?Q)"
      "lp_total es - 6 = int (length (lp_body es @ [LP_EOF]))"
      using S by (auto simp: lp_total_def)
    then show ?thesis
      using lpMerge_prepend [of _ "h4 @ h2" "lp_body es @ [LP_EOF]" Z source ?Q] False Z S T fs
      by fastforce
  qed
qed

lemma lp_total_append: "lp_total (es @ gs) = lp_total es + lp_total gs - 7"
  by (simp add: lp_total_def)

lemma lpMerge_ok:
  assumes r1: "lp_repr m1 es" and r2: "lp_repr m2 gs"
  shows "if lp_total (es @ gs) < UINT32_MAX
    then \<exists>m. lpMerge a m1 m2 = Some (m, lp_total es \<ge> lp_total gs) \<and> lp_repr m (es @ gs)
    else lpMerge a m1 m2 = None"
proof -
  obtain n1 where n1: "lpLength m1 = Some (n1, int (length es))" "lp_repr n1 es" using lpLength_off [OF r1] by blast
  obtain n2 where n2: "lpLength m2 = Some (n2, int (length gs))" "lp_repr n2 gs" using lpLength_off [OF r2] by blast
  have t: "lpBytes m1 = Some (lp_total es)" "lpBytes m2 = Some (lp_total gs)"
    using lp_repr_total r1 r2 by (auto simp: lpBytes_def)
  have sz: "u64 (lp_total es + lp_total gs - 7) = lp_total (es @ gs)"
    using lp_total_less [OF r1] lp_total_less [OF r2] by (simp add: lp_total_append u64_def)
  define k where "k = int (length es) + int (length gs)"
  have ku: "u64 k = k" using lp_repr_count [OF r1] lp_repr_count [OF r2] by (simp add: k_def u64_def)
  let ?num = "if k < UINT16_MAX then k else UINT16_MAX"
  note e = n1(1) n2(1) t sz ku k_def [symmetric]
  show ?thesis
  proof (cases "lp_total (es @ gs) < UINT32_MAX")
    case False
    then show ?thesis by (simp add: lpMerge_def e Let_def guard_def split: prod.splits)
  next
    case True
    have num: "lp_num_ok ?num (length (es @ gs))" by (simp add: lp_num_ok_def k_def)
    have fin: "lp_repr (le_bytes 4 (lp_total (es @ gs)) @ le_bytes 2 ?num @ lp_body (es @ gs) @ [LP_EOF] @ rest) (es @ gs)"
      for rest
      using True r1 r2 num by (intro lp_repr_join) (auto simp: lp_repr_def)
    show ?thesis
    proof (cases "lp_total es \<ge> lp_total gs")
      case app: True
      obtain h4 h2 rest where "Option.bind (load n2 6 (nat (lp_total gs - 6)))
          (store (realloc a n1 (nat (lp_total (es @ gs)))) (lp_total es - 1)) =
        Some (h4 @ h2 @ lp_body (es @ gs) @ [LP_EOF] @ rest)" "length h4 = 4" "length h2 = 2"
        using lpMerge_copy [OF n1(2) n2(2), of "es @ gs" True a] by auto
      then show ?thesis using True app fin [of rest]
        by (simp add: lpMerge_def e lp_set_num lp_set_total Let_def del: Option.bind_assoc cong: if_cong split del: if_split)
    next
      case app: False
      obtain h4 h2 rest where "Option.bind (memmove_int (realloc a n2 (nat (lp_total (es @ gs)))) (lp_total es - 1) 6
          (lp_total gs - 6)) (\<lambda>target. Option.bind (load n1 0 (nat (lp_total es - 1))) (store target 0)) =
        Some (h4 @ h2 @ lp_body (es @ gs) @ [LP_EOF] @ rest)" "length h4 = 4" "length h2 = 2"
        using lpMerge_copy [OF n2(2) n1(2), of "es @ gs" False a] by auto
      then show ?thesis using True app fin [of rest]
        by (simp add: lpMerge_def e lp_set_num lp_set_total Let_def del: Option.bind_assoc cong: if_cong split del: if_split)
    qed
  qed
qed

end
