(* ===== verification/Listpack_Validate.thy ===== *)
theory Listpack_Validate
  imports Listpack_Range
begin

text \<open>
  The validation of a block of unknown bytes: it ends and reads nothing outside the block, it
  accepts every well-formed listpack, and a block it accepts can be walked by the traversal
  functions, none of whose assertions fails.
\<close>

section \<open>Validation reads the block only\<close>

lemma rd_inside: "0 \<le> p \<Longrightarrow> p < int (length m) \<Longrightarrow> \<exists>b. rd m p = Some b"
  by (simp add: rd_def)

lemma lpDecodeBacklen_inside:
  assumes "4 \<le> p" and "p < int (length m)"
  shows "\<exists>v. lpDecodeBacklen m p = Some v"
proof -
  obtain b0 b1 b2 b3 b4 where "rd m p = Some b0" "rd m (p - 1) = Some b1" "rd m (p - 2) = Some b2"
    "rd m (p - 3) = Some b3" "rd m (p - 4) = Some b4"
    using assms rd_inside [of p m] rd_inside [of "p - 1" m] rd_inside [of "p - 2" m]
      rd_inside [of "p - 3" m] rd_inside [of "p - 4" m] by auto
  then show ?thesis by (simp add: lpDecodeBacklen_def Let_def)
qed

lemma lpCurrentEncodedSizeUnsafe_inside:
  assumes "0 \<le> p" and "rd m p = Some b" and "p + lpCurrentEncodedSizeBytes b < int (length m)"
  shows "\<exists>n. lpCurrentEncodedSizeUnsafe m p = Some n \<and> 0 \<le> n"
proof -
  have "rd m (p + 1) \<noteq> None" if "2 \<le> lpCurrentEncodedSizeBytes b"
    using assms that by (simp add: rd_def)
  moreover have "rd m (p + 2) \<noteq> None" "rd m (p + 3) \<noteq> None" "rd m (p + 4) \<noteq> None" "rd m (p + 1) \<noteq> None"
    if "5 \<le> lpCurrentEncodedSizeBytes b"
    using assms that by (simp_all add: rd_def)
  ultimately show ?thesis
    using assms(2)
    by (auto simp: lpCurrentEncodedSizeUnsafe_def lpCurrentEncodedSizeBytes_def LP_ENCODING_6BIT_STR_LEN_def
        LP_ENCODING_12BIT_STR_LEN_def LP_ENCODING_32BIT_STR_LEN_def u32_def
        split: if_splits)
qed

lemma lpValidateNext_inside:
  assumes "lpbytes \<le> int (length m)"
  shows "\<exists>ok q. lpValidateNext m (Some p) lpbytes = Some (ok, q) \<and>
    (ok \<and> q \<noteq> None \<longrightarrow> p < the q \<and> the q < lpbytes)"
proof (cases "OUT_OF_RANGE lpbytes p")
  case True
  then show ?thesis by (auto simp: lpValidateNext_def)
next
  case False
  then have p: "6 \<le> p" "p < lpbytes" by (auto simp: OUT_OF_RANGE_def)
  then obtain b where b: "rd m p = Some b" using rd_inside [of p m] assms by auto
  show ?thesis
  proof (cases "b = LP_EOF \<or> lpCurrentEncodedSizeBytes b = 0 \<or> OUT_OF_RANGE lpbytes (p + lpCurrentEncodedSizeBytes b)")
    case True
    then show ?thesis using False b by (auto simp: lpValidateNext_def Let_def)
  next
    case nx: False
    then have "p + lpCurrentEncodedSizeBytes b < int (length m)" using assms by (simp add: OUT_OF_RANGE_def)
    then obtain n where n: "lpCurrentEncodedSizeUnsafe m p = Some n" "0 \<le> n"
      using lpCurrentEncodedSizeUnsafe_inside [OF _ b] p by auto
    have bl: "1 \<le> lpEncodeBacklenBytes n" using lpEncodeBacklenBytes_range by blast
    show ?thesis
    proof (cases "OUT_OF_RANGE lpbytes (p + (n + lpEncodeBacklenBytes n))")
      case True
      then show ?thesis using False b nx n by (auto simp: lpValidateNext_def Let_def)
    next
      case inr: False
      then obtain v where "lpDecodeBacklen m (p + (n + lpEncodeBacklenBytes n) - 1) = Some v"
        using lpDecodeBacklen_inside [of "p + (n + lpEncodeBacklenBytes n) - 1" m] p n bl assms
        by (auto simp: OUT_OF_RANGE_def)
      then show ?thesis using False b nx n inr bl by (auto simp: lpValidateNext_def Let_def OUT_OF_RANGE_def)
    qed
  qed
qed

lemma lpValidate_loop_inside:
  assumes "bytes \<le> int (length m)" and "6 \<le> p" and "p < bytes"
  shows "\<exists>r. lpValidate_loop m bytes numele cb (Some p) c ud = Some r"
  using assms(2,3)
proof (induction "nat (bytes - p)" arbitrary: p c ud rule: less_induct)
  case less
  obtain b where b: "rd m p = Some b" using rd_inside [of p m] less.prems assms(1) by auto
  obtain ok q where v: "lpValidateNext m (Some p) bytes = Some (ok, q)"
    "ok \<and> q \<noteq> None \<longrightarrow> p < the q \<and> the q < bytes"
    using lpValidateNext_inside [OF assms(1)] by blast
  show ?case
  proof (cases q)
    case None
    then show ?thesis using b v(1)
      by (subst lpValidate_loop.simps) (auto simp: Let_def lpValidate_loop.simps [of _ _ _ _ None] split: prod.split option.split)
  next
    case (Some p')
    have "ok \<Longrightarrow> \<exists>r. lpValidate_loop m bytes numele cb (Some p') c' ud' = Some r" for c' ud'
      using less.hyps [of p'] less.prems v(2) Some by simp
    then show ?thesis using b v(1) Some
      by (subst lpValidate_loop.simps) (auto simp: Let_def split: prod.split option.split)
  qed
qed

lemma lpValidateIntegrity_inside:
  assumes "sz \<le> int (length m)"
  shows "\<exists>r. lpValidateIntegrity m sz deep cb ud = Some r"
proof (cases "sz < 7")
  case True
  then show ?thesis by (auto simp: lpValidateIntegrity_def)
next
  case False
  then have "\<exists>b. rd m k = Some b" if "0 \<le> k" "k < 7" for k using that assms rd_inside [of k m] by simp
  from this [of 0] this [of 1] this [of 2] this [of 3] this [of 4] this [of 5]
  obtain t n where "lpGetTotalBytes m = Some t" "lpGetNumElements m = Some n"
    by (auto simp: lpGetTotalBytes_def lpGetNumElements_def)
  moreover obtain b where "rd m (sz - 1) = Some b" using rd_inside [of "sz - 1" m] False assms by auto
  moreover obtain r where "lpValidate_loop m sz n cb (Some 6) 0 ud = Some r"
    using lpValidate_loop_inside [OF assms, of 6 n cb 0 ud] False by auto
  ultimately show ?thesis using False
    by (cases r) (auto simp: lpValidateIntegrity_def split: prod.split)
qed

section \<open>Well-formed listpacks are accepted\<close>

lemma lpValidate_loop_off:
  assumes "lp_repr m es" and "i \<le> length es" and "0 \<le> c" and "c + int (length es - i) < 2 ^ 32"
  shows "lpValidate_loop m (lp_total es) numele None (Some (lp_off es i)) c ud =
    Some (Some (Some (lp_total es - 1), c + int (length es - i)))"
  using assms(2-)
proof (induction "length es - i" arbitrary: i c)
  case 0
  then show ?case using lp_repr_eof [OF assms(1)] lp_off_length [of es]
    by (subst lpValidate_loop.simps) simp
next
  case (Suc k)
  then have i: "i < length es" by simp
  obtain b where b: "rd m (lp_off es i) = Some b" "b \<noteq> LP_EOF"
    using rd_off [OF assms(1), of i] i by auto
  have "u32 (c + 1) = c + 1" using Suc i by (simp add: u32_def)
  moreover have "lpValidate_loop m (lp_total es) numele None (Some (lp_off es (Suc i))) (c + 1) ud =
    Some (Some (Some (lp_total es - 1), c + 1 + int (length es - Suc i)))"
    using Suc.hyps(1) [of "Suc i" "c + 1"] Suc.hyps(2) Suc.prems i by simp
  ultimately show ?case using b lpValidateNext_off [OF assms(1) i] i
    by (subst lpValidate_loop.simps) simp
qed

lemma lpValidateIntegrity_accepts:
  assumes "lp_repr m es"
  shows "lpValidateIntegrity m (lp_total es) deep None ud = Some True"
proof -
  obtain num where num: "lpGetNumElements m = Some num" "lp_num_ok num (length es)"
    using lp_repr_header [OF assms] by blast
  have "lpValidate_loop m (lp_total es) num None (Some 6) 0 ud =
    Some (Some (Some (lp_total es - 1), int (length es)))"
    using lpValidate_loop_off [OF assms, of 0 0] lp_repr_count [OF assms] by simp
  moreover have "rd m (lp_total es - 1) = Some LP_EOF"
    using lp_repr_eof [OF assms] lp_off_length [of es] by simp
  ultimately show ?thesis
    using num lp_repr_total [OF assms] lp_total_less [OF assms]
    by (auto simp: lpValidateIntegrity_def lp_num_ok_def)
qed

section \<open>Accepted blocks can be read\<close>

text \<open>A walk of \<open>n\<close> entries from \<open>p\<close> to the end byte, each one valid.\<close>

inductive lp_walk :: "mem \<Rightarrow> int \<Rightarrow> int \<Rightarrow> nat \<Rightarrow> bool" for m bytes where
  lp_walk_end: "rd m p = Some LP_EOF \<Longrightarrow> p = bytes - 1 \<Longrightarrow> lp_walk m bytes p 0"
| lp_walk_step: "rd m p = Some b \<Longrightarrow> b \<noteq> LP_EOF \<Longrightarrow> lpValidateNext m (Some p) bytes = Some (True, Some q) \<Longrightarrow>
    lp_walk m bytes q n \<Longrightarrow> lp_walk m bytes p (Suc n)"

inductive_cases lp_walk_0E: "lp_walk m bytes p 0"
inductive_cases lp_walk_SucE: "lp_walk m bytes p (Suc n)"

lemma lpValidateNext_Some:
  assumes "lpValidateNext m (Some p) bytes = Some (True, q)" and "rd m p = Some b" and "b \<noteq> LP_EOF"
  obtains n v where "lpCurrentEncodedSizeBytes b \<noteq> 0" and "lpCurrentEncodedSizeUnsafe m p = Some n"
    and "q = Some (p + (n + lpEncodeBacklenBytes n))" and "6 \<le> p"
    and "p + (n + lpEncodeBacklenBytes n) < bytes" and "p + lpCurrentEncodedSizeBytes b < bytes"
    and "lpDecodeBacklen m (p + (n + lpEncodeBacklenBytes n) - 1) = Some v"
    and "u64 (v + lpEncodeBacklenBytes n) = n + lpEncodeBacklenBytes n"
  using assms by (auto simp: lpValidateNext_def Let_def bind_eq_Some_conv OUT_OF_RANGE_def split: if_splits)

lemma lpSkip_walk:
  "lpValidateNext m (Some p) bytes = Some (True, Some q) \<Longrightarrow> rd m p = Some b \<Longrightarrow> b \<noteq> LP_EOF \<Longrightarrow>
   lpSkip m p = Some q"
  by (erule (2) lpValidateNext_Some) (simp add: lpSkip_def)

lemma lpNext_walk:
  assumes "lp_walk m bytes p (Suc n)" and "lpGetTotalBytes m = Some bytes"
  obtains q where "lpNext m p = Some (if n = 0 then None else Some q)" and "lp_walk m bytes q n" 
proof -
  obtain b q where w: "rd m p = Some b" "b \<noteq> LP_EOF" "lpValidateNext m (Some p) bytes = Some (True, Some q)"
    "lp_walk m bytes q n"
    using assms(1) by (elim lp_walk_SucE)
  then have "lpNext m p = Some (if n = 0 then None else Some q)"
    using assms(2) lpSkip_walk [OF w(3,1,2)]
    by (cases n) (auto elim!: lp_walk_0E lp_walk_SucE simp: lpNext_def lpBytes_def lpAssertValidEntry_def)
  then show thesis using that w(4) by blast
qed

lemma lpValidate_loop_walk:
  assumes "bytes \<le> int (length m)" and "6 \<le> p" and "p < bytes"
    and "lpValidate_loop m bytes numele None (Some p) c ud = Some (Some (Some (bytes - 1), c'))"
  shows "\<exists>n. lp_walk m bytes p n \<and> c' mod 2 ^ 32 = (c + int n) mod 2 ^ 32"
  using assms(2-)
proof (induction "nat (bytes - p)" arbitrary: p c rule: less_induct)
  case less
  obtain b where b: "rd m p = Some b" using rd_inside [of p m] less.prems assms(1) by auto
  note unroll = lpValidate_loop.simps [of m bytes numele None "Some p" c ud]
  show ?case
  proof (cases "b = LP_EOF")
    case True
    then have "p = bytes - 1" "c' = c" using less.prems(3) b unroll by auto
    then show ?thesis using lp_walk_end [of m p bytes] b True by (intro exI [of _ 0]) simp
  next
    case False
    obtain q' where q': "lpValidateNext m (Some p) bytes = Some (True, q')"
      "lpValidate_loop m bytes numele None q' (u32 (c + 1)) ud = Some (Some (Some (bytes - 1), c'))"
      using less.prems(3) b False unfolding unroll by (auto simp: bind_eq_Some_conv split: if_splits)
    obtain q where q: "q' = Some q" by (rule lpValidateNext_Some [OF q'(1) b False]) blast
    have "p < q" "q < bytes" using lpValidateNext_inside [OF assms(1), of p] q'(1) q by auto
    then obtain n where "lp_walk m bytes q n" "c' mod 2 ^ 32 = (u32 (c + 1) + int n) mod 2 ^ 32"
      using less.hyps [of q "u32 (c + 1)"] less.prems q'(2) q by force
    then show ?thesis using lp_walk_step [OF b False q'(1) [unfolded q]] 
      by (intro exI [of _ "Suc n"]) (simp add: u32_def mod_simps algebra_simps)
  qed
qed

lemma lpValidateIntegrity_walk:
  assumes "sz \<le> int (length m)" and "lpValidateIntegrity m sz True None ud = Some True"
  obtains n num where "lp_walk m sz 6 n" and "lpGetTotalBytes m = Some sz" and "7 \<le> sz"
    and "lpGetNumElements m = Some num" and "num = LP_HDR_NUMELE_UNKNOWN \<or> num mod 2 ^ 32 = int n mod 2 ^ 32"
proof -
  obtain num r where h: "7 \<le> sz" "lpGetTotalBytes m = Some sz" "lpGetNumElements m = Some num"
    "lpValidate_loop m sz num None (Some 6) 0 ud = Some r"
    and r: "(case r of None \<Rightarrow> Some False | Some (p, count) \<Rightarrow>
      if p \<noteq> Some (sz - 1) then Some False
      else if num \<noteq> LP_HDR_NUMELE_UNKNOWN \<and> num \<noteq> count then Some False else Some True) = Some True"
    using assms(2) by (auto simp: lpValidateIntegrity_def bind_eq_Some_conv split: if_split_asm)
  then obtain c where c: "r = Some (Some (sz - 1), c)" "num = LP_HDR_NUMELE_UNKNOWN \<or> num = c"
    by (auto split: option.split_asm prod.split_asm if_split_asm)
  then show thesis using lpValidate_loop_walk [OF assms(1) _ _ h(4) [unfolded c(1)]] that c(2) h(1-3) by auto
qed

text \<open>
  The size of an entry is computed in 32 bits and would wrap for a string of more than
  \<open>2 ^ 32 - 6\<close> bytes; the check of the back length refuses such an entry.
\<close>

lemma lpDecodeBacklen_low:
  assumes "lpDecodeBacklen m p = Some v" and "rd m p = Some b"
  shows "v = UINT64_MAX \<or> v mod 128 = uint b mod 128"
proof -
  have "(x OR push_bit k y) mod 128 = x mod 128" if "7 \<le> k" for x y :: int and k
    using that by (simp flip: take_bit_eq_mod [of 7, simplified] add: take_bit_or take_bit_push_bit)
  moreover have "uint (b AND 127) = uint b mod 128" by (simp add: mask_simps)
  ultimately show ?thesis using assms
    by (auto simp: lpDecodeBacklen_def Let_def bind_eq_Some_conv split: if_splits)
qed

lemma four_bytes_max:
  fixes a b c d :: int
  assumes "a < 256" and "b < 256" and "c < 256" and "d < 256"
    and "4294967291 \<le> a + 256 * (b + 256 * (c + 256 * d))"
  shows "b = 255 \<and> c = 255 \<and> d = 255 \<and> 251 \<le> a"
proof -
  have e: "4294967291 \<le> a + 256 * b + 65536 * c + 16777216 * d" using assms(5) by (simp add: algebra_simps)
  have d: "d = 255" using assms(1-4) e by linarith
  have c: "c = 255" using assms(1-4) e d by linarith
  have "b = 255" using assms(1-4) e d c by linarith
  then show ?thesis using e d c by linarith
qed

lemma lpValidateNext_no_wrap:
  assumes v: "lpValidateNext m (Some p) bytes = Some (True, q)" and rb: "rd m p = Some b"
    and str: "LP_ENCODING_IS_32BIT_STR b" and l: "LP_ENCODING_32BIT_STR_LEN m p = Some n"
  shows "n < 2 ^ 32 - 5"
proof (rule ccontr)
  assume big: "\<not> n < 2 ^ 32 - 5"
  obtain b1 b2 b3 b4 where r: "rd m (p + 1) = Some b1" "rd m (p + 2) = Some b2" "rd m (p + 3) = Some b3"
    "rd m (p + 4) = Some b4" and "n = le_uint [b1, b2, b3, b4]"
    using l by (auto simp: LP_ENCODING_32BIT_STR_LEN_def le_uint4 bind_eq_Some_conv)
  then have n: "n = uint b1 + 256 * (uint b2 + 256 * (uint b3 + 256 * uint b4))" by simp
  have ub: "uint b1 < 256" "uint b2 < 256" "uint b3 < 256" "uint b4 < 256" using uint_byte_less by auto
  have big': "4294967291 \<le> n" using big by simp
  have hi: "uint b2 = 255 \<and> uint b3 = 255 \<and> uint b4 = 255 \<and> 251 \<le> uint b1"
    by (rule four_bytes_max) (use ub big' n in simp_all)
  define s where "s = u32 (5 + n)"
  have "5 + n = (uint b1 - 251) + 2 ^ 32" using hi n by simp
  then have "s = (uint b1 - 251) mod 2 ^ 32" by (simp only: s_def u32_def mod_add_self2)
  then have s: "s = uint b1 - 251" "0 \<le> s" "s \<le> 4" using hi ub(1) by auto
  have sz: "lpCurrentEncodedSizeUnsafe m p = Some s" "b \<noteq> LP_EOF" and b: "uint b = 240"
    using rb l str by (auto simp: lpCurrentEncodedSizeUnsafe_def lp_tests s_def)
  have bl: "lpEncodeBacklenBytes s = 1" using s by (simp add: lpEncodeBacklenBytes_def)
  obtain n' w where n': "lpCurrentEncodedSizeUnsafe m p = Some n'"
    "lpDecodeBacklen m (p + (n' + lpEncodeBacklenBytes n') - 1) = Some w"
    "u64 (w + lpEncodeBacklenBytes n') = n' + lpEncodeBacklenBytes n'"
    by (rule lpValidateNext_Some [OF v rb sz(2)])
  then have w: "lpDecodeBacklen m (p + s) = Some w" "u64 (w + 1) = s + 1" using sz(1) bl by auto
  have "\<exists>c. rd m (p + s) = Some c \<and> 112 \<le> uint c mod 128"
  proof -
    consider "s = 0" | "s = 1" | "s = 2" | "s = 3" | "s = 4" using s by linarith
    then show ?thesis
    proof cases
      case 1
      then show ?thesis using rb b by simp
    next
      case 2
      then have "uint b1 = 252" using s(1) by simp
      then show ?thesis using 2 r(1) by simp
    qed (use r hi in simp_all)
  qed
  then obtain c where c: "rd m (p + s) = Some c" "112 \<le> uint c mod 128" by blast
  have "w \<noteq> UINT64_MAX" using w(2) s(2) by (auto simp: u64_def)
  then have "112 \<le> w mod 128" using lpDecodeBacklen_low [OF w(1) c(1)] c(2) by simp
  moreover have "w mod 128 = (u64 (w + 1) - 1) mod 128"
  proof -
    have "(w + 1) mod 2 ^ 64 mod 128 = (w + 1) mod 128" by (rule mod_mod_cancel) simp
    then have "((w + 1) mod 2 ^ 64 - 1) mod 128 = (w + 1 - 1) mod 128" by (rule mod_diff_cong) simp
    then show ?thesis by (simp add: u64_def)
  qed
  ultimately show False using w(2) s(2,3) by simp
qed

lemma lp_rd_le_inside:
  "0 \<le> p \<Longrightarrow> p + int n \<le> int (length m) \<Longrightarrow> \<exists>v. lp_rd_le m p n sh = Some v"
proof (induction n arbitrary: p sh)
  case (Suc n)
  then obtain b where "rd m p = Some b" using rd_inside [of p m] by auto
  then show ?case using Suc.IH [of "p + 1" "sh + 8"] Suc.prems by auto
qed simp

text \<open>A reader at a valid entry: the value, and a string lies inside the entry.\<close>

definition lp_inside :: "int \<Rightarrow> int \<Rightarrow> lpval \<Rightarrow> bool" where
  "lp_inside p q v = (case v of LpString s n \<Rightarrow> p < s \<and> 0 \<le> n \<and> s + n < q | _ \<Rightarrow> True)"

lemma lpGet_inside:
  assumes v: "lpValidateNext m (Some p) bytes = Some (True, Some q)" and b: "rd m p = Some b" "b \<noteq> LP_EOF"
    and len: "bytes \<le> int (length m)"
  shows "\<exists>r. lpGet m p None = Some r \<and> lp_inside p q r"
proof -
  obtain n where n: "lpCurrentEncodedSizeBytes b \<noteq> 0" "lpCurrentEncodedSizeUnsafe m p = Some n"
    "q = p + (n + lpEncodeBacklenBytes n)" "6 \<le> p" "q < bytes"
    by (rule lpValidateNext_Some [OF v b]) simp
  have bl: "1 \<le> lpEncodeBacklenBytes n" using lpEncodeBacklenBytes_range by blast
  note size = n(2) [unfolded lpCurrentEncodedSizeUnsafe_def] and wrap = lpValidateNext_no_wrap [OF v b(1)]
  have rdle: "\<exists>u. lp_rd_le m (p + 1) k 0 = Some u" if "n = 1 + int k" for k
    using lp_rd_le_inside [of "p + 1" k m 0] n(3-5) that bl len by simp
  have rd1: "\<exists>c. rd m (p + 1) = Some c" if "n = 2"
    using rd_inside [of "p + 1" m] n(3-5) that bl len by simp
  consider (s6) "LP_ENCODING_IS_6BIT_STR b" | (s12) "LP_ENCODING_IS_12BIT_STR b" | (s32) "LP_ENCODING_IS_32BIT_STR b"
    | (i) "\<not> LP_ENCODING_IS_6BIT_STR b" "\<not> LP_ENCODING_IS_12BIT_STR b" "\<not> LP_ENCODING_IS_32BIT_STR b" by blast
  then show ?thesis
  proof cases
    case s6
    then have "\<not> LP_ENCODING_IS_7BIT_UINT b" by (simp add: lp_tests)
    then show ?thesis using s6 size b bl n(3) 
      by (auto simp: lpGet_def lpGetWithBuf_def lp_inside_def bind_eq_Some_conv LP_ENCODING_6BIT_STR_LEN_def)
  next
    case s12
    then show ?thesis using size b bl n(3)
      by (auto simp: lpGet_def lpGetWithBuf_def lp_inside_def bind_eq_Some_conv LP_ENCODING_12BIT_STR_LEN_def lp_tests)
  next
    case s32
    then obtain c where c: "LP_ENCODING_32BIT_STR_LEN m p = Some c" "n = u32 (5 + c)"
      using size b by (auto simp: bind_eq_Some_conv lp_tests)
    moreover have "0 \<le> c" using c(1) by (auto simp: LP_ENCODING_32BIT_STR_LEN_def bind_eq_Some_conv)
    moreover have "c < 2 ^ 32 - 5" using wrap [OF s32 c(1)] .
    ultimately have "n = 5 + c" "0 \<le> c" by (auto simp: u32_def)
    then show ?thesis using s32 c(1) b bl n(3)
      by (auto simp: lpGet_def lpGetWithBuf_def lp_inside_def lp_tests)
  next
    case i
    then show ?thesis using size b(1) rd1 rdle [of 2] rdle [of 3] rdle [of 4] rdle [of 8]
      by (auto simp: lpGet_def lpGetWithBuf_def lp_inside_def lp_return_int_def split: if_splits)
  qed
qed

lemma lp_walk_get:
  assumes "lp_walk m bytes p (Suc n)" and "bytes \<le> int (length m)"
  shows "\<exists>r. lpGet m p None = Some r \<and> lp_inside p bytes r"
proof -
  obtain b q where w: "rd m p = Some b" "b \<noteq> LP_EOF" "lpValidateNext m (Some p) bytes = Some (True, Some q)"
    using assms(1) by (elim lp_walk_SucE)
  moreover have "q < bytes" using lpValidateNext_inside [OF assms(2), of p] w(3) by auto
  ultimately show ?thesis using lpGet_inside [OF w(3,1,2) assms(2)]
    by (fastforce simp: lp_inside_def split: lpval.split_asm)
qed

lemma lpSeek_forward_walk:
  assumes "lp_walk m bytes p n" and "lpGetTotalBytes m = Some bytes"
  shows "\<exists>q. lpSeek_forward m k (if n = 0 then None else Some p) = Some (if k < n then Some q else None) \<and>
    (k < n \<longrightarrow> lp_walk m bytes q (n - k))"
  using assms(1)
proof (induction k arbitrary: p n)
  case (Suc k)
  show ?case
  proof (cases n)
    case (Suc n')
    obtain q where "lpNext m p = Some (if n' = 0 then None else Some q)" "lp_walk m bytes q n'"
      using lpNext_walk [of m bytes p n'] Suc.prems \<open>n = Suc n'\<close> assms(2) by blast
    then show ?thesis using Suc.IH [of q n'] \<open>n = Suc n'\<close> by auto
  qed simp
qed auto

lemma lpFirst_walk:
  assumes "lp_walk m bytes 6 n" and "lpGetTotalBytes m = Some bytes"
  shows "lpFirst m = Some (if n = 0 then None else Some 6)"
  using assms
  by (cases n) (auto elim!: lp_walk_0E lp_walk_SucE simp: lpFirst_def lpBytes_def lpAssertValidEntry_def)

lemma lpValidateIntegrity_safe:
  assumes "sz \<le> int (length m)" and "lpValidateIntegrity m sz True None ud = Some True"
  shows "\<exists>r. Option.bind (lpFirst m) (lpSeek_forward m k) = Some r \<and>
    (\<forall>p. r = Some p \<longrightarrow> (\<exists>v. lpGet m p None = Some v \<and> lp_inside p sz v))"
proof -
  obtain n where n: "lp_walk m sz 6 n" "lpGetTotalBytes m = Some sz"
    using lpValidateIntegrity_walk [OF assms] by metis
  obtain q where q: "lpSeek_forward m k (if n = 0 then None else Some 6) = Some (if k < n then Some q else None)"
    "k < n \<longrightarrow> lp_walk m sz q (n - k)"
    using lpSeek_forward_walk [OF n] by blast
  have "\<exists>v. lpGet m q None = Some v \<and> lp_inside q sz v" if "k < n"
    using lp_walk_get [of m sz q "n - k - 1"] assms(1) q(2) that by (simp add: Suc_diff_Suc)
  then show ?thesis using lpFirst_walk [OF n] q(1) by simp
qed

end
