(* ===== verification/Listpack_Correct.thy ===== *)
theory Listpack_Correct
  imports Listpack_Validate
begin

text \<open>
  The properties of listpacks: what the operations do to the list of elements of a block, what
  the searches return, and what the validation of a block of unknown bytes promises.
\<close>

section \<open>Sample blocks\<close>

definition sample_alloc :: allocator where
  "sample_alloc = \<lparr>slack = (\<lambda>n. 1), junk = (\<lambda>n. 0)\<rparr>"

definition sample_elements :: "listpackEntry list" where
  "sample_elements = [LpeStr [104, 105], LpeInt 5, LpeInt 4097]"

definition sample_block :: mem where
  "sample_block = lp_image 3 sample_elements"

lemma sample_repr: "lp_repr sample_block sample_elements"
proof -
  have "lp_total sample_elements < 2 ^ 32" by code_simp
  moreover have "\<forall>e \<in> set sample_elements. lp_ok e" by code_simp
  ultimately show ?thesis by (auto simp: lp_repr_def sample_block_def lp_num_ok_def sample_elements_def)
qed

section \<open>Insertion, replacement and deletion\<close>

text \<open>The list an insertion at element \<open>i\<close> gives, and the index of the new element.\<close>

fun lp_edited :: "lp_where \<Rightarrow> nat \<Rightarrow> listpackEntry \<Rightarrow> listpackEntry list \<Rightarrow> listpackEntry list" where
  "lp_edited LP_BEFORE i e es = take i es @ [e] @ drop i es"
| "lp_edited LP_AFTER i e es = take (Suc i) es @ [e] @ drop (Suc i) es"
| "lp_edited LP_REPLACE i e es = es[i := e]"

definition lp_edited_at :: "lp_where \<Rightarrow> nat \<Rightarrow> nat" where
  "lp_edited_at w i = (if w = LP_AFTER then Suc i else i)"

lemma lpInsertString_edited:
  fixes a :: allocator and w :: lp_where
  assumes "lp_repr m es" and "i < length es" and "int (length s) < 2 ^ 32 - 5"
  defines "fs \<equiv> lp_edited w i (lp_entry s) es"
  shows "if lp_total fs > UINT32_MAX then lpInsertString a m s (lp_off es i) w = Some None
    else \<exists>m'. lpInsertString a m s (lp_off es i) w =
      Some (Some (m', Some (lp_off fs (lp_edited_at w i)))) \<and> lp_repr m' fs"
proof -
  note e = lp_ok_entry [OF assms(3)] lp_names_str
  have ptr: "lp_ptr fs (lp_edited_at w i) = Some (lp_off fs (lp_edited_at w i))"
    using assms(2) by (cases w) (auto simp: lp_ptr_def fs_def lp_edited_at_def)
  show ?thesis
  proof (cases w)
    case LP_BEFORE
    then show ?thesis using lpInsert_before [OF assms(1) _ e, of i a] assms(2) ptr
      by (simp add: lpInsertString_def fs_def lp_edited_at_def split: if_split_asm)
  next
    case LP_AFTER
    then show ?thesis
      using lpInsert_before [OF assms(1) _ e, of "Suc i" a] lpInsert_after [OF assms(1,2) e(2), of a] assms(2) ptr
      by (simp add: lpInsertString_def fs_def lp_edited_at_def split: if_split_asm)
  next
    case LP_REPLACE
    moreover have "es[i := lp_entry s] = take i es @ [lp_entry s] @ drop (Suc i) es"
      using assms(2) by (simp add: upd_conv_take_nth_drop)
    ultimately show ?thesis using lpInsert_replace [OF assms(1,2) e, of a] ptr
      by (simp add: lpInsertString_def fs_def lp_edited_at_def split: if_split_asm)
  qed
qed

text \<open>C1. \<open>lpInsertString\<close> before, after or in place of element \<open>i\<close> of a block that holds the
  elements \<open>es\<close>: the new block holds the list with that edit, for every behaviour of the
  allocator, and \<open>*newp\<close> points to the new element; the function returns \<open>NULL\<close> exactly when
  the new block would be larger than its 32-bit size field can say.\<close>

theorem lpInsert_refines:
  assumes "lp_repr m es" and "i < length es" and "int (length s) < 2 ^ 32 - 5"
  shows "if lp_total (lp_edited w i (lp_entry s) es) > UINT32_MAX
    then lpInsertString a m s (lp_off es i) w = Some None
    else \<exists>m'. lpInsertString a m s (lp_off es i) w =
        Some (Some (m', Some (lp_off (lp_edited w i (lp_entry s) es) (lp_edited_at w i)))) \<and>
      lp_repr m' (lp_edited w i (lp_entry s) es)"
  by (rule lpInsertString_edited [OF assms])

theorem lpInsert_refines_witness:
  "\<exists>m'. lpInsertString sample_alloc sample_block [97, 98, 99] (lp_off sample_elements 1) LP_AFTER =
      Some (Some (m', Some 12)) \<and>
    lp_repr m' [LpeStr [104, 105], LpeInt 5, LpeStr [97, 98, 99], LpeInt 4097]"
proof -
  let ?s = "[97, 98, 99] :: byte list"
  have fs: "lp_edited LP_AFTER 1 (lp_entry ?s) sample_elements =
    [LpeStr [104, 105], LpeInt 5, LpeStr ?s, LpeInt 4097]" by code_simp
  have "\<not> lp_total [LpeStr [104, 105], LpeInt 5, LpeStr ?s, LpeInt 4097] > UINT32_MAX" by code_simp
  moreover have "lp_off [LpeStr [104, 105], LpeInt 5, LpeStr ?s, LpeInt 4097] (lp_edited_at LP_AFTER 1) = 12"
    by code_simp
  moreover have "1 < length sample_elements" by code_simp
  ultimately show ?thesis
    using lpInsert_refines [OF sample_repr, of 1 ?s LP_AFTER sample_alloc] fs by simp
qed

section \<open>Reading back\<close>

text \<open>C2. What is appended can be read back: after \<open>lpAppend\<close> of a string of any bytes, seeking
  the last element and reading it with a buffer gives those bytes, whether the string was stored
  as a string or, being the notation of a 64-bit integer, as an integer.\<close>

theorem lpAppend_roundtrip:
  assumes "lp_repr m es" and "int (length s) < 2 ^ 32 - 5"
    and "lp_total (es @ [lp_entry s]) \<le> UINT32_MAX" and "LP_INTBUF_SIZE \<le> length buf"
  shows "\<exists>m' p v. lpAppend a m s = Some (Some m') \<and> lpSeek m' (- 1) = Some (Some p) \<and>
    lpGet m' p (Some buf) = Some v \<and> lp_gets m' v s"
proof -
  let ?fs = "es @ [lp_entry s]"
  obtain m' where m': "lpAppend a m s = Some (Some m')" "lp_repr m' ?fs"
    using lpAppend_ok [OF assms(1) lp_ok_entry [OF assms(2)], of a] assms(3) by auto
  moreover have "lpSeek m' (- 1) = Some (Some (lp_off ?fs (length es)))"
    using lpSeek_off [OF m'(2), of "- 1"] by (simp add: lp_index_def)
  ultimately show ?thesis using lpGet_string [OF m'(2) _ assms(4), of "length es"] by auto
qed

theorem lpAppend_roundtrip_witness:
  "\<exists>m' p v. lpAppend sample_alloc sample_block [45, 55] = Some (Some m') \<and> lpSeek m' (- 1) = Some (Some p) \<and>
    lpGet m' p (Some (replicate 21 0)) = Some v \<and> lp_gets m' v [45, 55]"
proof -
  have "lp_total (sample_elements @ [lp_entry [45, 55]]) \<le> UINT32_MAX" by code_simp
  then show ?thesis using lpAppend_roundtrip [OF sample_repr, of "[45, 55]" "replicate 21 0" sample_alloc] by simp
qed

section \<open>Seeking and walking\<close>

text \<open>C3. \<open>lpSeek\<close> with an index from the front or, negative, from the back returns the address of
  that element, and \<open>NULL\<close> when there is none; it does so whether or not the header knows the
  number of elements, and whichever end it scans from.\<close>

theorem lpSeek_refines:
  assumes "lp_repr m es"
  shows "lpSeek m k = Some (
    let i = (if k < 0 then int (length es) + k else k)
    in if 0 \<le> i \<and> i < int (length es) then Some (lp_off es (nat i)) else None)"
  using lpSeek_off [OF assms, of k] by (simp add: lp_index_def Let_def)

theorem lpSeek_refines_witness: "lpSeek sample_block (- 2) = Some (Some 10) \<and> lpSeek sample_block 3 = Some None"
  using lpSeek_refines [OF sample_repr, of "- 2"] lpSeek_refines [OF sample_repr, of 3]
  by (simp add: sample_elements_def lp_off_def lp_bytes_def) code_simp

text \<open>C4. The back lengths invert the walk: from an element that is not the last, \<open>lpNext\<close>
  goes to the next one and \<open>lpPrev\<close> comes back, and none of the checks on the way fails.\<close>

theorem lpPrev_lpNext:
  assumes "lp_repr m es" and "Suc i < length es"
  shows "\<exists>q. lpNext m (lp_off es i) = Some (Some q) \<and> lpPrev m q = Some (Some (lp_off es i))"
  using lpNext_off [OF assms(1), of i] lpPrev_off [OF assms(1), of "Suc i"] assms(2)
  by (simp add: lp_ptr_def)

theorem lpPrev_lpNext_witness:
  "\<exists>q. lpNext sample_block 10 = Some (Some q) \<and> lpPrev sample_block q = Some (Some 10)"
proof -
  have "lp_off sample_elements 1 = 10" by code_simp
  moreover have "Suc 1 < length sample_elements" by code_simp
  ultimately show ?thesis using lpPrev_lpNext [OF sample_repr, of 1] by simp
qed

section \<open>Searching\<close>

lemma find_map: "find P (map f xs) = map_option f (find (\<lambda>x. P (f x)) xs)"
  by (induction xs) auto

lemma find_upt_Suc:
  "find P [0..<Suc n] = (if P 0 then Some 0 else map_option Suc (find (\<lambda>k. P (Suc k)) [0..<n]))"
proof -
  have "[0..<Suc n] = 0 # map Suc [0..<n]" by (simp add: map_Suc_upt upt_conv_Cons del: upt_Suc)
  then show ?thesis by (simp only: find.simps find_map)
qed

lemma mod_round: "Suc (k + skip) mod Suc skip = k mod Suc skip"
  by (metis add_Suc_right mod_add_self2)

lemma lp_find_eq:
  "cnt \<le> skip \<Longrightarrow> lp_find skip s cnt i es =
    map_option ((+) i) (find (\<lambda>k. (k + (Suc skip - cnt)) mod Suc skip = 0 \<and> lp_str (es ! k) = s) [0..<length es])"
proof (induction skip s cnt i es rule: lp_find.induct)
  case (2 skip s i e es)
  have "(\<lambda>k. (Suc k + (Suc skip - 0)) mod Suc skip = 0 \<and> lp_str ((e # es) ! Suc k) = s) =
    (\<lambda>k. (k + (Suc skip - skip)) mod Suc skip = 0 \<and> lp_str (es ! k) = s)"
    using mod_round [of "Suc k" skip for k] by simp
  then show ?case using 2 unfolding length_Cons find_upt_Suc by (auto simp: option.map_comp comp_def)
next
  case (3 skip s cnt i e es)
  have "(\<lambda>k. (Suc k + (Suc skip - Suc cnt)) mod Suc skip = 0 \<and> lp_str ((e # es) ! Suc k) = s) =
    (\<lambda>k. (k + (Suc skip - cnt)) mod Suc skip = 0 \<and> lp_str (es ! k) = s)"
    using 3 by (simp add: Suc_diff_le)
  moreover have "(0 + (Suc skip - Suc cnt)) mod Suc skip \<noteq> 0" using 3 by simp
  ultimately show ?case using 3 unfolding length_Cons find_upt_Suc by (auto simp: option.map_comp comp_def)
qed simp

text \<open>C5. \<open>lpFind\<close> returns the first element equal to the string among those at positions
  divisible by \<open>skip + 1\<close>, comparing integers by value and strings by their bytes, and \<open>NULL\<close>
  if there is none.\<close>

theorem lpFind_first:
  assumes "lp_repr m es"
  shows "lpFind m None s skip = Some (map_option (lp_off es)
    (find (\<lambda>k. k mod (skip + 1) = 0 \<and> lp_str (es ! k) = s) [0..<length es]))"
proof -
  have "lp_find skip s 0 0 es = find (\<lambda>k. k mod (skip + 1) = 0 \<and> lp_str (es ! k) = s) [0..<length es]"
    using lp_find_eq [of 0 skip s 0 es] by (simp add: mod_round map_option_idI)
  then show ?thesis using lpFind_off(1) [OF assms, of 0] by simp
qed

theorem lpFind_first_witness:
  "lpFind sample_block None [52, 48, 57, 55] 1 = Some (Some 12) \<and> lpFind sample_block None [53] 1 = Some None"
proof -
  have "map_option (lp_off sample_elements) (find (\<lambda>k. k mod (1 + 1) = 0 \<and> lp_str (sample_elements ! k) = [52, 48, 57, 55])
    [0..<length sample_elements]) = Some 12" by code_simp
  moreover have "map_option (lp_off sample_elements) (find (\<lambda>k. k mod (1 + 1) = 0 \<and> lp_str (sample_elements ! k) = [53])
    [0..<length sample_elements]) = None" by code_simp
  ultimately show ?thesis
    using lpFind_first [OF sample_repr, of "[52, 48, 57, 55]" 1] lpFind_first [OF sample_repr, of "[53]" 1] by simp
qed

section \<open>Ranges, batches and merging\<close>

text \<open>C6. \<open>lpDeleteRange\<close> with an index from the front or the back and a number of elements removes
  those elements, as many as there are, and nothing when the index is out of range; the path that
  only cuts the block at the end gives the same block contents as the one that moves bytes.\<close>

theorem lpDeleteRange_refines:
  assumes "lp_repr m es"
  shows "\<exists>m'. lpDeleteRange a m k num = Some m' \<and>
    lp_repr m' (let i = (if k < 0 then int (length es) + k else k)
      in if 0 \<le> i \<and> i < int (length es) then take (nat i) es @ drop (nat i + num) es else es)"
  using lpDeleteRange_ok [OF assms, of a k num] by (simp add: lp_range_def)

theorem lpDeleteRange_refines_witness:
  "\<exists>m'. lpDeleteRange sample_alloc sample_block (- 2) 7 = Some m' \<and> lp_repr m' [LpeStr [104, 105]]"
  using lpDeleteRange_refines [OF sample_repr, of sample_alloc "- 2" 7] by (simp add: sample_elements_def)

text \<open>C7. \<open>lpBatchDelete\<close> with the addresses of elements at ascending positions removes exactly those
  elements in one pass over the block, keeping the others in order.\<close>

theorem lpBatchDelete_refines:
  assumes "lp_repr m es" and "sorted_wrt (<) is" and "\<forall>k \<in> set is. k < length es"
  shows "\<exists>m'. lpBatchDelete a m (map (lp_off es) is) = Some m' \<and>
    lp_repr m' (map (nth es) (filter (\<lambda>k. k \<notin> set is) [0..<length es]))"
  using lpBatchDelete_ok [OF assms, of a] by (simp add: lp_without_def)

theorem lpBatchDelete_refines_witness:
  "\<exists>m'. lpBatchDelete sample_alloc sample_block [6, 12] = Some m' \<and> lp_repr m' [LpeInt 5]"
proof -
  have "map (lp_off sample_elements) [0, 2] = [6, 12]" by code_simp
  moreover have "map (nth sample_elements) (filter (\<lambda>k. k \<notin> set [0, 2]) [0..<length sample_elements]) = [LpeInt 5]"
    by code_simp
  moreover have "\<forall>k \<in> set [0, 2]. k < length sample_elements" by code_simp
  ultimately show ?thesis
    using lpBatchDelete_refines [OF sample_repr, of "[0, 2]" sample_alloc] by simp
qed

text \<open>C8. \<open>lpBatchInsert\<close> inserts the given strings and integers in order in front of element \<open>i\<close> (or
  at the end), as the same number of single insertions would; it returns \<open>NULL\<close> exactly when the
  block would grow over its size field.\<close>

theorem lpBatchInsert_refines:
  assumes "lp_repr m es" and "i \<le> length es" and "gs \<noteq> []" and "\<forall>g \<in> set gs. lp_ok (lp_norm g)"
    and "int (length (lp_body (map lp_norm gs))) < 2 ^ 63"
  shows "if lp_total (take i es @ map lp_norm gs @ drop i es) > UINT32_MAX
    then lpBatchInsert a m (lp_off es i) LP_BEFORE gs = Some None
    else \<exists>m' p. lpBatchInsert a m (lp_off es i) LP_BEFORE gs = Some (Some (m', p)) \<and>
      lp_repr m' (take i es @ map lp_norm gs @ drop i es)"
  using lpBatchInsert_ok [OF assms, of a] by auto

theorem lpBatchInsert_refines_witness:
  "\<exists>m' p. lpBatchInsert sample_alloc sample_block 10 LP_BEFORE [LpeStr [55], LpeInt (- 1)] = Some (Some (m', p)) \<and>
    lp_repr m' [LpeStr [104, 105], LpeInt 7, LpeInt (- 1), LpeInt 5, LpeInt 4097]"
proof -
  let ?gs = "[LpeStr [55], LpeInt (- 1)]"
  have "lp_off sample_elements 1 = 10" by code_simp
  moreover have "take 1 sample_elements @ map lp_norm ?gs @ drop 1 sample_elements =
    [LpeStr [104, 105], LpeInt 7, LpeInt (- 1), LpeInt 5, LpeInt 4097]" by code_simp
  moreover have "1 \<le> length sample_elements" by code_simp
  moreover have "\<forall>g \<in> set ?gs. lp_ok (lp_norm g)" by code_simp
  moreover have "int (length (lp_body (map lp_norm ?gs))) < 2 ^ 63" by code_simp
  moreover have "\<not> lp_total [LpeStr [104, 105], LpeInt 7, LpeInt (- 1), LpeInt 5, LpeInt 4097] > UINT32_MAX" by code_simp
  ultimately show ?thesis
    using lpBatchInsert_refines [OF sample_repr, of 1 ?gs sample_alloc] by simp
qed

text \<open>C9. \<open>lpMerge\<close> of two listpacks gives one that holds the elements of the first and then those of
  the second, extending the larger block; the assertion on the size fails exactly when the merged
  size reaches \<open>UINT32_MAX\<close>, the largest number the size field could still hold.\<close>

theorem lpMerge_refines:
  assumes "lp_repr m1 es" and "lp_repr m2 gs"
  shows "if lp_total (es @ gs) < UINT32_MAX
    then \<exists>m. lpMerge a m1 m2 = Some (m, lp_total es \<ge> lp_total gs) \<and> lp_repr m (es @ gs)
    else lpMerge a m1 m2 = None"
  by (rule lpMerge_ok [OF assms])

theorem lpMerge_refines_witness:
  "\<exists>m. lpMerge sample_alloc sample_block sample_block = Some (m, True) \<and>
    lp_repr m (sample_elements @ sample_elements)"
proof -
  have "lp_total (sample_elements @ sample_elements) < UINT32_MAX" by code_simp
  then show ?thesis using lpMerge_refines [OF sample_repr sample_repr, of sample_alloc] by simp
qed

section \<open>Validation\<close>

text \<open>C10. \<open>lpValidateIntegrity\<close> is total: on any block of bytes, whatever they are, and with any check
  of the entries by the caller, it returns a verdict without reading outside the block and without
  running forever.\<close>

theorem lpValidateIntegrity_total:
  assumes "sz \<le> int (length m)"
  shows "\<exists>r. lpValidateIntegrity m sz deep entry_cb cb_userdata = Some r"
  by (rule lpValidateIntegrity_inside [OF assms])

theorem lpValidateIntegrity_total_witness:
  "\<exists>r. lpValidateIntegrity [9, 0, 0, 0, 255, 255, 0xF0, 0xFF, 255] 9 True (None :: (int \<Rightarrow> int \<Rightarrow> nat \<Rightarrow> bool \<times> nat) option) 0 = Some r"
  using lpValidateIntegrity_total [of 9 "[9, 0, 0, 0, 255, 255, 0xF0, 0xFF, 255]" True None 0] by simp

text \<open>C11. Every block that holds elements in the sense of the development (so every block the
  operations build) passes the validation, shallow and deep.\<close>

theorem lpValidateIntegrity_complete:
  assumes "lp_repr m es"
  shows "lpValidateIntegrity m (lp_total es) deep None cb_userdata = Some True"
  by (rule lpValidateIntegrity_accepts [OF assms])

theorem lpValidateIntegrity_complete_witness:
  "lpValidateIntegrity sample_block 17 True None (0 :: nat) = Some True"
proof -
  have "lp_total sample_elements = 17" by code_simp
  then show ?thesis using lpValidateIntegrity_complete [OF sample_repr, of True "0 :: nat"] by simp
qed

text \<open>C12. A block of unknown bytes that passes the deep validation is safe to read: walking it from
  \<open>lpFirst\<close> by any number of \<open>lpNext\<close> never fails an assertion or reads outside the block, and at
  every element reached \<open>lpGet\<close> succeeds and a string it returns lies inside the block. The wrap
  of the 32-bit entry size of a huge string cannot be used to defeat the check.\<close>

theorem lpValidateIntegrity_sound:
  assumes "sz \<le> int (length m)" and "lpValidateIntegrity m sz True None cb_userdata = Some True"
  shows "\<exists>r. Option.bind (lpFirst m) (lpSeek_forward m k) = Some r \<and>
    (\<forall>p. r = Some p \<longrightarrow> (\<exists>v. lpGet m p None = Some v \<and>
      (case v of LpString s n \<Rightarrow> p < s \<and> 0 \<le> n \<and> s + n < sz | _ \<Rightarrow> True)))"
  using lpValidateIntegrity_safe [OF assms, of k] by (simp add: lp_inside_def)

theorem lpValidateIntegrity_sound_witness:
  "\<exists>r. Option.bind (lpFirst sample_block) (lpSeek_forward sample_block 2) = Some r \<and>
    (\<forall>p. r = Some p \<longrightarrow> (\<exists>v. lpGet sample_block p None = Some v \<and>
      (case v of LpString s n \<Rightarrow> p < s \<and> 0 \<le> n \<and> s + n < 17 | _ \<Rightarrow> True)))"
proof -
  have "lpValidateIntegrity sample_block 17 True None (0 :: nat) = Some True" by code_simp
  moreover have "int (length sample_block) = 17" by code_simp
  ultimately show ?thesis using lpValidateIntegrity_sound [of 17 sample_block "0 :: nat" 2] by simp
qed

end
