(* ===== verification/T_List.thy ===== *)
theory T_List
  imports Listpack_Edit
begin

text \<open>
  Lists in the listpack encoding, \<open>t_list.c\<close>: the operations of the list type and the parts of
  the commands that work on the elements. A list object is its listpack, \<open>None\<close> inside the
  result where \<open>subject->ptr\<close> becomes \<open>NULL\<close>. The branches for the quicklist encoding are not
  part of this model.
\<close>

section \<open>Values\<close>

text \<open>A string object, with the encoding \<open>OBJ_ENCODING_INT\<close> or as an \<open>sds\<close>.\<close>

datatype robj = ObjInt int | ObjSds "byte list"

definition getDecodedObject :: "allocator \<Rightarrow> robj \<Rightarrow> byte list option" where
  "getDecodedObject a obj =
     (case obj of
        ObjSds s \<Rightarrow> Some s
      | ObjInt v \<Rightarrow> do {
          (buf, _) \<leftarrow> ll2string (map (junk a) [0..<32]) v;
          Some (takeWhile (\<lambda>c. c \<noteq> 0) buf) })"

datatype list_end = LIST_HEAD | LIST_TAIL

text \<open>The bytes that \<open>createStringObject(vstr, vlen)\<close> copies after a call of \<open>lpGet\<close> with a buffer.\<close>

definition lp_copy :: "mem \<Rightarrow> lpval \<Rightarrow> byte list option" where
  "lp_copy m v =
     (case v of
        LpString q n \<Rightarrow> load m q (nat n)
      | LpIntbuf buf n \<Rightarrow> load buf 0 n
      | LpInteger _ \<Rightarrow> None)"

definition lp_intbuf :: "allocator \<Rightarrow> mem" where
  "lp_intbuf a = map (junk a) [0..<LP_INTBUF_SIZE]"

section \<open>Pushing and popping\<close>

definition listTypePush :: "allocator \<Rightarrow> mem \<Rightarrow> robj \<Rightarrow> list_end \<Rightarrow> mem option option" where
  "listTypePush a subject val w =
     (case val of
        ObjInt v \<Rightarrow> (if w = LIST_HEAD then lpPrependInteger a subject v else lpAppendInteger a subject v)
      | ObjSds s \<Rightarrow> (if w = LIST_HEAD then lpPrepend a subject s else lpAppend a subject s))"

definition listTypePop :: "allocator \<Rightarrow> mem \<Rightarrow> list_end \<Rightarrow> (mem option \<times> byte list option) option" where
  "listTypePop a subject w = do {
     p \<leftarrow> (if w = LIST_HEAD then lpFirst subject else lpLast subject);
     case p of
       None \<Rightarrow> Some (Some subject, None)
     | Some p \<Rightarrow> do {
         v \<leftarrow> lpGet subject p (Some (lp_intbuf a));
         s \<leftarrow> lp_copy subject v;
         subject \<leftarrow> drop_newp (lpDelete a subject p);
         Some (subject, Some s) } }"

definition listTypeLength :: "mem \<Rightarrow> (mem \<times> int) option" where
  "listTypeLength subject = lpLength subject"

definition listTypeAllocSize :: "mem \<Rightarrow> int option" where
  "listTypeAllocSize subject = lpBytes subject"

section \<open>Iterators\<close>

text \<open>An iterator holds its list; \<open>li_lpi\<close> is the element the next call returns.\<close>

record listTypeIterator =
  li_subject :: mem
  li_direction :: list_end
  li_lpi :: "int option"

definition listTypeInitIterator :: "mem \<Rightarrow> int \<Rightarrow> list_end \<Rightarrow> listTypeIterator option" where
  "listTypeInitIterator subject index direction = do {
     lpi \<leftarrow> lpSeek subject index;
     Some \<lparr>li_subject = subject, li_direction = direction, li_lpi = lpi\<rparr> }"

definition listTypeSetIteratorDirection ::
  "listTypeIterator \<Rightarrow> int \<Rightarrow> list_end \<Rightarrow> listTypeIterator option" where
  "listTypeSetIteratorDirection li lpe direction =
     (if li_direction li = direction then Some li
      else do {
        lpi \<leftarrow> (if direction = LIST_TAIL then lpNext (li_subject li) lpe else lpPrev (li_subject li) lpe);
        Some (li\<lparr>li_direction := direction, li_lpi := lpi\<rparr>) })"

text \<open>\<open>listTypeNext\<close> returns the entry, \<open>None\<close> for a return value of 0.\<close>

definition listTypeNext :: "listTypeIterator \<Rightarrow> (int option \<times> listTypeIterator) option" where
  "listTypeNext li =
     (case li_lpi li of
        None \<Rightarrow> Some (None, li)
      | Some p \<Rightarrow> do {
          lpi \<leftarrow> (if li_direction li = LIST_TAIL then lpNext (li_subject li) p else lpPrev (li_subject li) p);
          Some (Some p, li\<lparr>li_lpi := lpi\<rparr>) })"

definition listTypeGetValue :: "mem \<Rightarrow> int \<Rightarrow> lpval option" where
  "listTypeGetValue subject lpe = lpGetValue subject lpe"

definition listTypeGet :: "mem \<Rightarrow> int \<Rightarrow> robj option" where
  "listTypeGet subject lpe = do {
     v \<leftarrow> listTypeGetValue subject lpe;
     case v of
       LpString q n \<Rightarrow> do { s \<leftarrow> load subject q (nat n); Some (ObjSds s) }
     | LpInteger i \<Rightarrow> Some (ObjInt i)
     | LpIntbuf _ _ \<Rightarrow> None }"

section \<open>Changing the element of an entry\<close>

definition listTypeInsert ::
  "allocator \<Rightarrow> mem \<Rightarrow> int \<Rightarrow> robj \<Rightarrow> list_end \<Rightarrow> (mem \<times> int option) option option" where
  "listTypeInsert a subject lpe val w = do {
     str \<leftarrow> getDecodedObject a val;
     let lpw = (if w = LIST_TAIL then LP_AFTER else LP_BEFORE);
     lpInsertString a subject str lpe lpw }"

definition listTypeReplace ::
  "allocator \<Rightarrow> mem \<Rightarrow> int \<Rightarrow> robj \<Rightarrow> (mem \<times> int option) option option" where
  "listTypeReplace a subject lpe val = do {
     str \<leftarrow> getDecodedObject a val;
     lpReplace a subject lpe str }"

text \<open>The index is an \<open>int\<close>: a caller that has a \<open>long\<close> passes it modulo \<open>2 ^ 32\<close>.\<close>

definition i32 :: "int \<Rightarrow> int" where
  "i32 x = (x + 2 ^ 31) mod 2 ^ 32 - 2 ^ 31"

definition listTypeReplaceAtIndex ::
  "allocator \<Rightarrow> mem \<Rightarrow> int \<Rightarrow> robj \<Rightarrow> (mem option \<times> bool) option" where
  "listTypeReplaceAtIndex a subject index val = do {
     vstr \<leftarrow> getDecodedObject a val;
     p \<leftarrow> lpSeek subject (i32 index);
     case p of
       None \<Rightarrow> Some (Some subject, False)
     | Some p \<Rightarrow> do {
         subject \<leftarrow> drop_newp (lpReplace a subject p vstr);
         Some (subject, True) } }"

text \<open>\<open>lpCompare\<close> takes the length of the object as a \<open>uint32_t\<close>.\<close>

definition listTypeEqual ::
  "mem \<Rightarrow> int \<Rightarrow> byte list \<Rightarrow> (int \<times> int) option \<Rightarrow> (bool \<times> (int \<times> int) option) option" where
  "listTypeEqual subject lpe s cache =
     (let slen = u32 (int (length s)) in lpCompare subject lpe (take (nat slen) s) cache)"

definition listTypeDelete :: "allocator \<Rightarrow> listTypeIterator \<Rightarrow> int \<Rightarrow> listTypeIterator option" where
  "listTypeDelete a li lpe = do {
     r \<leftarrow> lpDelete a (li_subject li) lpe;
     (subject, p) \<leftarrow> r;
     lpi \<leftarrow> (if li_direction li = LIST_TAIL then Some p
             else (case p of
                     Some p \<Rightarrow> lpPrev subject p
                   | None \<Rightarrow> lpLast subject));
     Some (li\<lparr>li_subject := subject, li_lpi := lpi\<rparr>) }"

definition listTypeDup :: "allocator \<Rightarrow> mem \<Rightarrow> mem option" where
  "listTypeDup a subject = lpDup a subject"

definition listTypeDelRange :: "allocator \<Rightarrow> mem \<Rightarrow> int \<Rightarrow> int \<Rightarrow> mem option" where
  "listTypeDelRange a subject start count = lpDeleteRange a subject start (nat (u64 count))"

section \<open>Ranges\<close>

text \<open>
  The loop of \<open>addListListpackRangeReply\<close>; the reply is the list of the bulk strings. With a negative
  length the loop would run into the end of the list, where its assertion fails.
\<close>

fun addListListpackRangeReply_loop ::
  "allocator \<Rightarrow> mem \<Rightarrow> int \<Rightarrow> bool \<Rightarrow> nat \<Rightarrow> int option \<Rightarrow> byte list list option" where
  "addListListpackRangeReply_loop a lp lpbytes reverse 0 p = Some []"
| "addListListpackRangeReply_loop a lp lpbytes reverse (Suc rangelen) p = do {
     p \<leftarrow> p;
     v \<leftarrow> lpGet lp p (Some (lp_intbuf a));
     s \<leftarrow> lp_copy lp v;
     q \<leftarrow> (if reverse then lpPrev lp p else lpNextWithBytes lp p lpbytes);
     rest \<leftarrow> addListListpackRangeReply_loop a lp lpbytes reverse rangelen q;
     Some (s # rest) }"

definition addListListpackRangeReply ::
  "allocator \<Rightarrow> mem \<Rightarrow> int \<Rightarrow> int \<Rightarrow> bool \<Rightarrow> byte list list option" where
  "addListListpackRangeReply a lp from rangelen reverse = do {
     p \<leftarrow> lpSeek lp from;
     lpbytes \<leftarrow> lpBytes lp;
     guard (0 \<le> rangelen);
     addListListpackRangeReply_loop a lp lpbytes reverse (nat rangelen) p }"

definition addListRangeReply ::
  "allocator \<Rightarrow> mem \<Rightarrow> int \<Rightarrow> int \<Rightarrow> bool \<Rightarrow> (mem \<times> byte list list) option" where
  "addListRangeReply a m start stop reverse = do {
     (m, llen) \<leftarrow> listTypeLength m;
     let start = (if start < 0 then llen + start else start);
     let stop = (if stop < 0 then llen + stop else stop);
     let start = (if start < 0 then 0 else start);
     if start > stop \<or> start \<ge> llen then Some (m, [])
     else do {
       let stop = (if stop \<ge> llen then llen - 1 else stop);
       let rangelen = stop - start + 1;
       let from = i32 (if reverse then stop else start);
       reply \<leftarrow> addListListpackRangeReply a m from (i32 rangelen) reverse;
       Some (m, reply) } }"

text \<open>The trimming of \<open>ltrimCommand\<close>: what to cut at both ends, and the cuts.\<close>

definition ltrim_bounds :: "int \<Rightarrow> int \<Rightarrow> int \<Rightarrow> int \<times> int" where
  "ltrim_bounds llen start stop =
     (let start = (if start < 0 then llen + start else start);
          stop = (if stop < 0 then llen + stop else stop);
          start = (if start < 0 then 0 else start)
      in if start > stop \<or> start \<ge> llen then (llen, 0)
         else (let stop = (if stop \<ge> llen then llen - 1 else stop) in (start, llen - stop - 1)))"

definition ltrim_cut :: "allocator \<Rightarrow> mem \<Rightarrow> int \<Rightarrow> int \<Rightarrow> mem option" where
  "ltrim_cut a m start stop = do {
     (m, llen) \<leftarrow> listTypeLength m;
     let (ltrim, rtrim) = ltrim_bounds llen start stop;
     m \<leftarrow> lpDeleteRange a m 0 (nat ltrim);
     lpDeleteRange a m (- rtrim) (nat rtrim) }"

section \<open>Scans\<close>

text \<open>The loop of \<open>linsertCommand\<close>: the pivot is sought from head to tail.\<close>

partial_function (option) linsert_loop ::
  "allocator \<Rightarrow> listTypeIterator \<Rightarrow> byte list \<Rightarrow> robj \<Rightarrow> list_end \<Rightarrow> (int \<times> int) option \<Rightarrow>
   (mem option \<times> bool) option" where
  "linsert_loop a li pivot val w cache =
     Option.bind (listTypeNext li) (\<lambda>(entry, li).
       case entry of
         None \<Rightarrow> Some (Some (li_subject li), False)
       | Some p \<Rightarrow>
           Option.bind (listTypeEqual (li_subject li) p pivot cache) (\<lambda>(eq, cache).
             if eq then Option.bind (drop_newp (listTypeInsert a (li_subject li) p val w)) (\<lambda>m. Some (m, True))
             else linsert_loop a li pivot val w cache))"

declare linsert_loop.simps [code]

definition linsert_scan :: "allocator \<Rightarrow> mem \<Rightarrow> byte list \<Rightarrow> robj \<Rightarrow> list_end \<Rightarrow> (mem option \<times> bool) option" where
  "linsert_scan a subject pivot val w = do {
     iter \<leftarrow> listTypeInitIterator subject 0 LIST_TAIL;
     linsert_loop a iter pivot val w (Some (0, 0)) }"

text \<open>The loop of \<open>lremCommand\<close>; the result is the list and the number of removed elements.\<close>

partial_function (option) lrem_loop ::
  "allocator \<Rightarrow> listTypeIterator \<Rightarrow> byte list \<Rightarrow> int \<Rightarrow> int \<Rightarrow> (int \<times> int) option \<Rightarrow> (mem \<times> int) option" where
  "lrem_loop a li obj toremove removed cache =
     Option.bind (listTypeNext li) (\<lambda>(entry, li).
       case entry of
         None \<Rightarrow> Some (li_subject li, removed)
       | Some p \<Rightarrow>
           Option.bind (listTypeEqual (li_subject li) p obj cache) (\<lambda>(eq, cache).
             if eq then
               Option.bind (listTypeDelete a li p) (\<lambda>li.
                 let removed = removed + 1 in
                 if toremove \<noteq> 0 \<and> removed = toremove then Some (li_subject li, removed)
                 else lrem_loop a li obj toremove removed cache)
             else lrem_loop a li obj toremove removed cache))"

declare lrem_loop.simps [code]

definition lrem_scan :: "allocator \<Rightarrow> mem \<Rightarrow> byte list \<Rightarrow> int \<Rightarrow> (mem \<times> int) option" where
  "lrem_scan a subject obj toremove =
     (if toremove < 0 then do {
        li \<leftarrow> listTypeInitIterator subject (- 1) LIST_HEAD;
        lrem_loop a li obj (- toremove) 0 (Some (0, 0)) }
      else do {
        li \<leftarrow> listTypeInitIterator subject 0 LIST_TAIL;
        lrem_loop a li obj toremove 0 (Some (0, 0)) })"

text \<open>
  The search of \<open>lposCommand\<close> with the parsed options: \<open>count\<close> is - 1 without the option. The
  result is the list of positions replied, of which the command without \<open>COUNT\<close> replies the only
  one.
\<close>

partial_function (option) lpos_loop ::
  "listTypeIterator \<Rightarrow> byte list \<Rightarrow> int \<Rightarrow> int \<Rightarrow> int \<Rightarrow> int \<Rightarrow> int \<Rightarrow> int \<Rightarrow> (int \<times> int) option \<Rightarrow> int list option" where
  "lpos_loop li ele rank count maxlen llen index matches cache =
     Option.bind (listTypeNext li) (\<lambda>(entry, li').
       case entry of
         None \<Rightarrow> Some []
       | Some p \<Rightarrow>
           if \<not> (maxlen = 0 \<or> index < maxlen) then Some []
           else Option.bind (listTypeEqual (li_subject li') p ele cache) (\<lambda>(eq, cache).
             if eq then
               (let matches = matches + 1;
                    matchindex = (if li_direction li' = LIST_TAIL then index else llen - index - 1)
                in if matches \<ge> rank then
                     (if count = - 1 \<or> count \<noteq> 0 \<and> matches - rank + 1 \<ge> count then Some [matchindex]
                      else Option.bind (lpos_loop li' ele rank count maxlen llen (index + 1) matches cache)
                        (\<lambda>rest. Some (matchindex # rest)))
                   else lpos_loop li' ele rank count maxlen llen (index + 1) matches cache)
             else lpos_loop li' ele rank count maxlen llen (index + 1) matches cache))"

declare lpos_loop.simps [code]

definition lpos_scan :: "mem \<Rightarrow> byte list \<Rightarrow> int \<Rightarrow> int \<Rightarrow> int \<Rightarrow> (mem \<times> int list) option" where
  "lpos_scan subject ele rank count maxlen = do {
     let direction = (if rank < 0 then LIST_HEAD else LIST_TAIL);
     let rank = (if rank < 0 then - rank else rank);
     li \<leftarrow> listTypeInitIterator subject (if direction = LIST_HEAD then - 1 else 0) direction;
     (m, llen) \<leftarrow> listTypeLength subject;
     reply \<leftarrow> lpos_loop (li\<lparr>li_subject := m\<rparr>) ele rank count maxlen llen 0 0 (Some (0, 0));
     Some (m, reply) }"

end
