(* ===== verification/T_List_Iter.thy ===== *)
theory T_List_Iter
  imports T_List Listpack_Correct Interfaces
begin

text \<open>
  The list type over listpacks: the strings a list holds, its two ends, iterators in both
  directions, and the scan of \<open>LREM\<close>, which deletes while it iterates.
\<close>

section \<open>The strings of a list\<close>

definition list_holds :: "mem \<Rightarrow> byte list list \<Rightarrow> bool" where
  "list_holds m xs \<longleftrightarrow> lp_repr m (map lp_entry xs)"

definition list_fits :: "byte list list \<Rightarrow> bool" where
  "list_fits xs \<longleftrightarrow> (\<forall>x \<in> set xs. int (length x) < 2 ^ 32 - 5) \<and> lp_total (map lp_entry xs) \<le> UINT32_MAX"

lemma list_holds_repr: "lp_repr m es \<Longrightarrow> list_holds m (map lp_str es)"
proof -
  assume "lp_repr m es"
  then have "map lp_entry (map lp_str es) = es"
    using lp_entry_str by (auto simp: lp_repr_def intro!: map_idI)
  then show ?thesis using \<open>lp_repr m es\<close> by (simp add: list_holds_def)
qed

lemma list_fits_append: "list_fits (xs @ ys) \<Longrightarrow> list_fits xs \<and> list_fits ys"
  by (auto simp: list_fits_def lp_total_def)

lemma lpGet_copy:
  assumes "lp_repr m es" and "i < length es"
  shows "\<exists>v. lpGet m (lp_off es i) (Some (lp_intbuf a)) = Some v \<and> lp_copy m v = Some (lp_str (es ! i))"
proof (cases "es ! i")
  case (LpeStr s)
  then show ?thesis using lpGet_off [OF assms] lp_value_str_load [OF assms]
    by (simp add: lp_copy_def)
next
  case (LpeInt v)
  then have v: "LLONG_MIN \<le> v" "v \<le> LLONG_MAX" using lp_repr_ok [OF assms] by auto
  have "length (sdec v) < length (lp_intbuf a)" "LP_INTBUF_SIZE \<le> length (lp_intbuf a)"
    using sdec_length [of v] v by (simp_all add: lp_intbuf_def)
  then show ?thesis using LpeInt lpGet_off [OF assms] ll2string_ok [OF v]
    by (simp add: lp_copy_def lp_return_int_def load_def)
qed

section \<open>The two ends\<close>

lemma listTypePush_tail:
  assumes "list_holds m xs" and "list_fits (xs @ [x])"
  shows "\<exists>m'. listTypePush a m (ObjSds x) LIST_TAIL = Some (Some m') \<and> list_holds m' (xs @ [x])"
  using lpAppend_ok [of m "map lp_entry xs" x a] lp_ok_entry [of x] assms
  by (auto simp: list_holds_def list_fits_def listTypePush_def)

lemma listTypePush_head:
  assumes "list_holds m xs" and "list_fits (x # xs)"
  shows "\<exists>m'. listTypePush a m (ObjSds x) LIST_HEAD = Some (Some m') \<and> list_holds m' (x # xs)"
  using lpPrepend_ok [of m "map lp_entry xs" x a] lp_ok_entry [of x] assms
  by (auto simp: list_holds_def list_fits_def listTypePush_def)

lemma listTypePop_at:
  assumes "list_holds m xs" and "i < length xs" and "i = (if w = LIST_HEAD then 0 else length xs - 1)"
  shows "\<exists>m'. listTypePop a m w = Some (Some m', Some (xs ! i)) \<and> list_holds m' (take i xs @ drop (Suc i) xs)"
proof -
  let ?es = "map lp_entry xs"
  have repr: "lp_repr m ?es" and i: "i < length ?es" using assms by (simp_all add: list_holds_def)
  have "(if w = LIST_HEAD then lpFirst m else lpLast m) = Some (Some (lp_off ?es i))"
    using lpFirst_off [OF repr] lpLast_off [OF repr] assms(2,3) by (auto simp: lp_ptr_def)
  moreover obtain v where "lpGet m (lp_off ?es i) (Some (lp_intbuf a)) = Some v" "lp_copy m v = Some (xs ! i)"
    using lpGet_copy [OF repr i, of a] assms(2) by auto
  moreover obtain m' where "lpDelete a m (lp_off ?es i) = Some (Some (m', lp_ptr (take i ?es @ drop (Suc i) ?es) i))"
    "lp_repr m' (take i ?es @ drop (Suc i) ?es)"
    using lpDelete_ok [OF repr i, of a] by blast
  ultimately show ?thesis
    by (simp add: listTypePop_def drop_newp_def list_holds_def take_map drop_map)
qed

text \<open>The list type provides a list with two ends; a \<open>NULL\<close> pointer is a failure.\<close>

definition list_push :: "allocator \<Rightarrow> list_end \<Rightarrow> mem \<Rightarrow> byte list \<Rightarrow> mem option" where
  "list_push a w m x = Option.bind (listTypePush a m (ObjSds x) w) id"

definition list_pop :: "allocator \<Rightarrow> list_end \<Rightarrow> mem \<Rightarrow> (mem \<times> byte list option) option" where
  "list_pop a w m = Option.bind (listTypePop a m w) (\<lambda>(m, v). map_option (\<lambda>m. (m, v)) m)"

lemma list_pop_at:
  assumes "list_holds m xs" and "i < length xs" and "i = (if w = LIST_HEAD then 0 else length xs - 1)"
  shows "\<exists>m'. list_pop a w m = Some (m', Some (xs ! i)) \<and> list_holds m' (take i xs @ drop (Suc i) xs)"
proof -
  obtain m' where "listTypePop a m w = Some (Some m', Some (xs ! i))" "list_holds m' (take i xs @ drop (Suc i) xs)"
    using listTypePop_at [OF assms] by blast
  then show ?thesis by (simp add: list_pop_def)
qed

interpretation lists: list_ends "list_push a LIST_HEAD" "list_push a LIST_TAIL" "list_pop a LIST_HEAD"
  "list_pop a LIST_TAIL" list_holds list_fits for a
proof unfold_locales
  fix s x xs
  assume "list_holds s xs" and "list_fits (x # xs)"
  from listTypePush_head [OF this, of a]
  show "\<exists>s'. list_push a LIST_HEAD s x = Some s' \<and> list_holds s' (x # xs)" by (auto simp: list_push_def)
next
  fix s x xs
  assume "list_holds s xs" and "list_fits (xs @ [x])"
  from listTypePush_tail [OF this, of a]
  show "\<exists>s'. list_push a LIST_TAIL s x = Some s' \<and> list_holds s' (xs @ [x])" by (auto simp: list_push_def)
next
  fix s x xs
  assume "list_holds s (x # xs)"
  from list_pop_at [OF this, of 0 LIST_HEAD a]
  show "\<exists>s'. list_pop a LIST_HEAD s = Some (s', Some x) \<and> list_holds s' xs" by simp
next
  fix s x xs
  assume h: "list_holds s (xs @ [x])"
  have "length xs < length (xs @ [x])"
    and "length xs = (if LIST_TAIL = LIST_HEAD then 0 else length (xs @ [x]) - 1)" by simp_all
  from list_pop_at [OF h this, of a]
  show "\<exists>s'. list_pop a LIST_TAIL s = Some (s', Some x) \<and> list_holds s' xs" by simp
next
  fix xs ys
  assume "list_fits (xs @ ys)"
  then show "list_fits xs \<and> list_fits ys" by (rule list_fits_append)
qed

section \<open>Iterators\<close>

text \<open>
  In either direction an iterator visits the list \<open>dview d xs\<close> from its start; \<open>dptr d es i\<close> is
  the pointer to the element it visits after \<open>i\<close> others.
\<close>

definition dview :: "list_end \<Rightarrow> 'a list \<Rightarrow> 'a list" where
  "dview d xs = (if d = LIST_TAIL then xs else rev xs)"

definition didx :: "list_end \<Rightarrow> 'a list \<Rightarrow> nat \<Rightarrow> nat" where
  "didx d es i = (if d = LIST_TAIL then i else length es - 1 - i)"

definition dptr :: "list_end \<Rightarrow> listpackEntry list \<Rightarrow> nat \<Rightarrow> int option" where
  "dptr d es i = (if i < length es then Some (lp_off es (didx d es i)) else None)"

lemma dview_dview [simp]: "dview d (dview d xs) = xs" "length (dview d xs) = length xs"
  "set (dview d xs) = set xs" "dview d (map f xs) = map f (dview d xs)"
  by (simp_all add: dview_def rev_map)

lemma didx_less: "i < length es \<Longrightarrow> didx d es i < length es"
  by (auto simp: didx_def)

lemma nth_didx: "i < length es \<Longrightarrow> es ! didx d es i = dview d es ! i"
  by (simp add: didx_def dview_def rev_nth)

lemma dview_remove:
  assumes "i < length es"
  shows "dview d (take (didx d es i) es @ drop (Suc (didx d es i)) es) = take i (dview d es) @ drop (Suc i) (dview d es)"
proof (cases "d = LIST_TAIL")
  case False
  then show ?thesis using assms by (simp add: dview_def didx_def rev_drop rev_take Suc_diff_Suc)
qed (simp add: dview_def didx_def)

lemma listTypeInitIterator_ok:
  assumes "lp_repr m es"
  shows "listTypeInitIterator m (if d = LIST_HEAD then - 1 else 0) d =
    Some \<lparr>li_subject = m, li_direction = d, li_lpi = dptr d es 0\<rparr>"
proof -
  have "nat (int (length es) - 1) = length es - 1" by simp
  then show ?thesis using lpSeek_off [OF assms, of 0] lpSeek_off [OF assms, of "- 1"]
    by (cases d) (auto simp: listTypeInitIterator_def lp_index_def dptr_def didx_def Let_def)
qed

lemma listTypeNext_ok:
  assumes "lp_repr m es" and "li = \<lparr>li_subject = m, li_direction = d, li_lpi = dptr d es i\<rparr>"
  shows "listTypeNext li = Some (if i < length es
    then (Some (lp_off es (didx d es i)), li\<lparr>li_lpi := dptr d es (Suc i)\<rparr>) else (None, li))"
proof (cases "i < length es")
  case True
  show ?thesis
  proof (cases d)
    case LIST_TAIL
    then show ?thesis using True lpNext_off [OF assms(1) True] assms(2)
      by (simp add: listTypeNext_def dptr_def didx_def lp_ptr_def)
  next
    case LIST_HEAD
    have "lpPrev m (lp_off es (length es - 1 - i)) = Some (dptr LIST_HEAD es (Suc i))"
      using lpPrev_off [OF assms(1), of "length es - 1 - i"] True by (auto simp: dptr_def didx_def)
    then show ?thesis using LIST_HEAD True assms(2)
      by (simp add: listTypeNext_def dptr_def didx_def)
  qed
qed (simp add: listTypeNext_def assms(2) dptr_def)

lemma listTypeDelete_ok:
  assumes "lp_repr m es" and "i < length es" and "li_subject li = m" and "li_direction li = d"
  defines "fs \<equiv> take (didx d es i) es @ drop (Suc (didx d es i)) es"
  shows "\<exists>m'. listTypeDelete a li (lp_off es (didx d es i)) = Some (li\<lparr>li_subject := m', li_lpi := dptr d fs i\<rparr>) \<and>
    lp_repr m' fs"
proof -
  let ?j = "didx d es i"
  have j: "?j < length es" using didx_less assms(2) by blast
  obtain m' where m': "lpDelete a m (lp_off es ?j) = Some (Some (m', lp_ptr fs ?j))" "lp_repr m' fs"
    using lpDelete_ok [OF assms(1) j, of a] by (auto simp: fs_def)
  have len: "length fs = length es - 1" using j by (simp add: fs_def)
  have "(if d = LIST_TAIL then Some (lp_ptr fs ?j)
      else (case lp_ptr fs ?j of Some p \<Rightarrow> lpPrev m' p | None \<Rightarrow> lpLast m')) = Some (dptr d fs i)"
  proof (cases d)
    case LIST_TAIL
    then show ?thesis by (simp add: dptr_def didx_def lp_ptr_def)
  next
    case LIST_HEAD
    then have j': "?j = length es - 1 - i" by (simp add: didx_def)
    show ?thesis
    proof (cases "?j < length fs")
      case True
      then show ?thesis using LIST_HEAD j' len lpPrev_off [OF m'(2), of ?j] assms(2)
        by (auto simp: lp_ptr_def dptr_def didx_def)
    next
      case False
      then have "i = 0" using j' len assms(2) by linarith
      moreover have "fs \<noteq> [] \<longleftrightarrow> 1 < length es" using len by (cases fs) auto
      ultimately show ?thesis using False LIST_HEAD len lpLast_off [OF m'(2)]
        by (auto simp: lp_ptr_def dptr_def didx_def)
    qed
  qed
  then show ?thesis using m' assms(3,4) by (intro exI [of _ m']) (simp add: listTypeDelete_def)
qed

section \<open>LREM\<close>

fun remove_first :: "'a \<Rightarrow> nat \<Rightarrow> 'a list \<Rightarrow> 'a list" where
  "remove_first x n [] = []"
| "remove_first x n (y # ys) = (if y = x \<and> 0 < n then remove_first x (n - 1) ys else y # remove_first x n ys)"

lemma remove_first_0 [simp]: "remove_first x 0 ys = ys"
  by (induction ys) auto

lemma remove_first_length: "length (remove_first x n ys) \<le> length ys"
  by (induction ys arbitrary: n) (auto simp: le_SucI)

lemma remove1_remove_first: "remove1 x (remove_first x n ys) = remove_first x (Suc n) ys"
  by (induction ys arbitrary: n) auto

lemma remove_first_eq: "remove_first x n ys = (remove1 x ^^ n) ys"
  by (induction n) (simp_all flip: remove1_remove_first)

lemma remove_first_all: "length ys \<le> n \<Longrightarrow> remove_first x n ys = removeAll x ys"
  by (induction ys arbitrary: n) auto

text \<open>The part of an object that a comparison sees: its length is cut to 32 bits.\<close>

definition compared :: "byte list \<Rightarrow> byte list" where
  "compared obj = take (length obj mod 2 ^ 32) obj"

lemma compared_short: "length obj < 2 ^ 32 \<Longrightarrow> compared obj = obj"
  by (simp add: compared_def)

lemma compared_append: "length y < 2 ^ 32 \<Longrightarrow> length z mod 2 ^ 32 = 0 \<Longrightarrow> compared (y @ z) = y"
  by (simp add: compared_def mod_add_right_eq [of _ "length z", symmetric])

lemma listTypeEqual_compared: "listTypeEqual m p obj cache = lpCompare m p (compared obj) cache"
proof -
  have "nat (u32 (int (length obj))) = length obj mod 2 ^ 32"
    by (simp add: u32_def nat_mod_distrib)
  then show ?thesis by (simp add: listTypeEqual_def compared_def Let_def)
qed

text \<open>
  The loop has visited \<open>i\<close> elements and may remove \<open>k\<close> more; \<open>k\<close> is the length of the rest when
  there is no limit.
\<close>

lemma lrem_loop_ok:
  assumes "lp_repr m es" and "es = map lp_entry (dview d ys)" and "i \<le> length ys" and "cmp_cache_ok x cache"
    and "if t = 0 then length ys - i \<le> k else t = r + int k \<and> 0 < k" and x: "x = compared obj"
  shows "\<exists>m'. lrem_loop a \<lparr>li_subject = m, li_direction = d, li_lpi = dptr d es i\<rparr> obj t r cache =
      Some (m', r + int (length ys - i - length (remove_first x k (drop i ys)))) \<and>
    list_holds m' (dview d (take i ys @ remove_first x k (drop i ys)))"
  using assms(1-5)
proof (induction "length ys - i" arbitrary: m es ys i cache k r)
  case 0
  then have "i = length ys" "length es = length ys" by auto
  then show ?case using 0 listTypeNext_ok [OF 0(2) refl, of d i]
    by (subst lrem_loop.simps) (simp add: list_holds_def)
next
  case (Suc n)
  then have i: "i < length ys" and es: "length es = length ys" by auto
  note nx = listTypeNext_ok [OF Suc(3) refl, of d i]
  have d: "drop i ys = ys ! i # drop (Suc i) ys" using i by (simp add: Cons_nth_drop_Suc)
  have "es ! didx d es i = lp_entry (ys ! i)" using nth_didx [of i es d] i es Suc.prems(2) by simp
  then obtain cache' where eq: "listTypeEqual m (lp_off es (didx d es i)) obj cache = Some (ys ! i = x, cache')"
    "cmp_cache_ok x cache'"
    using lpCompare_off [OF Suc.prems(1) _ Suc.prems(4), of "didx d es i"] didx_less [of i es d] i es
    by (auto simp: listTypeEqual_compared x)
  show ?case
  proof (cases "ys ! i = x")
    case False
    then show ?thesis
      using Suc.hyps(1) [of ys "Suc i" m es cache' k r] Suc.hyps(2) Suc.prems eq i es nx d
      by (subst lrem_loop.simps) (simp add: take_Suc_conv_app_nth split: if_splits)
  next
    case True
    define ys' where "ys' = take i ys @ drop (Suc i) ys"
    define fs where "fs = take (didx d es i) es @ drop (Suc (didx d es i)) es"
    have "dview d fs = map lp_entry ys'"
      using dview_remove [of i es d] i es Suc.prems(2) by (simp add: fs_def ys'_def take_map drop_map)
    then have fs: "fs = map lp_entry (dview d ys')" by (metis dview_dview(1,4))
    obtain m' where m': "listTypeDelete a \<lparr>li_subject = m, li_direction = d, li_lpi = dptr d es (Suc i)\<rparr>
        (lp_off es (didx d es i)) = Some \<lparr>li_subject = m', li_direction = d, li_lpi = dptr d fs i\<rparr>" "lp_repr m' fs"
      using listTypeDelete_ok [OF Suc.prems(1), of i "\<lparr>li_subject = m, li_direction = d, li_lpi = dptr d es (Suc i)\<rparr>" d a]
        i es by (auto simp: fs_def)
    have ys': "length ys' = length ys - 1" "drop i ys' = drop (Suc i) ys" "take i ys' = take i ys"
      using i by (auto simp: ys'_def)
    have k: "0 < k" using Suc.prems(5) i by (auto split: if_splits)
    then have rm: "remove_first x k (drop i ys) = remove_first x (k - 1) (drop i ys')" using d True ys'(2) by simp
    show ?thesis
    proof (cases "t \<noteq> 0 \<and> r + 1 = t")
      case stop: True
      then have "k = 1" using Suc.prems(5) by simp
      then have "remove_first x k (drop i ys) = drop (Suc i) ys" using rm ys'(2) by simp
      then show ?thesis using True stop nx eq m' i es fs
        by (subst lrem_loop.simps) (simp add: list_holds_def ys'_def)
    next
      case go: False
      have c: "if t = 0 then length ys' - i \<le> k - 1 else t = r + 1 + int (k - 1) \<and> 0 < k - 1"
        using Suc.prems(5) go k ys'(1) i by (auto split: if_splits)
      have "n = length ys' - i" "i \<le> length ys'" using Suc.hyps(2) ys'(1) i by auto
      from Suc.hyps(1) [OF this(1) m'(2) fs this(2) eq(2) c]
      obtain m2 where m2: "lrem_loop a \<lparr>li_subject = m', li_direction = d, li_lpi = dptr d fs i\<rparr> obj t (r + 1) cache' =
          Some (m2, r + 1 + int (length ys' - i - length (remove_first x (k - 1) (drop i ys'))))"
        "list_holds m2 (dview d (take i ys' @ remove_first x (k - 1) (drop i ys')))" by blast
      have "length (remove_first x (k - 1) (drop i ys')) \<le> length ys' - i"
        using remove_first_length [of x "k - 1" "drop i ys'"] by simp
      then have cnt: "r + 1 + int (length ys' - i - length (remove_first x (k - 1) (drop i ys'))) =
        r + int (length ys - i - length (remove_first x (k - 1) (drop i ys')))"
        using ys'(1) i by linarith
      have "(t \<noteq> 0 \<and> r + 1 = t) = False" using go by simp
      then have "lrem_loop a \<lparr>li_subject = m, li_direction = d, li_lpi = dptr d es i\<rparr> obj t r cache =
        lrem_loop a \<lparr>li_subject = m', li_direction = d, li_lpi = dptr d fs i\<rparr> obj t (r + 1) cache'"
        using True nx eq(1) m'(1) es i by (subst lrem_loop.simps) (auto simp: Let_def)
      then show ?thesis using m2 unfolding rm cnt ys'(3) by (intro exI [of _ m2]) simp
    qed
  qed
qed

lemma lrem_scan_ok:
  fixes n :: int
  assumes "list_holds m xs" and "x = compared obj"
  defines "ys \<equiv> (if n = 0 then removeAll x xs else if 0 < n then (remove1 x ^^ nat n) xs
    else rev ((remove1 x ^^ nat (- n)) (rev xs)))"
  shows "\<exists>m'. lrem_scan a m obj n = Some (m', int (length xs - length ys)) \<and> list_holds m' ys"
proof -
  define d where "d = (if n < 0 then LIST_HEAD else LIST_TAIL)"
  define k where "k = (if n = 0 then length xs else nat \<bar>n\<bar>)"
  let ?es = "map lp_entry xs" and ?zs = "dview d xs"
  have ys: "ys = dview d (remove_first x k ?zs)"
    by (simp add: ys_def d_def k_def dview_def remove_first_all flip: remove_first_eq)
  have repr: "lp_repr m ?es" using assms(1) by (simp add: list_holds_def)
  have "\<exists>m'. lrem_loop a \<lparr>li_subject = m, li_direction = d, li_lpi = dptr d ?es 0\<rparr> obj \<bar>n\<bar> 0 (Some (0, 0)) =
      Some (m', int (length xs - length ys)) \<and> list_holds m' ys"
  proof -
    have c: "if \<bar>n\<bar> = 0 then length ?zs - 0 \<le> k else \<bar>n\<bar> = 0 + int k \<and> 0 < k" by (simp add: k_def)
    have "cmp_cache_ok x (Some (0, 0))" "?es = map lp_entry (dview d ?zs)" by (simp_all add: cmp_cache_ok_def)
    from lrem_loop_ok [OF repr this(2) _ this(1) c assms(2), of a] show ?thesis by (simp add: ys)
  qed
  moreover have "lrem_scan a m obj n = lrem_loop a \<lparr>li_subject = m, li_direction = d, li_lpi = dptr d ?es 0\<rparr> obj \<bar>n\<bar> 0 (Some (0, 0))"
    using listTypeInitIterator_ok [OF repr, of d] by (simp add: lrem_scan_def d_def split: if_splits)
  ultimately show ?thesis by simp
qed

end
