(* ===== verification/T_List_Scan.thy ===== *)
theory T_List_Scan
  imports T_List_Iter
begin

text \<open>
  The other scans of the list commands: ranges and trimming, the search of \<open>LPOS\<close>, insertion at
  a pivot and replacement at an index.
\<close>

section \<open>LRANGE and LTRIM\<close>

text \<open>The elements from index \<open>s\<close> to index \<open>e\<close>, which count from the end when negative.\<close>

definition list_range :: "'a list \<Rightarrow> int \<Rightarrow> int \<Rightarrow> 'a list" where
  "list_range xs s e =
     (let n = int (length xs); s = max 0 (if s < 0 then n + s else s); e = (if e < 0 then n + e else e)
      in take (nat (e + 1 - s)) (drop (nat s) xs))"

lemma range_reply_loop_ok:
  assumes "lp_repr m es" and "es = map lp_entry (dview d ys)" and "i + n \<le> length ys"
  shows "addListListpackRangeReply_loop a m (lp_total es) (d = LIST_HEAD) n (dptr d es i) = Some (take n (drop i ys))"
  using assms(3)
proof (induction n arbitrary: i)
  case (Suc n)
  let ?j = "didx d es i"
  have i: "i < length ys" "length es = length ys" using Suc.prems assms(2) by auto
  have j: "?j < length es" using didx_less [of i es d] i by simp
  have "es ! ?j = lp_entry (ys ! i)" using nth_didx [of i es d] i assms(2) by simp
  then obtain v where v: "lpGet m (lp_off es ?j) (Some (lp_intbuf a)) = Some v" "lp_copy m v = Some (ys ! i)"
    using lpGet_copy [OF assms(1) j, of a] by auto
  have "(if d = LIST_HEAD then lpPrev m (lp_off es ?j) else lpNextWithBytes m (lp_off es ?j) (lp_total es)) =
    Some (dptr d es (Suc i))"
  proof (cases d)
    case LIST_HEAD
    then show ?thesis using lpPrev_off [OF assms(1), of ?j] i by (auto simp: dptr_def didx_def)
  next
    case LIST_TAIL
    then show ?thesis using lpNextWithBytes_off [OF assms(1) j] by (simp add: dptr_def didx_def lp_ptr_def)
  qed
  moreover have "dptr d es i = Some (lp_off es ?j)" using i by (simp add: dptr_def)
  ultimately show ?case using v Suc.IH [of "Suc i"] Suc.prems Cons_nth_drop_Suc [OF i(1), symmetric]
    by simp
qed simp

lemma rev_slice:
  assumes "e < length xs" and "s \<le> e"
  shows "take (e + 1 - s) (drop (length xs - 1 - e) (rev xs)) = rev (take (e + 1 - s) (drop s xs))"
proof -
  have "drop (length xs - 1 - e) (rev xs) = rev (take (e + 1) xs)" using assms by (simp add: drop_rev)
  moreover have "length (take (e + 1) xs) - (e + 1 - s) = s" using assms by simp
  then have "take (e + 1 - s) (rev (take (e + 1) xs)) = rev (drop s (take (e + 1) xs))"
    by (simp only: take_rev)
  ultimately show ?thesis by (simp add: drop_take)
qed

lemma addListRangeReply_ok:
  assumes "list_holds m xs"
  shows "\<exists>m'. addListRangeReply a m start stop reverse =
      Some (m', if reverse then rev (list_range xs start stop) else list_range xs start stop) \<and> list_holds m' xs"
proof -
  let ?es = "map lp_entry xs" and ?n = "int (length xs)"
  obtain m' where m': "listTypeLength m = Some (m', ?n)" "lp_repr m' ?es"
    using lpLength_off [of m ?es] assms by (auto simp: list_holds_def listTypeLength_def)
  define s e where "s = max 0 (if start < 0 then ?n + start else start)" and
    "e = (if stop < 0 then ?n + stop else stop)"
  define e' where "e' = (if e \<ge> ?n then ?n - 1 else e)"
  define d where "d = (if reverse then LIST_HEAD else LIST_TAIL)"
  define k where "k = nat (e' + 1 - s)"
  have rng: "list_range xs start stop = take (nat (e + 1 - s)) (drop (nat s) xs)"
    by (simp add: list_range_def s_def e_def Let_def)
  show ?thesis
  proof (cases "s > e \<or> s \<ge> ?n")
    case True
    then have "list_range xs start stop = []" unfolding rng by auto
    then show ?thesis using True m' by (auto simp: addListRangeReply_def s_def e_def list_holds_def Let_def)
  next
    case False
    then have se: "0 \<le> s" "s \<le> e'" "e' < ?n" by (auto simp: s_def e'_def)
    have small: "?n < 2 ^ 31" using lp_repr_count [OF m'(2)] by simp
    have slice: "take k (drop (nat s) xs) = list_range xs start stop"
      unfolding rng k_def e'_def using False by auto
    define i where "i = (if reverse then length xs - 1 - nat e' else nat s)"
    have "k = nat e' + 1 - nat s" using se by (simp add: k_def)
    then have view: "take k (drop i (dview d xs)) =
      (if reverse then rev (list_range xs start stop) else list_range xs start stop)"
      using rev_slice [of "nat e'" xs "nat s"] se slice by (simp add: i_def d_def dview_def)
    have "i32 (if reverse then e' else s) = (if reverse then e' else s)" "i32 (e' - s + 1) = e' - s + 1"
      using se small by (auto simp: i32_def)
    moreover have "lpSeek m' (if reverse then e' else s) = Some (dptr d ?es i)"
      using lpSeek_off [OF m'(2), of "if reverse then e' else s"] se
      by (auto simp: lp_index_def dptr_def didx_def i_def d_def Let_def)
    moreover have "addListListpackRangeReply_loop a m' (lp_total ?es) (d = LIST_HEAD) k (dptr d ?es i) =
        Some (take k (drop i (dview d xs)))"
      using range_reply_loop_ok [OF m'(2), of d "dview d xs" i k a] se by (auto simp: i_def k_def)
    moreover have "nat (e' - s + 1) = k" "0 \<le> e' - s + 1" "(d = LIST_HEAD) = reverse"
      using se by (simp_all add: k_def d_def algebra_simps)
    ultimately have "addListListpackRangeReply a m' (i32 (if reverse then e' else s)) (i32 (e' - s + 1)) reverse =
      Some (take k (drop i (dview d xs)))"
      using lp_repr_total [OF m'(2)] by (simp add: addListListpackRangeReply_def lpBytes_def)
    moreover have "addListRangeReply a m start stop reverse = Option.bind
      (addListListpackRangeReply a m' (i32 (if reverse then e' else s)) (i32 (e' - s + 1)) reverse) (\<lambda>r. Some (m', r))"
    proof -
      define s0 where "s0 = (if start < 0 then ?n + start else start)"
      have "(if s0 < 0 then 0 else s0) = s" by (simp add: s_def s0_def max_def)
      moreover have "(s > e \<or> s \<ge> ?n) = False" using False by simp
      ultimately show ?thesis
        by (simp only: addListRangeReply_def m'(1) Let_def bind.bind_lunit prod.case s0_def [symmetric]
            e_def [symmetric] e'_def [symmetric] if_False)
    qed
    ultimately show ?thesis using m'(2) view by (auto simp: list_holds_def)
  qed
qed

lemma lpDeleteRange_holds:
  assumes "list_holds m xs"
  shows "\<exists>m'. lpDeleteRange a m k n = Some m' \<and> list_holds m' (lp_range xs k n)"
proof -
  have "lp_range (map lp_entry xs) k n = map lp_entry (lp_range xs k n)"
    by (simp add: lp_range_def Let_def take_map drop_map)
  then show ?thesis using lpDeleteRange_ok [of m "map lp_entry xs" a k n] assms by (simp add: list_holds_def)
qed

lemma lp_range_front: "lp_range xs 0 n = drop n xs"
  by (simp add: lp_range_def)

lemma lp_range_back: "r \<le> length xs \<Longrightarrow> lp_range xs (- int r) r = take (length xs - r) xs"
  by (cases "r = 0") (auto simp: lp_range_def Let_def nat_diff_distrib)

lemma ltrim_bounds_ok:
  "\<exists>l r. ltrim_bounds (int (length xs)) start stop = (int l, int r) \<and> l + r \<le> length xs \<and>
    list_range xs start stop = take (length xs - l - r) (drop l xs)"
proof -
  let ?n = "int (length xs)"
  define s0 where "s0 = (if start < 0 then ?n + start else start)"
  define e where "e = (if stop < 0 then ?n + stop else stop)"
  define s where "s = (if s0 < 0 then 0 else s0)"
  have rng: "list_range xs start stop = take (nat (e + 1 - s)) (drop (nat s) xs)"
    by (simp add: list_range_def s_def s0_def e_def Let_def max_def)
  have b: "ltrim_bounds ?n start stop = (if s > e \<or> s \<ge> ?n then (?n, 0)
      else (s, ?n - (if e \<ge> ?n then ?n - 1 else e) - 1))"
    by (simp only: ltrim_bounds_def Let_def s0_def [symmetric] e_def [symmetric] s_def [symmetric])
  show ?thesis
  proof (cases "s > e \<or> s \<ge> ?n")
    case True
    then have "list_range xs start stop = []" unfolding rng by auto
    then show ?thesis using True by (intro exI [of _ "length xs"] exI [of _ 0]) (simp add: b)
  next
    case False
    have s: "0 \<le> s" by (simp add: s_def)
    define e' where "e' = (if e \<ge> ?n then ?n - 1 else e)"
    have e': "s \<le> e'" "e' < ?n" using False by (auto simp: e'_def)
    have "take (nat (e + 1 - s)) (drop (nat s) xs) = take (nat (e' + 1 - s)) (drop (nat s) xs)"
      using s by (auto simp: e'_def)
    moreover have "length xs - nat s - nat (?n - e' - 1) = nat (e' + 1 - s)" using s e' by linarith
    ultimately show ?thesis using s e' False
      by (intro exI [of _ "nat s"] exI [of _ "nat (?n - e' - 1)"]) (simp add: b rng flip: e'_def)
  qed
qed

lemma ltrim_cut_ok:
  assumes "list_holds m xs"
  shows "\<exists>m'. ltrim_cut a m start stop = Some m' \<and> list_holds m' (list_range xs start stop)"
proof -
  let ?n = "int (length xs)"
  obtain m1 where m1: "listTypeLength m = Some (m1, ?n)" "list_holds m1 xs"
    using lpLength_off [of m "map lp_entry xs"] assms by (auto simp: list_holds_def listTypeLength_def)
  obtain l r where lr: "ltrim_bounds ?n start stop = (int l, int r)" "l + r \<le> length xs"
    "list_range xs start stop = take (length xs - l - r) (drop l xs)"
    using ltrim_bounds_ok by blast
  obtain m2 where m2: "lpDeleteRange a m1 0 l = Some m2" "list_holds m2 (drop l xs)"
    using lpDeleteRange_holds [OF m1(2), of a 0 l] by (auto simp: lp_range_front)
  obtain m3 where m3: "lpDeleteRange a m2 (- int r) r = Some m3" "list_holds m3 (take (length xs - l - r) (drop l xs))"
    using lpDeleteRange_holds [OF m2(2), of a "- int r" r] lp_range_back [of r "drop l xs"] lr(2) by auto
  show ?thesis using m1 m2 m3 lr by (simp add: ltrim_cut_def)
qed

section \<open>LINSERT and LPOS\<close>

lemma listTypeEqual_visit:
  assumes "lp_repr m es" and "es = map lp_entry (dview d ys)" and "i < length ys" and "cmp_cache_ok x cache"
    and "x = compared obj"
  obtains cache' where "listTypeEqual m (lp_off es (didx d es i)) obj cache = Some (ys ! i = x, cache')"
    and "cmp_cache_ok x cache'"
proof -
  have es: "length es = length ys" using assms(2) by simp
  then have "es ! didx d es i = lp_entry (ys ! i)" using nth_didx [of i es d] assms(2,3) by simp
  then show ?thesis
    using lpCompare_off [OF assms(1) _ assms(4), of "didx d es i"] didx_less [of i es d] assms(3) es that
    by (auto simp: listTypeEqual_compared assms(5))
qed

text \<open>The positions a scan reports: those of the matches from the \<open>rank\<close>-th on, at most \<open>count\<close>.\<close>

fun lpos_spec :: "'a \<Rightarrow> int \<Rightarrow> int \<Rightarrow> int \<Rightarrow> int \<Rightarrow> int \<Rightarrow> 'a list \<Rightarrow> int list" where
  "lpos_spec x rank count maxlen i k [] = []"
| "lpos_spec x rank count maxlen i k (y # ys) =
     (if maxlen \<noteq> 0 \<and> maxlen \<le> i then []
      else if y = x then
        (if k + 1 < rank then lpos_spec x rank count maxlen (i + 1) (k + 1) ys
         else if count = - 1 \<or> count \<noteq> 0 \<and> count \<le> k + 1 - rank + 1 then [i]
         else i # lpos_spec x rank count maxlen (i + 1) (k + 1) ys)
      else lpos_spec x rank count maxlen (i + 1) k ys)"

definition dpos :: "list_end \<Rightarrow> int \<Rightarrow> int \<Rightarrow> int" where
  "dpos d n i = (if d = LIST_TAIL then i else n - i - 1)"

lemma lpos_loop_ok:
  assumes "lp_repr m es" and "es = map lp_entry (dview d ys)" and "i \<le> length ys" and "cmp_cache_ok x cache"
    and x: "x = compared obj"
  shows "lpos_loop \<lparr>li_subject = m, li_direction = d, li_lpi = dptr d es i\<rparr> obj rank count maxlen (int (length ys))
      (int i) k cache =
    Some (map (dpos d (int (length ys))) (lpos_spec x rank count maxlen (int i) k (drop i ys)))"
  using assms(3,4)
proof (induction "length ys - i" arbitrary: i k cache)
  case 0
  then have "i = length ys" "length es = length ys" using assms(2) by auto
  then show ?case using listTypeNext_ok [OF assms(1) refl, of d i]
    by (subst lpos_loop.simps) simp
next
  case (Suc n)
  then have i: "i < length ys" and es: "length es = length ys" using assms(2) by auto
  have d: "drop i ys = ys ! i # drop (Suc i) ys" using i by (simp add: Cons_nth_drop_Suc)
  obtain cache' where eq: "listTypeEqual m (lp_off es (didx d es i)) obj cache = Some (ys ! i = x, cache')"
    "cmp_cache_ok x cache'"
    using listTypeEqual_visit [OF assms(1,2) i Suc.prems(2) x] .
  define li where "li = \<lparr>li_subject = m, li_direction = d, li_lpi = dptr d es (Suc i)\<rparr>"
  have li: "li_subject li = m" "(if li_direction li = LIST_TAIL then int i else int (length ys) - int i - 1) =
    dpos d (int (length ys)) (int i)" by (simp_all add: li_def dpos_def)
  have nx: "listTypeNext \<lparr>li_subject = m, li_direction = d, li_lpi = dptr d es i\<rparr> = Some (Some (lp_off es (didx d es i)), li)"
    using listTypeNext_ok [OF assms(1) refl, of d i] i es by (simp add: li_def)
  have IH: "lpos_loop li obj rank count maxlen (int (length ys)) (int i + 1) k' cache' =
    Some (map (dpos d (int (length ys))) (lpos_spec x rank count maxlen (int i + 1) k' (drop (Suc i) ys)))" for k'
    using Suc.hyps(1) [of "Suc i" cache' k'] Suc.hyps(2) eq(2) i by (simp add: add.commute li_def)
  show ?case unfolding d
    by (subst lpos_loop.simps, simp only: nx bind.bind_lunit prod.case option.case eq(1) li IH Let_def) auto
qed

lemma filter_upt_Suc:
  "filter P [0..<Suc n] = (if P 0 then [0] else []) @ map Suc (filter (\<lambda>k. P (Suc k)) [0..<n])"
proof -
  have "[0..<Suc n] = 0 # map Suc [0..<n]" by (simp add: map_Suc_upt upt_conv_Cons del: upt_Suc)
  then show ?thesis by (simp add: filter_map comp_def)
qed

definition lpos_limit :: "int \<Rightarrow> int \<Rightarrow> 'a list \<Rightarrow> 'a list" where
  "lpos_limit count done ps = (if count = - 1 then take 1 ps else if count = 0 then ps else take (nat (count - done)) ps)"

lemma lpos_limit_map: "lpos_limit c d (map f zs) = map f (lpos_limit c d zs)"
  by (simp add: lpos_limit_def take_map)

lemma lpos_spec_eq:
  assumes "1 \<le> rank" and "- 1 \<le> count" and "0 \<le> maxlen" and "0 \<le> i" and "0 \<le> k"
    and "count = - 1 \<longrightarrow> k < rank" and "0 < count \<longrightarrow> k - rank + 1 < count"
  shows "lpos_spec x rank count maxlen i k ys = map (\<lambda>j. i + int j)
    (lpos_limit count (max 0 (k - rank + 1)) (drop (nat (rank - 1 - k))
      (filter (\<lambda>j. ys ! j = x) [0..<(if maxlen = 0 then length ys else min (length ys) (nat (maxlen - i)))])))"
  using assms
proof (induction ys arbitrary: i k)
  case Nil
  then show ?case by (simp add: lpos_limit_def)
next
  case (Cons y ys)
  show ?case
  proof (cases "maxlen \<noteq> 0 \<and> maxlen \<le> i")
    case True
    then show ?thesis by (simp add: lpos_limit_def)
  next
    case False
    define b where "b = (if maxlen = 0 then length ys else min (length ys) (nat (maxlen - (i + 1))))"
    define ps where "ps = filter (\<lambda>j. ys ! j = x) [0..<b]"
    have "(if maxlen = 0 then length (y # ys) else min (length (y # ys)) (nat (maxlen - i))) = Suc b"
      using False Cons.prems(3,4) by (auto simp: b_def)
    then have f: "filter (\<lambda>j. (y # ys) ! j = x) [0..<(if maxlen = 0 then length (y # ys) else min (length (y # ys)) (nat (maxlen - i)))] =
      (if y = x then [0] else []) @ map Suc ps"
      by (simp only: filter_upt_Suc nth_Cons_0 nth_Cons_Suc ps_def)
    have IH: "lpos_spec x rank count maxlen (i + 1) k' ys = map (\<lambda>j. i + int j)
        (map Suc (lpos_limit count (max 0 (k' - rank + 1)) (drop (nat (rank - 1 - k')) ps)))"
      if "0 \<le> k'" "count = - 1 \<longrightarrow> k' < rank" "0 < count \<longrightarrow> k' - rank + 1 < count" for k'
      using Cons.IH [OF Cons.prems(1-3), of "i + 1" k'] Cons.prems(4) that by (simp add: ps_def b_def)
    have g: "(maxlen \<noteq> 0 \<and> maxlen \<le> i) = False" using False by simp
    consider (other) "y \<noteq> x" | (before) "y = x" "k + 1 < rank" | (last) "y = x" "rank \<le> k + 1"
        "count = - 1 \<or> count \<noteq> 0 \<and> count \<le> k + 1 - rank + 1"
      | (more) "y = x" "rank \<le> k + 1" "\<not> (count = - 1 \<or> count \<noteq> 0 \<and> count \<le> k + 1 - rank + 1)"
      by linarith
    then show ?thesis
    proof cases
      case other
      then show ?thesis unfolding f lpos_spec.simps g using IH [of k] Cons.prems(5-7)
        by (simp add: drop_map lpos_limit_map)
    next
      case before
      moreover have "nat (rank - 1 - k) = Suc (nat (rank - 1 - (k + 1)))" using before by simp
      moreover have "max 0 (k - rank + 1) = max 0 (k + 1 - rank + 1)" using before by simp
      ultimately show ?thesis unfolding f lpos_spec.simps g using IH [of "k + 1"] Cons.prems(5-7)
        by (simp add: drop_map lpos_limit_map)
    next
      case last
      have "lpos_limit count (max 0 (k - rank + 1)) (0 # map Suc ps) = [0]"
      proof (cases "count = - 1")
        case False
        then have "count = k - rank + 2" "count \<noteq> 0" using last Cons.prems(2,7) by linarith+
        then have "nat (count - max 0 (k - rank + 1)) = 1" using last(2) by simp
        then show ?thesis using False \<open>count \<noteq> 0\<close> by (simp add: lpos_limit_def)
      qed (simp add: lpos_limit_def)
      then show ?thesis unfolding f lpos_spec.simps g using last by simp
    next
      case more
      then have d: "nat (rank - 1 - k) = 0" "nat (rank - 1 - (k + 1)) = 0" "max 0 (k - rank + 1) = k - rank + 1"
        "max 0 (k + 1 - rank + 1) = k + 1 - rank + 1" by auto
      have "lpos_limit count (k - rank + 1) (0 # zs) = 0 # lpos_limit count (k + 1 - rank + 1) zs" for zs :: "nat list"
      proof (cases "count = 0")
        case False
        then have "0 \<le> count - (k + 1 - rank + 1)" using more by simp
        then have "nat (count - (k - rank + 1)) = Suc (nat (count - (k + 1 - rank + 1)))"
          by (simp add: Suc_nat_eq_nat_zadd1)
        then show ?thesis using more False by (simp add: lpos_limit_def)
      qed (simp add: lpos_limit_def)
      moreover have "lpos_spec x rank count maxlen (i + 1) (k + 1) ys = map (\<lambda>j. i + int j)
          (map Suc (lpos_limit count (k + 1 - rank + 1) ps))"
        using IH [of "k + 1"] more Cons.prems(2,5) d by auto
      moreover have "(count = - 1 \<or> count \<noteq> 0 \<and> count \<le> k + 1 - rank + 1) = False" "(k + 1 < rank) = False"
        using more by auto
      ultimately show ?thesis unfolding f lpos_spec.simps g d(1,3)
        using more(1) by (simp only: if_True if_False refl append_Cons append_Nil drop_0 lpos_limit_map) simp
    qed
  qed
qed

lemma lpos_scan_ok:
  fixes rank :: int
  assumes "list_holds m xs" and "rank \<noteq> 0" and "- 1 \<le> count" and "0 \<le> maxlen"
    and x: "x = compared obj"
  defines "d \<equiv> if rank < 0 then LIST_HEAD else LIST_TAIL"
  defines "ps \<equiv> filter (\<lambda>j. dview d xs ! j = x) [0..<(if maxlen = 0 then length xs else min (length xs) (nat maxlen))]"
  shows "\<exists>m'. lpos_scan m obj rank count maxlen = Some (m', map (\<lambda>j. dpos d (int (length xs)) (int j))
      (lpos_limit count 0 (drop (nat \<bar>rank\<bar> - 1) ps))) \<and> list_holds m' xs"
proof -
  let ?es = "map lp_entry xs" and ?ys = "dview d xs"
  obtain m' where m': "listTypeLength m = Some (m', int (length xs))" "lp_repr m' ?es"
    using lpLength_off [of m ?es] assms(1) by (auto simp: list_holds_def listTypeLength_def)
  have repr: "lp_repr m ?es" using assms(1) by (simp add: list_holds_def)
  have init: "listTypeInitIterator m (if d = LIST_HEAD then - 1 else 0) d =
    Some \<lparr>li_subject = m, li_direction = d, li_lpi = dptr d ?es 0\<rparr>" by (rule listTypeInitIterator_ok [OF repr])
  have "cmp_cache_ok x (Some (0, 0))" "?es = map lp_entry (dview d ?ys)" by (simp_all add: cmp_cache_ok_def)
  from lpos_loop_ok [OF m'(2) this(2) _ this(1) x, of 0 "\<bar>rank\<bar>" count maxlen 0]
  have loop: "lpos_loop \<lparr>li_subject = m', li_direction = d, li_lpi = dptr d ?es 0\<rparr> obj \<bar>rank\<bar> count maxlen (int (length xs)) 0 0
    (Some (0, 0)) = Some (map (dpos d (int (length xs))) (lpos_spec x \<bar>rank\<bar> count maxlen 0 0 ?ys))"
    by simp
  have r: "1 \<le> \<bar>rank\<bar>" "max 0 (0 - \<bar>rank\<bar> + 1) = 0" "nat (\<bar>rank\<bar> - 1 - 0) = nat \<bar>rank\<bar> - 1"
    using assms(2) by linarith+
  have c: "count = - 1 \<longrightarrow> 0 < \<bar>rank\<bar>" "0 < count \<longrightarrow> 0 - \<bar>rank\<bar> + 1 < count" using r(1) by linarith+
  have spec: "lpos_spec x \<bar>rank\<bar> count maxlen 0 0 ?ys = map int (lpos_limit count 0 (drop (nat \<bar>rank\<bar> - 1) ps))"
    using lpos_spec_eq [OF r(1) assms(3,4) order_refl order_refl c, of x ?ys]
    unfolding r(2,3) ps_def by (simp only: dview_dview(2) add_0 diff_0_right)
  have "lpos_scan m obj rank count maxlen = Some (m', map (\<lambda>j. dpos d (int (length xs)) (int j))
      (lpos_limit count 0 (drop (nat \<bar>rank\<bar> - 1) ps)))"
  proof -
    have e: "(if rank < 0 then LIST_HEAD else LIST_TAIL) = d" "(if rank < 0 then - rank else rank) = \<bar>rank\<bar>"
      by (simp_all add: d_def)
    have "lpos_scan m obj rank count maxlen = Option.bind (lpos_loop
        \<lparr>li_subject = m', li_direction = d, li_lpi = dptr d ?es 0\<rparr> obj \<bar>rank\<bar> count maxlen (int (length xs)) 0 0
        (Some (0, 0))) (\<lambda>reply. Some (m', reply))"
      by (simp only: lpos_scan_def Let_def e init m'(1) bind.bind_lunit prod.case listTypeIterator.simps)
    then show ?thesis
      by (simp add: loop spec comp_def)
  qed
  then show ?thesis using m'(2) by (simp add: list_holds_def)
qed

lemma getDecodedObject_sds [simp]: "getDecodedObject a (ObjSds s) = Some s"
  by (simp add: getDecodedObject_def)

text \<open>The list with an element put before or after element \<open>k\<close>.\<close>

definition list_insert :: "list_end \<Rightarrow> nat \<Rightarrow> 'a \<Rightarrow> 'a list \<Rightarrow> 'a list" where
  "list_insert w k y xs = (if w = LIST_TAIL then take (Suc k) xs @ [y] @ drop (Suc k) xs
     else take k xs @ [y] @ drop k xs)"

lemma listTypeInsert_ok:
  assumes "list_holds m xs" and "k < length xs" and "list_fits (list_insert w k y xs)"
  shows "\<exists>m'. drop_newp (listTypeInsert a m (lp_off (map lp_entry xs) k) (ObjSds y) w) = Some (Some m') \<and>
    list_holds m' (list_insert w k y xs)"
proof -
  let ?es = "map lp_entry xs" and ?w = "if w = LIST_TAIL then LP_AFTER else LP_BEFORE"
  have fs: "lp_edited ?w k (lp_entry y) ?es = map lp_entry (list_insert w k y xs)"
    by (simp add: list_insert_def take_map drop_map)
  have "int (length y) < 2 ^ 32 - 5" "\<not> lp_total (map lp_entry (list_insert w k y xs)) > UINT32_MAX"
    using assms(3) by (auto simp: list_fits_def list_insert_def split: if_splits)
  then obtain m' p where "lpInsertString a m y (lp_off ?es k) ?w = Some (Some (m', p))"
    "lp_repr m' (map lp_entry (list_insert w k y xs))"
    using lpInsertString_edited [of m ?es k y ?w a] assms(1,2) unfolding fs by (auto simp: list_holds_def)
  then show ?thesis by (simp add: listTypeInsert_def drop_newp_def list_holds_def)
qed

lemma linsert_loop_ok:
  assumes "list_holds m xs" and "i \<le> length xs" and "cmp_cache_ok x cache" and "x \<notin> set (take i xs)"
    and "\<forall>k. k < length xs \<and> xs ! k = x \<and> x \<notin> set (take k xs) \<longrightarrow> list_fits (list_insert w k y xs)"
    and x: "x = compared obj"
  shows "\<exists>m'. linsert_loop a \<lparr>li_subject = m, li_direction = LIST_TAIL, li_lpi = dptr LIST_TAIL (map lp_entry xs) i\<rparr>
      obj (ObjSds y) w cache = Some (Some m', x \<in> set xs) \<and>
    list_holds m' (if x \<in> set xs then list_insert w (length (takeWhile (\<lambda>z. z \<noteq> x) xs)) y xs else xs)"
  using assms(2-4)
proof (induction "length xs - i" arbitrary: i cache)
  case 0
  then have "i = length xs" "x \<notin> set xs" by auto
  moreover have "lp_repr m (map lp_entry xs)" using assms(1) by (simp add: list_holds_def)
  ultimately show ?case using listTypeNext_ok [OF _ refl, of m "map lp_entry xs" LIST_TAIL i] assms(1)
    by (subst linsert_loop.simps) simp
next
  case (Suc n)
  let ?es = "map lp_entry xs"
  have repr: "lp_repr m ?es" using assms(1) by (simp add: list_holds_def)
  have i: "i < length xs" using Suc.hyps(2) by simp
  have es: "?es = map lp_entry (dview LIST_TAIL xs)" by (simp add: dview_def)
  obtain cache' where eq: "listTypeEqual m (lp_off ?es i) obj cache = Some (xs ! i = x, cache')" "cmp_cache_ok x cache'"
    using listTypeEqual_visit [OF repr es i Suc.prems(2) x] by (auto simp: didx_def)
  have nx: "listTypeNext \<lparr>li_subject = m, li_direction = LIST_TAIL, li_lpi = dptr LIST_TAIL ?es i\<rparr> =
    Some (Some (lp_off ?es i), \<lparr>li_subject = m, li_direction = LIST_TAIL, li_lpi = dptr LIST_TAIL ?es (Suc i)\<rparr>)"
    using listTypeNext_ok [OF repr refl, of LIST_TAIL i] i by (simp add: didx_def)
  show ?case
  proof (cases "xs ! i = x")
    case True
    have "takeWhile (\<lambda>z. z \<noteq> x) xs = take i xs"
      using Suc.prems(3) True i by (intro takeWhile_eq_take_P_nth) (auto simp: in_set_conv_nth)
    moreover have "x \<in> set xs" using True i by auto
    moreover obtain m' where "drop_newp (listTypeInsert a m (lp_off ?es i) (ObjSds y) w) = Some (Some m')"
      "list_holds m' (list_insert w i y xs)"
      using listTypeInsert_ok [OF assms(1) i, of w y a] assms(5) Suc.prems(3) True i by blast
    ultimately show ?thesis using True eq(1) nx i by (subst linsert_loop.simps) simp
  next
    case False
    have "x \<notin> set (take (Suc i) xs)" using Suc.prems(3) False i by (simp add: take_Suc_conv_app_nth)
    then show ?thesis using Suc.hyps(1) [of "Suc i" cache'] Suc.hyps(2) False eq nx i
      by (subst linsert_loop.simps) simp
  qed
qed

lemma linsert_scan_ok:
  assumes "list_holds m xs"
    and "\<forall>k. k < length xs \<and> xs ! k = x \<and> x \<notin> set (take k xs) \<longrightarrow> list_fits (list_insert w k y xs)"
    and "x = compared obj"
  shows "\<exists>m'. linsert_scan a m obj (ObjSds y) w = Some (Some m', x \<in> set xs) \<and>
    list_holds m' (if x \<in> set xs then list_insert w (length (takeWhile (\<lambda>z. z \<noteq> x) xs)) y xs else xs)"
  using linsert_loop_ok [OF assms(1) _ _ _ assms(2,3), of 0 "Some (0, 0)" a]
    listTypeInitIterator_ok [of m "map lp_entry xs" LIST_TAIL] assms(1)
  by (simp add: linsert_scan_def cmp_cache_ok_def list_holds_def)

section \<open>LSET\<close>

lemma listTypeReplaceAtIndex_ok:
  fixes k :: int
  assumes "list_holds m xs" and "\<forall>i < length xs. list_fits (xs[i := y])"
  defines "j \<equiv> (if i32 k < 0 then int (length xs) + i32 k else i32 k)"
  shows "\<exists>m'. listTypeReplaceAtIndex a m k (ObjSds y) = Some (Some m', 0 \<le> j \<and> j < int (length xs)) \<and>
    list_holds m' (if 0 \<le> j \<and> j < int (length xs) then xs[nat j := y] else xs)"
proof -
  let ?es = "map lp_entry xs"
  have repr: "lp_repr m ?es" using assms(1) by (simp add: list_holds_def)
  have seek: "lpSeek m (i32 k) = Some (if 0 \<le> j \<and> j < int (length xs) then Some (lp_off ?es (nat j)) else None)"
    using lpSeek_off [OF repr, of "i32 k"] by (simp add: lp_index_def j_def Let_def)
  show ?thesis
  proof (cases "0 \<le> j \<and> j < int (length xs)")
    case False
    then have "lpSeek m (i32 k) = Some None" using seek by auto
    then show ?thesis using False assms(1) by (auto simp: listTypeReplaceAtIndex_def)
  next
    case True
    then have j: "nat j < length xs" by (simp add: nat_less_iff)
    have "y \<in> set (xs[nat j := y])" using j by (rule set_update_memI)
    then have y: "int (length y) < 2 ^ 32 - 5" and fit: "\<not> lp_total (map lp_entry (xs[nat j := y])) > UINT32_MAX"
      using assms(2) [rule_format, OF j] by (simp_all add: list_fits_def)
    have "take (nat j) ?es @ [lp_entry y] @ drop (Suc (nat j)) ?es = map lp_entry (xs[nat j := y])"
      using j by (simp add: upd_conv_take_nth_drop take_map drop_map)
    then obtain m' p where "lpReplace a m (lp_off ?es (nat j)) y = Some (Some (m', p))"
      "lp_repr m' (map lp_entry (xs[nat j := y]))"
      using lpInsert_replace [OF repr _ lp_ok_entry [OF y] lp_names_str, of "nat j" a] j fit
      by (simp add: lpReplace_def split: if_split_asm) blast
    then show ?thesis using True seek by (simp add: listTypeReplaceAtIndex_def drop_newp_def list_holds_def)
  qed
qed

end
