(* ===== verification/T_List_Correct.thy ===== *)
theory T_List_Correct
  imports T_List_Scan
begin

text \<open>The properties of lists in the listpack encoding.\<close>

section \<open>A sample list\<close>

definition sample_strings :: "byte list list" where
  "sample_strings = [[97], [98], [97], [55], [97]]"

definition sample_list :: mem where
  "sample_list = lp_image 5 (map lp_entry sample_strings)"

lemma sample_list_holds: "list_holds sample_list sample_strings"
proof -
  have "lp_total (map lp_entry sample_strings) < 2 ^ 32" by code_simp
  moreover have "\<forall>e \<in> set (map lp_entry sample_strings). lp_ok e" by code_simp
  ultimately show ?thesis
    by (auto simp: list_holds_def lp_repr_def sample_list_def lp_num_ok_def sample_strings_def)
qed

section \<open>The ends of a list\<close>

text \<open>C23. A list used as a queue keeps the order: what \<open>RPUSH\<close> adds one by one to a list, \<open>LPOP\<close>
  takes out again in the order it was pushed, after what the list held before, until the list is
  empty; nothing is lost, doubled or changed, whatever the encoding of the single elements.\<close>

theorem list_fifo:
  assumes "list_holds m xs" and "list_fits (xs @ ys)"
  shows "\<exists>m1 m2. push_all (list_push a LIST_TAIL) m ys = Some m1 \<and>
    pop_all (list_pop a LIST_HEAD) m1 (length xs + length ys) = Some (m2, xs @ ys) \<and> list_holds m2 []"
  by (rule lists.fifo [OF assms])

theorem list_fifo_witness:
  "\<exists>m1 m2. push_all (list_push sample_alloc LIST_TAIL) sample_list [[49, 50], []] = Some m1 \<and>
    pop_all (list_pop sample_alloc LIST_HEAD) m1 7 = Some (m2, sample_strings @ [[49, 50], []]) \<and> list_holds m2 []"
proof -
  have "list_fits (sample_strings @ [[49, 50], []])" by code_simp
  moreover have "length sample_strings + length [[49, 50], [] :: byte list] = 7" by code_simp
  ultimately show ?thesis
    using list_fifo [OF sample_list_holds, of "[[49, 50], []]" sample_alloc] by simp
qed

section \<open>Commands\<close>

text \<open>C24. The scan of \<open>LREM\<close>, which deletes from the list it iterates over: with a positive count it
  removes that many of the first occurrences, with a negative one of the last occurrences, with 0
  all of them, keeps everything else in order, and reports how many it removed. The element to
  remove is shorter than \<open>2 ^ 32\<close> bytes.\<close>

theorem lrem_refines:
  assumes "list_holds m xs" and "length x < 2 ^ 32"
  shows "\<exists>m' ys. lrem_scan a m x n = Some (m', int (length xs - length ys)) \<and> list_holds m' ys \<and>
    ys = (if n = 0 then removeAll x xs else if 0 < n then (remove1 x ^^ nat n) xs
      else rev ((remove1 x ^^ nat (- n)) (rev xs)))"
  using lrem_scan_ok [OF assms(1) compared_short [OF assms(2), symmetric], of a n] by blast

theorem lrem_refines_witness:
  "\<exists>m'. lrem_scan sample_alloc sample_list [97] (- 2) = Some (m', 2) \<and> list_holds m' [[97], [98], [55]]"
proof -
  have "rev ((remove1 [97] ^^ nat 2) (rev sample_strings)) = [[97], [98], [55]]" by code_simp
  moreover have "length sample_strings = 5" by code_simp
  ultimately show ?thesis using lrem_refines [OF sample_list_holds, of "[97]" sample_alloc "- 2"] by auto
qed

text \<open>C25. \<open>LRANGE\<close> and \<open>LTRIM\<close> agree on what a range is: the reply of the one lists exactly the elements
  the other keeps, the positions from \<open>start\<close> to \<open>stop\<close>, counted from the back when negative and
  clipped to the list, in order or, for a reversed reply, from the last to the first.\<close>

theorem range_commands_agree:
  assumes "list_holds m xs"
  shows "\<exists>m1 m2. addListRangeReply a m start stop reverse =
      Some (m1, (if reverse then rev else id) (list_range xs start stop)) \<and> list_holds m1 xs \<and>
    ltrim_cut a m start stop = Some m2 \<and> list_holds m2 (list_range xs start stop)"
  using addListRangeReply_ok [OF assms, of a start stop reverse] ltrim_cut_ok [OF assms, of a start stop]
  by (cases reverse) simp_all

theorem range_commands_agree_witness:
  "\<exists>m1 m2. addListRangeReply sample_alloc sample_list (- 4) 2 True = Some (m1, [[97], [98]]) \<and>
    list_holds m1 sample_strings \<and>
    ltrim_cut sample_alloc sample_list (- 4) 2 = Some m2 \<and> list_holds m2 [[98], [97]]"
proof -
  have "list_range sample_strings (- 4) 2 = [[98], [97]]" by code_simp
  then show ?thesis using range_commands_agree [OF sample_list_holds, of sample_alloc "- 4" 2 True] by simp
qed

text \<open>C26. The search of \<open>LPOS\<close>: of the positions of the element among the first \<open>maxlen\<close> elements
  visited (all when it is 0), from the head or, for a negative rank, from the tail, the reply skips
  the first \<open>rank - 1\<close> and lists at most \<open>count\<close> (all when it is 0, one without the option), always
  as positions from the head. The element is shorter than \<open>2 ^ 32\<close> bytes.\<close>

theorem lpos_refines:
  assumes "list_holds m xs" and "rank \<noteq> 0" and "- 1 \<le> count" and "0 \<le> maxlen" and "length x < 2 ^ 32"
  shows "\<exists>m' ps. lpos_scan m x rank count maxlen = Some (m', ps) \<and> list_holds m' xs \<and>
    ps = (let n = length xs; ys = (if rank < 0 then rev xs else xs);
              hits = filter (\<lambda>j. ys ! j = x) [0..<(if maxlen = 0 then n else min n (nat maxlen))];
              hits = drop (nat \<bar>rank\<bar> - 1) hits;
              hits = (if count = - 1 then take 1 hits else if count = 0 then hits else take (nat count) hits)
          in map (\<lambda>j. if rank < 0 then int n - int j - 1 else int j) hits)"
  using lpos_scan_ok [OF assms(1-4) compared_short [OF assms(5), symmetric]] unfolding lpos_limit_def dview_def dpos_def Let_def
  by (cases "rank < 0") (simp_all only: if_True if_False list_end.distinct simp_thms diff_0_right, blast+)

theorem lpos_refines_witness:
  "\<exists>m'. lpos_scan sample_list [97] (- 2) 0 0 = Some (m', [2, 0]) \<and> list_holds m' sample_strings"
proof -
  have "filter (\<lambda>j. rev sample_strings ! j = [97]) [0..<length sample_strings] = [0, 2, 4]" by code_simp
  moreover have "length sample_strings = 5" by code_simp
  ultimately show ?thesis
    using lpos_refines [OF sample_list_holds, of "- 2" 0 0 "[97]"] by (auto simp: Let_def)
qed

text \<open>C27. \<open>LINSERT\<close> puts the new element before or after the first occurrence of the pivot, and leaves
  the list as it is when the pivot does not occur. The pivot is shorter than \<open>2 ^ 32\<close> bytes.\<close>

theorem linsert_refines:
  assumes "list_holds m xs" and "\<And>k. k < length xs \<Longrightarrow> list_fits (list_insert w k y xs)"
    and "length x < 2 ^ 32"
  shows "\<exists>m'. linsert_scan a m x (ObjSds y) w = Some (Some m', x \<in> set xs) \<and>
    list_holds m' (if x \<in> set xs then list_insert w (length (takeWhile (\<lambda>z. z \<noteq> x) xs)) y xs else xs)"
  using assms by (intro linsert_scan_ok) (auto simp: compared_short)

theorem linsert_refines_witness:
  "\<exists>m'. linsert_scan sample_alloc sample_list [55] (ObjSds [120]) LIST_TAIL = Some (Some m', True) \<and>
    list_holds m' [[97], [98], [97], [55], [120], [97]]"
proof -
  have "list_fits (list_insert LIST_TAIL k [120] sample_strings)" if "k < length sample_strings" for k
  proof -
    have "\<forall>k \<in> set [0..<length sample_strings]. list_fits (list_insert LIST_TAIL k [120] sample_strings)" by code_simp
    then show ?thesis using that by simp
  qed
  moreover have "[55] \<in> set sample_strings" by code_simp
  moreover have "list_insert LIST_TAIL (length (takeWhile (\<lambda>z. z \<noteq> [55]) sample_strings)) [120] sample_strings =
    [[97], [98], [97], [55], [120], [97]]" by code_simp
  ultimately show ?thesis
    using linsert_refines [OF sample_list_holds, of LIST_TAIL "[120]" "[55]" sample_alloc] by simp
qed

text \<open>C28. The index of \<open>LSET\<close> is a \<open>long\<close> that \<open>listTypeReplaceAtIndex\<close> takes as an \<open>int\<close>: an index
  that differs by a multiple of \<open>2 ^ 32\<close> from one inside the list is not refused as out of range but
  replaces that other element.\<close>

theorem lset_index_truncated:
  assumes "list_holds m xs" and "\<And>k. k < length xs \<Longrightarrow> list_fits (xs[k := y])"
    and "i < length xs" and "i < 2 ^ 31"
  shows "\<exists>m'. listTypeReplaceAtIndex a m (int i + 2 ^ 32 * z) (ObjSds y) = Some (Some m', True) \<and>
    list_holds m' (xs[i := y])"
proof -
  have "i32 (int i + 2 ^ 32 * z) = int i"
    using assms(4) by (simp add: i32_def add.commute [of _ "2147483648"] add.assoc [symmetric])
  then show ?thesis
    using listTypeReplaceAtIndex_ok [OF assms(1), where y = y and k = "int i + 2 ^ 32 * z" and a = a] assms(2,3) by simp
qed

theorem lset_index_truncated_witness:
  "\<exists>m'. listTypeReplaceAtIndex sample_alloc sample_list 4294967297 (ObjSds [120]) = Some (Some m', True) \<and>
    list_holds m' [[97], [120], [97], [55], [97]]"
proof -
  have "list_fits (sample_strings[k := [120]])" if "k < length sample_strings" for k
  proof -
    have "\<forall>k \<in> set [0..<length sample_strings]. list_fits (sample_strings[k := [120]])" by code_simp
    then show ?thesis using that by simp
  qed
  moreover have "sample_strings[1 := [120]] = [[97], [120], [97], [55], [97]]" "1 < length sample_strings" by code_simp+
  ultimately show ?thesis
    using lset_index_truncated [OF sample_list_holds, of "[120]" 1 sample_alloc 1] by simp
qed

text \<open>The elements of a list are shorter than \<open>2 ^ 32\<close> bytes.\<close>

lemma list_holds_short:
  assumes "list_holds m xs" and "x \<in> set xs"
  shows "length x < 2 ^ 32"
proof -
  have ok: "lp_ok (lp_entry x)" using assms by (auto simp: list_holds_def lp_repr_def)
  show ?thesis
  proof (cases "lp_entry x")
    case (LpeStr s)
    then have "x = s" by (metis lp_str.simps(1) lp_str_entry)
    then show ?thesis using ok LpeStr by simp
  next
    case (LpeInt v)
    then have "x = sdec v" by (metis lp_str.simps(2) lp_str_entry)
    then show ?thesis using sdec_length [of v] ok LpeInt by simp
  qed
qed

text \<open>C40. \<open>listTypeEqual\<close> hands the length of an object, a \<open>size_t\<close>, to \<open>lpCompare\<close>, which takes a
  \<open>uint32_t\<close>: given an element with a non-empty tail whose length is a multiple of \<open>2 ^ 32\<close>, \<open>LREM\<close> removes the
  elements equal to what stands before that tail, although no element of the list equals the
  given one.\<close>

theorem lrem_element_truncated:
  assumes "list_holds m xs" and "length y < 2 ^ 32" and "length z mod 2 ^ 32 = 0" and "z \<noteq> []"
  shows "y @ z \<notin> set xs \<and> (\<exists>m'. lrem_scan a m (y @ z) 0 =
    Some (m', int (length xs - length (removeAll y xs))) \<and> list_holds m' (removeAll y xs))"
proof
  have "2 ^ 32 \<le> length z" using assms(3,4) by (intro dvd_imp_le mod_0_imp_dvd) simp_all
  then show "y @ z \<notin> set xs" using list_holds_short [OF assms(1), of "y @ z"] by auto
  show "\<exists>m'. lrem_scan a m (y @ z) 0 =
    Some (m', int (length xs - length (removeAll y xs))) \<and> list_holds m' (removeAll y xs)"
    using lrem_scan_ok [OF assms(1) compared_append [OF assms(2,3), symmetric], of a 0] by simp
qed

theorem lrem_element_truncated_witness:
  "\<exists>z m'. length z = 2 ^ 32 \<and> lrem_scan sample_alloc sample_list ([97] @ z) 0 = Some (m', 3) \<and>
    list_holds m' [[98], [55]]"
proof -
  obtain z :: "byte list" where z: "length z = 2 ^ 32" using Ex_list_of_length by blast
  then have "length z mod 2 ^ 32 = 0" "z \<noteq> []" by auto
  moreover have "removeAll [97] sample_strings = [[98], [55]]" "length sample_strings = 5" by code_simp+
  ultimately show ?thesis
    using lrem_element_truncated [OF sample_list_holds, of "[97]" z sample_alloc] z by auto
qed

end
