(* ===== verification/Lzf.thy ===== *)
theory Lzf
  imports Bits_Base
begin

text \<open>
  The LZF compressor that dump files and quicklist nodes use: \<open>lzf_compress\<close> (lzf_c.c) and
  \<open>lzf_decompress\<close> (lzf_d.c), in the configuration of lzfP.h (\<open>HLOG\<close> 16, \<open>VERY_FAST\<close>,
  \<open>INIT_HTAB\<close> 0, \<open>CHECK_INPUT\<close> 1, \<open>LZF_USE_OFFSETS\<close> 0). Input and output are two
  blocks of bytes; \<open>ip\<close>, \<open>op\<close> and \<open>ref\<close> are offsets into them. The hash table holds
  absolute addresses and is not initialised by the code, so its first contents are an argument
  of the model, and so is the address \<open>base\<close> of the input. The sixteen unrolled comparisons
  of the compressor and the fall-through switches of the decompressor are counted recursions.
\<close>

unbundle bit_operations_syntax

section \<open>Parameters of the format\<close>

abbreviation (input) "HSIZE \<equiv> (65536 :: int)"
abbreviation (input) "MAX_LIT \<equiv> (32 :: int)"
abbreviation (input) "MAX_OFF \<equiv> (8192 :: int)"
abbreviation (input) "MAX_REF \<equiv> (264 :: int)"

type_synonym LZF_STATE = "32 word \<Rightarrow> 64 word"

section \<open>Compression\<close>

definition FRST :: "mem \<Rightarrow> int \<Rightarrow> 32 word option" where
  "FRST inp p = do {
     a \<leftarrow> rd inp p;
     b \<leftarrow> rd inp (p + 1);
     Some (push_bit 8 (ucast a) OR ucast b) }"

definition NEXT :: "32 word \<Rightarrow> mem \<Rightarrow> int \<Rightarrow> 32 word option" where
  "NEXT v inp p = do {
     c \<leftarrow> rd inp (p + 2);
     Some (push_bit 8 v OR ucast c) }"

definition IDX :: "32 word \<Rightarrow> 32 word" where
  "IDX h = (drop_bit 8 h - h * 5) AND word_of_int (HSIZE - 1)"

text \<open>The local variables of \<open>lzf_compress\<close>, and the block behind \<open>out_data\<close>.\<close>

record lzf_vars =
  v_htab :: LZF_STATE
  v_hval :: "32 word"
  v_ip :: int
  v_op :: int
  v_lit :: int
  v_out :: mem

datatype lzf_flow = Return0 mem | Break lzf_vars | Continue lzf_vars

text \<open>\<open>op [- lit - 1] = lit - 1\<close>\<close>

definition stop_run :: "mem \<Rightarrow> int \<Rightarrow> int \<Rightarrow> mem option" where
  "stop_run out op lit = store out (op - lit - 1) [word_of_int (lit - 1)]"

text \<open>The condition under which the slot points at an earlier copy of the next three bytes.\<close>

definition lzf_off :: "int \<Rightarrow> int \<Rightarrow> 64 word \<Rightarrow> int" where
  "lzf_off base ip ref = uint (word_of_int (base + ip) - ref - 1)"

definition lzf_hit :: "int \<Rightarrow> mem \<Rightarrow> int \<Rightarrow> 64 word \<Rightarrow> bool option" where
  "lzf_hit base inp ip ref =
     (if lzf_off base ip ref < MAX_OFF \<and> uint ref > base then do {
        r2 \<leftarrow> rd inp (uint ref - base + 2);
        i2 \<leftarrow> rd inp (ip + 2);
        if r2 = i2 then do {
          r \<leftarrow> load inp (uint ref - base) 2;
          i \<leftarrow> load inp ip 2;
          Some (r = i) }
        else Some False }
      else Some False)"

primrec lzf_unrolled :: "nat \<Rightarrow> mem \<Rightarrow> int \<Rightarrow> int \<Rightarrow> int \<Rightarrow> (int \<times> bool) option" where
  "lzf_unrolled 0 inp ref ip len = Some (len, False)"
| "lzf_unrolled (Suc n) inp ref ip len = do {
     r \<leftarrow> rd inp (ref + (len + 1));
     i \<leftarrow> rd inp (ip + (len + 1));
     if r \<noteq> i then Some (len + 1, True) else lzf_unrolled n inp ref ip (len + 1) }"

function lzf_match_tail :: "mem \<Rightarrow> int \<Rightarrow> int \<Rightarrow> int \<Rightarrow> int \<Rightarrow> int option" where
  "lzf_match_tail inp ref ip maxlen len =
     (if len + 1 < maxlen then do {
        r \<leftarrow> rd inp (ref + (len + 1));
        i \<leftarrow> rd inp (ip + (len + 1));
        if r = i then lzf_match_tail inp ref ip maxlen (len + 1) else Some (len + 1) }
      else Some (len + 1))"
  by pat_completeness auto
termination
  by (relation "measure (\<lambda>(inp, ref, ip, maxlen, len). nat (maxlen - len))") auto

declare lzf_match_tail.simps [simp del]

definition lzf_match :: "mem \<Rightarrow> int \<Rightarrow> int \<Rightarrow> int \<Rightarrow> int option" where
  "lzf_match inp ref ip maxlen =
     (if maxlen > 16 then do {
        (len, brk) \<leftarrow> lzf_unrolled 16 inp ref ip 2;
        if brk then Some len else lzf_match_tail inp ref ip maxlen len }
      else lzf_match_tail inp ref ip maxlen 2)"

text \<open>The bytes of a back reference; \<open>len\<close> is already the number of octets less two.\<close>

definition lzf_put_ref :: "mem \<Rightarrow> int \<Rightarrow> int \<Rightarrow> int \<Rightarrow> (mem \<times> int) option" where
  "lzf_put_ref out op off len = do {
     (out, op) \<leftarrow>
       (if len < 7 then do {
          out \<leftarrow> store out op [word_of_int (off div 256 + len * 32)];
          Some (out, op + 1) }
        else do {
          out \<leftarrow> store out op [word_of_int (off div 256 + 7 * 32)];
          out \<leftarrow> store out (op + 1) [word_of_int (len - 7)];
          Some (out, op + 2) });
     out \<leftarrow> store out op [word_of_int off];
     Some (out, op + 1) }"

text \<open>After a match the last two of its positions are entered into the table.\<close>

definition lzf_rehash :: "int \<Rightarrow> mem \<Rightarrow> lzf_vars \<Rightarrow> lzf_vars option" where
  "lzf_rehash base inp v = do {
     let ip = v_ip v - 2;
     hval \<leftarrow> FRST inp ip;
     hval \<leftarrow> NEXT hval inp ip;
     let htab = (v_htab v)(IDX hval := word_of_int (base + ip));
     let ip = ip + 1;
     hval \<leftarrow> NEXT hval inp ip;
     let htab = htab(IDX hval := word_of_int (base + ip));
     Some (v\<lparr>v_hval := hval, v_htab := htab, v_ip := ip + 1\<rparr>) }"

definition lzf_emit_match :: "int \<Rightarrow> mem \<Rightarrow> int \<Rightarrow> int \<Rightarrow> 64 word \<Rightarrow> lzf_vars \<Rightarrow> lzf_flow option" where
  "lzf_emit_match base inp in_len out_len ref v = (
     let maxlen = min (in_len - v_ip v - 2) MAX_REF;
         undo = (if v_lit v = 0 then 1 else 0) in
     if v_op v + 3 + 1 \<ge> out_len \<and> v_op v - undo + 3 + 1 \<ge> out_len then Some (Return0 (v_out v))
     else do {
       out \<leftarrow> stop_run (v_out v) (v_op v) (v_lit v);
       len \<leftarrow> lzf_match inp (uint ref - base) (v_ip v) maxlen;
       (out, op) \<leftarrow> lzf_put_ref out (v_op v - undo) (lzf_off base (v_ip v) ref) (len - 2);
       let ip = v_ip v + 1 + (len - 2 + 1);
       let v = v\<lparr>v_out := out, v_op := op + 1, v_lit := 0, v_ip := ip\<rparr>;
       if ip \<ge> in_len - 2 then Some (Break v)
       else do { v \<leftarrow> lzf_rehash base inp v; Some (Continue v) } })"

text \<open>One literal byte (the statement is shared by the main loop and the tail).\<close>

definition lzf_literal :: "mem \<Rightarrow> lzf_vars \<Rightarrow> lzf_vars option" where
  "lzf_literal inp v = do {
     b \<leftarrow> rd inp (v_ip v);
     out \<leftarrow> store (v_out v) (v_op v) [b];
     let v = v\<lparr>v_lit := v_lit v + 1, v_out := out, v_op := v_op v + 1, v_ip := v_ip v + 1\<rparr>;
     if v_lit v = MAX_LIT then do {
       out \<leftarrow> stop_run (v_out v) (v_op v) (v_lit v);
       Some (v\<lparr>v_out := out, v_lit := 0, v_op := v_op v + 1\<rparr>) }
     else Some v }"

definition lzf_body :: "int \<Rightarrow> mem \<Rightarrow> int \<Rightarrow> int \<Rightarrow> lzf_vars \<Rightarrow> lzf_flow option" where
  "lzf_body base inp in_len out_len v = do {
     hval \<leftarrow> NEXT (v_hval v) inp (v_ip v);
     let ref = v_htab v (IDX hval);
     let v = v\<lparr>v_hval := hval, v_htab := (v_htab v)(IDX hval := word_of_int (base + v_ip v))\<rparr>;
     hit \<leftarrow> lzf_hit base inp (v_ip v) ref;
     if hit then lzf_emit_match base inp in_len out_len ref v
     else if v_op v \<ge> out_len then Some (Return0 (v_out v))
     else do { v \<leftarrow> lzf_literal inp v; Some (Continue v) } }"

text \<open>\<open>Inl\<close> is the early \<open>return 0\<close> out of the loop.\<close>

partial_function (option) lzf_loop ::
  "int \<Rightarrow> mem \<Rightarrow> int \<Rightarrow> int \<Rightarrow> lzf_vars \<Rightarrow> (mem + lzf_vars) option" where
  "lzf_loop base inp in_len out_len v =
     (if v_ip v < in_len - 2 then do {
        flow \<leftarrow> lzf_body base inp in_len out_len v;
        case flow of
          Return0 out \<Rightarrow> Some (Inl out)
        | Break v \<Rightarrow> Some (Inr v)
        | Continue v \<Rightarrow> lzf_loop base inp in_len out_len v }
      else Some (Inr v))"

declare lzf_loop.simps [code]

partial_function (option) lzf_tail :: "mem \<Rightarrow> int \<Rightarrow> lzf_vars \<Rightarrow> lzf_vars option" where
  "lzf_tail inp in_len v =
     (if v_ip v < in_len then do { v \<leftarrow> lzf_literal inp v; lzf_tail inp in_len v }
      else Some v)"

declare lzf_tail.simps [code]

definition lzf_compress ::
  "int \<Rightarrow> LZF_STATE \<Rightarrow> mem \<Rightarrow> int \<Rightarrow> mem \<Rightarrow> int \<Rightarrow> (mem \<times> int) option" where
  "lzf_compress base htab inp in_len out out_len =
     (if in_len = 0 \<or> out_len = 0 then Some (out, 0)
      else do {
        hval \<leftarrow> FRST inp 0;
        r \<leftarrow> lzf_loop base inp in_len out_len
          \<lparr>v_htab = htab, v_hval = hval, v_ip = 0, v_op = 1, v_lit = 0, v_out = out\<rparr>;
        case r of
          Inl out \<Rightarrow> Some (out, 0)
        | Inr v \<Rightarrow>
            if v_op v + 3 > out_len then Some (v_out v, 0)
            else do {
              v \<leftarrow> lzf_tail inp in_len v;
              out \<leftarrow> stop_run (v_out v) (v_op v) (v_lit v);
              Some (out, v_op v - (if v_lit v = 0 then 1 else 0)) } })"

section \<open>Decompression\<close>

datatype lzf_errno = E2BIG | EINVAL

primrec lzf_copy_lit :: "nat \<Rightarrow> mem \<Rightarrow> int \<Rightarrow> mem \<Rightarrow> int \<Rightarrow> mem option" where
  "lzf_copy_lit 0 inp ip out op = Some out"
| "lzf_copy_lit (Suc n) inp ip out op = do {
     b \<leftarrow> rd inp ip;
     out \<leftarrow> store out op [b];
     lzf_copy_lit n inp (ip + 1) out (op + 1) }"

primrec lzf_copy_ref :: "nat \<Rightarrow> mem \<Rightarrow> int \<Rightarrow> int \<Rightarrow> mem option" where
  "lzf_copy_ref 0 out ref op = Some out"
| "lzf_copy_ref (Suc n) out ref op = do {
     b \<leftarrow> rd out ref;
     out \<leftarrow> store out op [b];
     lzf_copy_ref n out (ref + 1) (op + 1) }"

definition lzf_backref :: "mem \<Rightarrow> int \<Rightarrow> int \<Rightarrow> int \<Rightarrow> mem option" where
  "lzf_backref out ref op len =
     (if len \<le> 9 then lzf_copy_ref (nat (len + 2)) out ref op
      else if op \<ge> ref + (len + 2) then memmove out op ref (nat (len + 2))
      else lzf_copy_ref (nat (len + 2)) out ref op)"

text \<open>
  The length of a back reference: the three high bits, or seven and the next byte;
  \<open>Some None\<close> is the \<open>EINVAL\<close> exit.
\<close>

definition lzf_ref_len :: "mem \<Rightarrow> int \<Rightarrow> int \<Rightarrow> int \<Rightarrow> (int \<times> int) option option" where
  "lzf_ref_len inp in_len ip len =
     (if ip \<ge> in_len then Some None
      else if len = 7 then do {
        b \<leftarrow> rd inp ip;
        if ip + 1 \<ge> in_len then Some None else Some (Some (7 + uint b, ip + 1)) }
      else Some (Some (len, ip)))"

datatype lzf_dflow = Fail lzf_errno mem | Next mem int int

definition lzf_dec_body :: "mem \<Rightarrow> int \<Rightarrow> int \<Rightarrow> mem \<Rightarrow> int \<Rightarrow> int \<Rightarrow> lzf_dflow option" where
  "lzf_dec_body inp in_len out_len out ip op = do {
     c \<leftarrow> rd inp ip;
     let ip = ip + 1;
     if uint c < 32 then
       let ctrl = uint c + 1 in
       if op + ctrl > out_len then Some (Fail E2BIG out)
       else if ip + ctrl > in_len then Some (Fail EINVAL out)
       else do {
         out \<leftarrow> lzf_copy_lit (nat ctrl) inp ip out op;
         Some (Next out (ip + ctrl) (op + ctrl)) }
     else do {
       r \<leftarrow> lzf_ref_len inp in_len ip (uint (drop_bit 5 c));
       case r of
         None \<Rightarrow> Some (Fail EINVAL out)
       | Some (len, ip) \<Rightarrow> do {
           b \<leftarrow> rd inp ip;
           let ref = op - uint (c AND 0x1f) * 256 - 1 - uint b;
           if op + len + 2 > out_len then Some (Fail E2BIG out)
           else if ref < 0 then Some (Fail EINVAL out)
           else do {
             out \<leftarrow> lzf_backref out ref op len;
             Some (Next out (ip + 1) (op + len + 2)) } } } }"

partial_function (option) lzf_dec_loop ::
  "mem \<Rightarrow> int \<Rightarrow> int \<Rightarrow> mem \<Rightarrow> int \<Rightarrow> int \<Rightarrow> (mem \<times> (lzf_errno + int)) option" where
  "lzf_dec_loop inp in_len out_len out ip op =
     (if ip < in_len then do {
        flow \<leftarrow> lzf_dec_body inp in_len out_len out ip op;
        case flow of
          Fail e out \<Rightarrow> Some (out, Inl e)
        | Next out ip op \<Rightarrow> lzf_dec_loop inp in_len out_len out ip op }
      else Some (out, Inr op))"

declare lzf_dec_loop.simps [code]

definition lzf_decompress :: "mem \<Rightarrow> int \<Rightarrow> mem \<Rightarrow> int \<Rightarrow> (mem \<times> (lzf_errno + int)) option" where
  "lzf_decompress inp in_len out out_len =
     lzf_dec_loop inp in_len out_len out 0 0"

end
