(* ===== verification/Lzf_Dec.thy ===== *)
theory Lzf_Dec
  imports Lzf
begin

text \<open>
  The LZF format as a list of tokens, and what \<open>lzf_decompress\<close> makes of it: it never touches
  memory outside the two blocks and always returns, on any input; on the bytes of a well-formed
  token list it writes the expansion of the tokens.
\<close>

section \<open>Tokens\<close>

datatype lzf_token = Lit "byte list" | Ref nat nat

definition byte_of :: "nat \<Rightarrow> byte" where
  "byte_of n = word_of_nat n"

lemma uint_byte_of: "n < 256 \<Longrightarrow> uint (byte_of n) = int n"
  using uint_word8 [of "int n"] by (simp add: byte_of_def)

lemma uint_byte_of_mod: "uint (byte_of n) = int (n mod 256)"
  using uint_word8_mod [of "int n"] by (simp add: byte_of_def of_nat_mod)

text \<open>\<open>Ref off n\<close> repeats \<open>n\<close> octets that start \<open>off + 1\<close> octets back.\<close>

fun token_bytes :: "lzf_token \<Rightarrow> byte list" where
  "token_bytes (Lit bs) = byte_of (length bs - 1) # bs"
| "token_bytes (Ref off n) =
     (if n - 2 < 7 then [byte_of (off div 256 + (n - 2) * 32)]
      else [byte_of (off div 256 + 7 * 32), byte_of (n - 2 - 7)]) @ [byte_of off]"

primrec ref_copy :: "nat \<Rightarrow> byte list \<Rightarrow> nat \<Rightarrow> byte list" where
  "ref_copy 0 acc off = acc"
| "ref_copy (Suc n) acc off = ref_copy n (acc @ [acc ! (length acc - off - 1)]) off"

fun expand :: "byte list \<Rightarrow> lzf_token \<Rightarrow> byte list" where
  "expand acc (Lit bs) = acc @ bs"
| "expand acc (Ref off n) = ref_copy n acc off"

fun token_ok :: "byte list \<Rightarrow> lzf_token \<Rightarrow> bool" where
  "token_ok acc (Lit bs) \<longleftrightarrow> 0 < length bs \<and> length bs \<le> 32"
| "token_ok acc (Ref off n) \<longleftrightarrow> off < 8192 \<and> off < length acc \<and> 3 \<le> n \<and> n \<le> 264"

fun tokens_ok :: "byte list \<Rightarrow> lzf_token list \<Rightarrow> bool" where
  "tokens_ok acc [] \<longleftrightarrow> True"
| "tokens_ok acc (t # ts) \<longleftrightarrow> token_ok acc t \<and> tokens_ok (expand acc t) ts"

abbreviation stream_bytes :: "lzf_token list \<Rightarrow> byte list" where
  "stream_bytes ts \<equiv> concat (map token_bytes ts)"

lemma tokens_ok_append [simp]:
  "tokens_ok acc (ts @ us) \<longleftrightarrow> tokens_ok acc ts \<and> tokens_ok (foldl expand acc ts) us"
  by (induction ts arbitrary: acc) auto

lemma length_ref_copy [simp]: "length (ref_copy n acc off) = length acc + n"
  by (induction n arbitrary: acc) auto

lemma ref_copy_disjoint:
  assumes "n \<le> off + 1" and "off < length acc"
  shows "ref_copy n acc off = acc @ take n (drop (length acc - off - 1) acc)"
  using assms
proof (induction n arbitrary: acc off)
  case (Suc n)
  show ?case
  proof (cases n)
    case 0
    with Suc.prems show ?thesis by (simp add: take_Suc hd_drop_conv_nth)
  next
    case n: (Suc k)
    let ?b = "acc ! (length acc - off - 1)"
    have "ref_copy (Suc n) acc off = ref_copy n (acc @ [?b]) off" by simp
    also have "\<dots> = (acc @ [?b]) @ take n (drop (length (acc @ [?b]) - off - 1) (acc @ [?b]))"
      using Suc.prems by (intro Suc.IH) auto
    also have "drop (length (acc @ [?b]) - off - 1) (acc @ [?b])
        = drop (Suc (length acc - off - 1)) acc @ [?b]"
      using Suc.prems n by (simp add: Suc_diff_Suc)
    also have "take n (drop (Suc (length acc - off - 1)) acc @ [?b])
        = take n (drop (Suc (length acc - off - 1)) acc)"
      using Suc.prems by simp
    also have "(acc @ [?b]) @ take n (drop (Suc (length acc - off - 1)) acc)
        = acc @ take (Suc n) (drop (length acc - off - 1) acc)"
      using Suc.prems Cons_nth_drop_Suc [of "length acc - off - 1" acc, symmetric] by simp
    finally show ?thesis .
  qed
qed simp

section \<open>Copying\<close>

lemma store_append:
  "rest \<noteq> [] \<Longrightarrow> store (acc @ rest) (int (length acc)) [b] = Some ((acc @ [b]) @ tl rest)"
  by (cases rest) (auto simp: store_def)

lemma lzf_copy_ref_ok:
  assumes "off < length acc" and "n \<le> length rest"
  shows "lzf_copy_ref n (acc @ rest) (int (length acc) - int off - 1) (int (length acc))
    = Some (ref_copy n acc off @ drop n rest)"
  using assms
proof (induction n arbitrary: acc rest)
  case (Suc n)
  have r: "rd (acc @ rest) (int (length acc) - int off - 1) = Some (acc ! (length acc - off - 1))"
    using Suc.prems by (auto simp: rd_def nth_append nat_diff_distrib nat_less_iff)
  define b where "b = acc ! (length acc - off - 1)"
  have ih: "lzf_copy_ref n ((acc @ [b]) @ tl rest) (int (length (acc @ [b])) - int off - 1)
      (int (length (acc @ [b]))) = Some (ref_copy n (acc @ [b]) off @ drop n (tl rest))"
    using Suc.prems by (intro Suc.IH) auto
  have "rest \<noteq> []" using Suc.prems by auto
  then show ?case
    using ih b_def r by (simp add: store_append drop_Suc diff_diff_eq add.commute)
qed simp

lemma lzf_copy_lit_ok:
  assumes "n \<le> length rest" and "k + n \<le> length inp"
  shows "lzf_copy_lit n inp (int k) (acc @ rest) (int (length acc))
    = Some (acc @ take n (drop k inp) @ drop n rest)"
  using assms
proof (induction n arbitrary: acc rest k)
  case (Suc n)
  have ih: "lzf_copy_lit n inp (int (k + 1)) ((acc @ [inp ! k]) @ tl rest)
      (int (length (acc @ [inp ! k])))
    = Some ((acc @ [inp ! k]) @ take n (drop (k + 1) inp) @ drop n (tl rest))"
    using Suc.prems by (intro Suc.IH) auto
  have "rest \<noteq> []" and "k < length inp" using Suc.prems by auto
  then show ?case
    using ih Cons_nth_drop_Suc [of k inp, symmetric]
    by (simp add: rd_nat store_append drop_Suc add.commute)
qed simp

lemma lzf_backref_ok:
  assumes "off < length acc" and "n + 2 \<le> length rest"
  shows "lzf_backref (acc @ rest) (int (length acc) - int off - 1) (int (length acc)) (int n)
    = Some (ref_copy (n + 2) acc off @ drop (n + 2) rest)"
proof (cases "n + 2 \<le> off + 1 \<and> 9 < n")
  case True
  have r: "int (length acc) - int off - 1 = int (length acc - off - 1)"
    using assms by simp
  have m: "memmove (acc @ rest) (int (length acc)) (int (length acc - off - 1)) (n + 2)
      = Some (acc @ take (n + 2) (drop (length acc - off - 1) acc) @ drop (n + 2) rest)"
    using assms True by (subst memmove_nat) auto
  have "\<not> int n \<le> 9" and "int (length acc - off - 1) + (int n + 2) \<le> int (length acc)"
    and "nat (int n + 2) = n + 2"
    using True assms by auto
  then show ?thesis
    using True assms unfolding r lzf_backref_def by (simp only: if_True if_False m ref_copy_disjoint) simp
next
  case False
  then show ?thesis
    using lzf_copy_ref_ok [OF assms] by (auto simp: lzf_backref_def nat_add_distrib)
qed

section \<open>One control byte\<close>

lemma ctrl_fields:
  fixes c :: byte
  shows "uint (drop_bit 5 c) = uint c div 32" and "uint (c AND 0x1f) = uint c mod 32"
proof -
  show "uint (drop_bit 5 c) = uint c div 32"
    by (simp add: drop_bit_eq_div uint_div_distrib)
  have "uint (c AND 0x1f) = uint c AND mask 5"
    by (simp add: uint_and mask_eq_exp_minus_1)
  then show "uint (c AND 0x1f) = uint c mod 32"
    by (simp flip: take_bit_eq_mask add: take_bit_eq_mod)
qed

lemma lzf_dec_lit:
  assumes "k < length inp" and "uint (inp ! k) = int n" and "n < 32"
    and "length acc + (n + 1) \<le> out_len" and "out_len \<le> length acc + length rest"
    and "k + 1 + (n + 1) \<le> in_len" and "in_len \<le> length inp"
  shows "lzf_dec_body inp (int in_len) (int out_len) (acc @ rest) (int k) (int (length acc))
    = Some (Next (acc @ take (n + 1) (drop (k + 1) inp) @ drop (n + 1) rest)
        (int (k + 1 + (n + 1))) (int (length acc + (n + 1))))"
proof -
  have "lzf_copy_lit (n + 1) inp (int (k + 1)) (acc @ rest) (int (length acc))
      = Some (acc @ take (n + 1) (drop (k + 1) inp) @ drop (n + 1) rest)"
    using assms by (intro lzf_copy_lit_ok) auto
  moreover have "nat (int n + 1) = n + 1" by simp
  ultimately show ?thesis
    using assms unfolding lzf_dec_body_def
    by (simp add: rd_nat Let_def add.commute add.left_commute del: lzf_copy_lit.simps)
qed

lemma lzf_dec_ref:
  assumes "k < length inp" and "32 \<le> uint (inp ! k)"
    and "lzf_ref_len inp (int in_len) (int k + 1) (uint (inp ! k) div 32) = Some (Some (int n, int j))"
    and "j < length inp" and "out_len \<le> length acc + length rest"
    and off: "int off = uint (inp ! k) mod 32 * 256 + uint (inp ! j)"
  shows "lzf_dec_body inp (int in_len) (int out_len) (acc @ rest) (int k) (int (length acc))
    = Some (if length acc + n + 2 > out_len then Fail E2BIG (acc @ rest)
        else if length acc \<le> off then Fail EINVAL (acc @ rest)
        else Next (ref_copy (n + 2) acc off @ drop (n + 2) rest)
          (int (j + 1)) (int (length acc + n + 2)))"
proof -
  have ref: "int (length acc) - uint (inp ! k) mod 32 * 256 - 1 - uint (inp ! j)
      = int (length acc) - int off - 1"
    using off by simp
  show ?thesis
  proof (cases "length acc + n + 2 > out_len \<or> length acc \<le> off")
    case True
    then show ?thesis
      using assms(1-5) by (auto simp: lzf_dec_body_def rd_nat Let_def ctrl_fields ref)
  next
    case False
    then have "lzf_backref (acc @ rest) (int (length acc) - int off - 1) (int (length acc)) (int n)
        = Some (ref_copy (n + 2) acc off @ drop (n + 2) rest)"
      using assms(5) by (intro lzf_backref_ok) auto
    then show ?thesis
      using False assms(1-5)
      using off by (simp add: lzf_dec_body_def rd_nat Let_def ctrl_fields ref del: ref_copy.simps)
  qed
qed

section \<open>Any input\<close>

definition dec_progress :: "nat \<Rightarrow> int \<Rightarrow> int \<Rightarrow> int \<Rightarrow> int \<Rightarrow> lzf_dflow \<Rightarrow> bool" where
  "dec_progress n in_len out_len ip op flow \<longleftrightarrow>
     (case flow of
        Fail e out \<Rightarrow> length out = n
      | Next out ip' op' \<Rightarrow>
          length out = n \<and> ip < ip' \<and> ip' \<le> in_len \<and> op \<le> op' \<and> op' \<le> out_len)"

lemma lzf_ref_len_total:
  assumes "0 \<le> ip" and "in_len \<le> int (length inp)" and "0 \<le> len"
  shows "lzf_ref_len inp in_len ip len = Some None \<or>
    (\<exists>n j. lzf_ref_len inp in_len ip len = Some (Some (int n, int j)) \<and> ip \<le> int j \<and> int j < in_len)"
proof -
  consider "in_len \<le> ip" | "ip < in_len" "len = 7" "in_len \<le> ip + 1"
    | "ip < in_len" "len = 7" "ip + 1 < in_len" | "ip < in_len" "len \<noteq> 7" by linarith
  then show ?thesis
  proof cases
    case 3
    then have "lzf_ref_len inp in_len ip len
        = Some (Some (int (nat (7 + uint (inp ! nat ip))), int (nat (ip + 1))))"
      using assms by (simp add: lzf_ref_len_def rd_def nat_less_iff)
    with 3 assms show ?thesis
      by (intro disjI2 exI [of _ "nat (7 + uint (inp ! nat ip))"] exI [of _ "nat (ip + 1)"]) simp
  next
    case 4
    then have "lzf_ref_len inp in_len ip len = Some (Some (int (nat len), int (nat ip)))"
      using assms by (simp add: lzf_ref_len_def)
    with 4 assms show ?thesis
      by (intro disjI2 exI [of _ "nat len"] exI [of _ "nat ip"]) simp
  qed (use assms in \<open>auto simp: lzf_ref_len_def rd_def nat_less_iff\<close>)
qed

lemma lzf_dec_body_total:
  assumes "k < in_len" and "in_len \<le> length inp"
    and "length acc \<le> out_len" and "out_len \<le> length (acc @ rest)"
  shows "\<exists>flow. lzf_dec_body inp (int in_len) (int out_len) (acc @ rest) (int k) (int (length acc))
      = Some flow
    \<and> dec_progress (length (acc @ rest)) (int in_len) (int out_len) (int k) (int (length acc)) flow"
proof (cases "uint (inp ! k) < 32")
  case True
  define n where "n = nat (uint (inp ! k))"
  have n: "uint (inp ! k) = int n" by (simp add: n_def)
  then have n: "uint (inp ! k) = int n" "n < 32" using True by simp_all
  show ?thesis
  proof (cases "length acc + (n + 1) > out_len \<or> k + 1 + (n + 1) > in_len")
    case True
    then show ?thesis
      using assms n by (auto simp: lzf_dec_body_def rd_nat Let_def dec_progress_def)
  next
    case False
    then have "length (take (n + 1) (drop (k + 1) inp)) = n + 1" "n + 1 \<le> length rest" using assms by auto
    then show ?thesis
      using False assms n lzf_dec_lit [of k inp n acc out_len rest in_len]
      by (auto simp: dec_progress_def simp del: length_take)
  qed
next
  case False
  let ?r = "lzf_ref_len inp (int in_len) (int k + 1) (uint (inp ! k) div 32)"
  have "0 \<le> uint (inp ! k) div 32" by (simp add: pos_imp_zdiv_nonneg_iff)
  then consider "?r = Some None"
    | n j where "?r = Some (Some (int n, int j))" "int k + 1 \<le> int j" "int j < int in_len"
    using lzf_ref_len_total [of "int k + 1" "int in_len" inp "uint (inp ! k) div 32"] assms by auto
  then show ?thesis
  proof cases
    case 1
    then show ?thesis
      using assms False by (simp add: lzf_dec_body_def rd_nat Let_def dec_progress_def ctrl_fields)
  next
    case 2
    define off where "off = nat (uint (inp ! k) mod 32 * 256 + uint (inp ! j))"
    have "int off = uint (inp ! k) mod 32 * 256 + uint (inp ! j)" by (simp add: off_def)
    from lzf_dec_ref [OF _ _ 2(1) _ _ this, of out_len acc rest] 2 False assms show ?thesis
      by (auto simp: dec_progress_def)
  qed
qed

lemma lzf_dec_loop_total:
  assumes "in_len \<le> length inp" and "length acc \<le> out_len" and "out_len \<le> length (acc @ rest)"
    and "k \<le> in_len"
  shows "\<exists>out r. lzf_dec_loop inp (int in_len) (int out_len) (acc @ rest) (int k) (int (length acc))
      = Some (out, r)
    \<and> length out = length (acc @ rest) \<and> (\<forall>n. r = Inr n \<longrightarrow> 0 \<le> n \<and> n \<le> int out_len)"
  using assms
proof (induction "in_len - k" arbitrary: k acc rest rule: less_induct)
  case less
  show ?case
  proof (cases "k < in_len")
    case False
    then show ?thesis using less.prems by (subst lzf_dec_loop.simps) auto
  next
    case True
    from lzf_dec_body_total [OF True less.prems(1-3)] obtain flow where flow:
      "lzf_dec_body inp (int in_len) (int out_len) (acc @ rest) (int k) (int (length acc)) = Some flow"
      "dec_progress (length (acc @ rest)) (int in_len) (int out_len) (int k) (int (length acc)) flow"
      by blast
    show ?thesis
    proof (cases flow)
      case (Fail e out)
      then show ?thesis
        using flow True by (subst lzf_dec_loop.simps) (simp add: dec_progress_def)
    next
      case (Next out ip op)
      with flow(2) have p: "length out = length (acc @ rest)" "int k < ip" "ip \<le> int in_len"
        "int (length acc) \<le> op" "op \<le> int out_len"
        by (simp_all add: dec_progress_def)
      define acc' where "acc' = take (nat op) out"
      define rest' where "rest' = drop (nat op) out"
      have *: "out = acc' @ rest'" "int (length acc') = op" "int (nat ip) = ip"
        using p less.prems by (auto simp: acc'_def rest'_def)
      have "\<exists>out2 r. lzf_dec_loop inp (int in_len) (int out_len) (acc' @ rest') (int (nat ip))
          (int (length acc')) = Some (out2, r)
        \<and> length out2 = length (acc' @ rest') \<and> (\<forall>n. r = Inr n \<longrightarrow> 0 \<le> n \<and> n \<le> int out_len)"
        using p less.prems * True by (intro less.hyps) auto
      then show ?thesis
        using flow(1) Next True p unfolding * (2,3) by (subst lzf_dec_loop.simps) (simp flip: *(1))
    qed
  qed
qed

section \<open>Well-formed streams\<close>

lemma token_ctrl:
  assumes "off < 8192" and "l \<le> 7"
  defines "c \<equiv> byte_of (off div 256 + l * 32)"
  shows "uint c div 32 = int l" and "uint c mod 32 = int (off div 256)"
proof -
  have "off div 256 < 32" using assms by simp
  then have "uint c = int (off div 256) + int l * 32" and "int (off div 256) < 32"
    using assms unfolding c_def by (simp_all add: uint_byte_of)
  then show "uint c div 32 = int l" and "uint c mod 32 = int (off div 256)"
    by simp_all
qed

lemma lzf_ref_len_token:
  assumes "token_ok acc (Ref off n)" and inp: "inp = pre @ token_bytes (Ref off n) @ post"
  shows "lzf_ref_len inp (int (length inp)) (int (length pre) + 1) (uint (inp ! length pre) div 32)
      = Some (Some (int (n - 2), int (length pre + length (token_bytes (Ref off n)) - 1)))"
    and "1 \<le> uint (inp ! length pre) div 32"
    and "uint (inp ! length pre) mod 32 = int (off div 256)"
    and "inp ! (length pre + length (token_bytes (Ref off n)) - 1) = byte_of off"
proof -
  have len: "n - 2 - 7 < 256" "1 \<le> n - 2" using assms(1) by auto
  note c = token_ctrl [of off "min 7 (n - 2)"]
  have h: "inp ! length pre = byte_of (off div 256 + min 7 (n - 2) * 32)"
    using inp by (simp add: nth_append min_def)
  show "1 \<le> uint (inp ! length pre) div 32" "uint (inp ! length pre) mod 32 = int (off div 256)"
    using c assms(1) len unfolding h by simp_all
  show "inp ! (length pre + length (token_bytes (Ref off n)) - 1) = byte_of off"
    using inp by (simp add: nth_append)
  have "rd inp (int (length pre) + 1) = Some (byte_of (n - 2 - 7))" if "7 \<le> n - 2"
    using that inp rd_nat [of "length pre + 1" inp] by (simp add: nth_append add.commute)
  then show "lzf_ref_len inp (int (length inp)) (int (length pre) + 1) (uint (inp ! length pre) div 32)
      = Some (Some (int (n - 2), int (length pre + length (token_bytes (Ref off n)) - 1)))"
    using c assms len unfolding h lzf_ref_len_def
    by (cases "n - 2 < 7") (auto simp: uint_byte_of of_nat_diff)
qed

lemma lzf_dec_token:
  assumes t: "token_ok acc t" and inp: "inp = pre @ token_bytes t @ post"
    and room: "length (expand acc t) \<le> out_len" "out_len \<le> length (acc @ rest)"
  shows "lzf_dec_body inp (int (length inp)) (int out_len) (acc @ rest) (int (length pre))
      (int (length acc))
    = Some (Next (expand acc t @ drop (length (expand acc t) - length acc) rest)
        (int (length (pre @ token_bytes t))) (int (length (expand acc t))))"
proof (cases t)
  case (Lit bs)
  then obtain m where m: "length bs = Suc m" using t by (cases bs) auto
  then have "uint (inp ! length pre) = int m"
    using t Lit inp uint_byte_of [of m] by auto
  then show ?thesis
    using lzf_dec_lit [of "length pre" inp m acc out_len rest "length inp"] t Lit inp room m
    by (simp add: add.commute add.left_commute)
next
  case (Ref off n)
  let ?j = "length pre + length (token_bytes t) - 1"
  note r = lzf_ref_len_token [OF t [unfolded Ref] inp [unfolded Ref], folded Ref]
  have off: "int off = uint (inp ! length pre) mod 32 * 256 + uint (inp ! ?j)"
    unfolding r(3,4) uint_byte_of_mod
    by (metis div_mult_mod_eq of_nat_add of_nat_mult of_nat_numeral)
  have j: "?j < length inp" "length pre < length inp" "?j + 1 = length (pre @ token_bytes t)"
    using inp Ref by auto
  have n: "n - 2 + 2 = n" "length acc + (n - 2) + 2 = length acc + n" "off < length acc"
    using t Ref by auto
  have c: "32 \<le> uint (inp ! length pre)" using r(2) by linarith
  note lzf_dec_ref [OF j(2) c r(1) j(1) room(2)[unfolded length_append] off, unfolded n j(3)]
  then show ?thesis using n(3) room by (simp add: Ref)
qed

lemma length_expand: "length acc \<le> length (expand acc t)"
  by (cases t) auto

lemma length_foldl_expand: "length acc \<le> length (foldl expand acc ts)"
  by (induction ts arbitrary: acc) (auto intro: order_trans [OF length_expand])

lemma lzf_dec_stream:
  assumes "tokens_ok acc ts" and "inp = pre @ stream_bytes ts"
    and "length (foldl expand acc ts) \<le> out_len" and "out_len \<le> length (acc @ rest)"
  shows "lzf_dec_loop inp (int (length inp)) (int out_len) (acc @ rest) (int (length pre))
      (int (length acc))
    = Some (foldl expand acc ts @ drop (length (foldl expand acc ts) - length acc) rest,
        Inr (int (length (foldl expand acc ts))))"
  using assms
proof (induction ts arbitrary: acc pre rest)
  case Nil
  then show ?case by (subst lzf_dec_loop.simps) simp
next
  case (Cons t ts)
  let ?acc = "expand acc t" and ?rest = "drop (length (expand acc t) - length acc) rest"
  have len: "length ?acc \<le> length (foldl expand ?acc ts)" "length acc \<le> length ?acc"
    by (rule length_foldl_expand, rule length_expand)
  have inp: "inp = pre @ token_bytes t @ stream_bytes ts" using Cons.prems by simp
  have b: "lzf_dec_body inp (int (length inp)) (int out_len) (acc @ rest) (int (length pre))
        (int (length acc))
      = Some (Next (?acc @ ?rest) (int (length (pre @ token_bytes t))) (int (length ?acc)))"
    using Cons.prems len by (intro lzf_dec_token [OF _ inp]) auto
  have ih: "lzf_dec_loop inp (int (length inp)) (int out_len) (?acc @ ?rest)
        (int (length (pre @ token_bytes t))) (int (length ?acc))
      = Some (foldl expand ?acc ts @ drop (length (foldl expand ?acc ts) - length ?acc) ?rest,
          Inr (int (length (foldl expand ?acc ts))))"
    using Cons.prems len by (intro Cons.IH) auto
  have "length pre < length inp" using inp by (cases t) auto
  then show ?case
    using len by (subst lzf_dec_loop.simps) (simp add: b ih del: length_append)
qed

end
