(* ===== verification/Lzf_Comp.thy ===== *)
theory Lzf_Comp
  imports Lzf_Dec
begin

text \<open>
  The compressor: at every point of its loop the output holds the bytes of well-formed tokens
  whose expansion is the input read so far, less the literals of the open run. The hash table is
  arbitrary at the start; a slot counts only if it points into the input, before the current
  position, at three equal bytes.
\<close>

section \<open>Matches\<close>

definition agree :: "mem \<Rightarrow> nat \<Rightarrow> nat \<Rightarrow> nat \<Rightarrow> bool" where
  "agree inp r i n \<longleftrightarrow> (\<forall>j < n. inp ! (r + j) = inp ! (i + j))"

lemma agree_Suc: "agree inp r i (Suc n) \<longleftrightarrow> agree inp r i n \<and> inp ! (r + n) = inp ! (i + n)"
  by (auto simp: agree_def less_Suc_eq)

lemma agree_ref_copy:
  assumes "agree inp r i n" and "r < i" and "i + n \<le> length inp"
  shows "ref_copy n (take i inp) (i - r - 1) = take (i + n) inp"
  using assms
proof (induction n arbitrary: r i)
  case (Suc n)
  have "inp ! r = inp ! i" using Suc.prems(1) by (force simp: agree_def)
  then have step: "take i inp @ [take i inp ! (length (take i inp) - (i - r - 1) - 1)] = take (Suc i) inp"
    using Suc.prems by (simp add: take_Suc_conv_app_nth)
  have "agree inp (Suc r) (Suc i) n" using Suc.prems(1) by (auto simp: agree_def)
  then have "ref_copy n (take (Suc i) inp) (Suc i - Suc r - 1) = take (Suc i + n) inp"
    using Suc.prems by (intro Suc.IH) auto
  then show ?case unfolding ref_copy.simps step by simp
qed simp

lemma lzf_unrolled_ok:
  assumes "agree inp r i (Suc len)" and "r < i" and "i + len + m < length inp"
  shows "\<exists>len' brk. lzf_unrolled m inp (int r) (int i) (int len) = Some (int len', brk)
    \<and> agree inp r i len' \<and> len \<le> len' \<and> len' \<le> len + m
    \<and> (if brk then len < len' else len' = len + m \<and> agree inp r i (Suc len'))"
  using assms
proof (induction m arbitrary: len)
  case 0
  then show ?case by (auto simp: agree_Suc)
next
  case (Suc m)
  have rd: "rd inp (int r + (int len + 1)) = Some (inp ! (r + Suc len))"
    "rd inp (int i + (int len + 1)) = Some (inp ! (i + Suc len))"
    using Suc.prems rd_nat [of "r + Suc len" inp] rd_nat [of "i + Suc len" inp]
    by (simp_all add: add.commute add.left_commute)
  show ?case
  proof (cases "inp ! (r + Suc len) = inp ! (i + Suc len)")
    case True
    then have "agree inp r i (Suc (Suc len))" using Suc.prems(1) agree_Suc by blast
    from Suc.IH [OF this] Suc.prems obtain len' brk where
      "lzf_unrolled m inp (int r) (int i) (int (Suc len)) = Some (int len', brk)"
      "agree inp r i len'" "Suc len \<le> len'" "len' \<le> Suc len + m"
      "if brk then Suc len < len' else len' = Suc len + m \<and> agree inp r i (Suc len')"
      by auto
    then show ?thesis
      using True rd by (intro exI [of _ len'] exI [of _ brk]) (auto simp: add.commute split: if_splits)
  next
    case False
    then show ?thesis
      using rd Suc.prems(1) by (intro exI [of _ "Suc len"] exI [of _ True]) (simp add: add.commute)
  qed
qed

lemma lzf_match_tail_ok:
  assumes "agree inp r i (Suc len)" and "r < i" and "i + max maxlen (Suc len) \<le> length inp"
  shows "\<exists>n. lzf_match_tail inp (int r) (int i) (int maxlen) (int len) = Some (int n)
    \<and> agree inp r i n \<and> len < n \<and> n \<le> max maxlen (Suc len)"
  using assms
proof (induction "maxlen - len" arbitrary: len)
  case 0
  then show ?case by (subst lzf_match_tail.simps) (auto intro!: exI [of _ "Suc len"])
next
  case (Suc k)
  show ?case
  proof (cases "Suc len < maxlen")
    case False
    then show ?thesis
      using Suc.prems by (subst lzf_match_tail.simps) (auto intro!: exI [of _ "Suc len"])
  next
    case True
    then have rd: "rd inp (int r + (int len + 1)) = Some (inp ! (r + Suc len))"
      "rd inp (int i + (int len + 1)) = Some (inp ! (i + Suc len))"
      using Suc.prems rd_nat [of "r + Suc len" inp] rd_nat [of "i + Suc len" inp]
      by (simp_all add: add.commute add.left_commute)
    show ?thesis
    proof (cases "inp ! (r + Suc len) = inp ! (i + Suc len)")
      case eq: True
      then have "agree inp r i (Suc (Suc len))" using Suc.prems(1) agree_Suc by blast
      moreover have "k = maxlen - Suc len" using Suc.hyps(2) by linarith
      ultimately obtain n where
        "lzf_match_tail inp (int r) (int i) (int maxlen) (int (Suc len)) = Some (int n)"
        "agree inp r i n" "Suc len < n" "n \<le> max maxlen (Suc (Suc len))"
        using Suc.hyps(1) [of "Suc len"] True Suc.prems by auto
      then show ?thesis
        using True eq rd
        by (subst lzf_match_tail.simps) (auto intro!: exI [of _ n] simp: add.commute)
    next
      case False
      then show ?thesis
        using True rd Suc.prems(1)
        by (subst lzf_match_tail.simps) (auto intro!: exI [of _ "Suc len"] simp: add.commute)
    qed
  qed
qed

lemma lzf_match_ok:
  assumes "agree inp r i 3" and "r < i" and "i + 3 \<le> length inp"
  shows "\<exists>n. lzf_match inp (int r) (int i) (min (int (length inp) - int i - 2) MAX_REF) = Some (int n)
    \<and> agree inp r i n \<and> 3 \<le> n \<and> n \<le> 264 \<and> i + n \<le> length inp"
proof -
  define maxlen where "maxlen = min (length inp - i - 2) 264"
  have m: "min (int (length inp) - int i - 2) MAX_REF = int maxlen" "maxlen \<le> 264"
    "i + maxlen + 2 \<le> length inp"
    using assms by (auto simp: maxlen_def)
  have a: "agree inp r i (Suc 2)" using assms(1) by (simp add: numeral_3_eq_3)
  show ?thesis
  proof (cases "16 < maxlen")
    case False
    have "i + max maxlen (Suc 2) \<le> length inp" using m assms by (simp add: max_def)
    from lzf_match_tail_ok [OF a assms(2) this] obtain n where
      "lzf_match_tail inp (int r) (int i) (int maxlen) 2 = Some (int n)"
      "agree inp r i n" "2 < n" "n \<le> max maxlen 3"
      using m assms by auto
    then show ?thesis using False m assms by (auto simp: lzf_match_def)
  next
    case True
    from lzf_unrolled_ok [OF a assms(2), of 16] obtain len brk where u:
      "lzf_unrolled 16 inp (int r) (int i) 2 = Some (int len, brk)"
      "agree inp r i len" "len \<le> 18"
      "if brk then 2 < len else len = 18 \<and> agree inp r i (Suc len)"
      using True m by (auto split: if_splits)
    show ?thesis
    proof (cases brk)
      case b: True
      then show ?thesis
        using True u m by (auto simp: lzf_match_def simp del: lzf_unrolled.simps)
    next
      case b: False
      with u(4) have "len = 18" and a: "agree inp r i (Suc len)" by auto
      have "i + max maxlen (Suc len) \<le> length inp"
        using True m \<open>len = 18\<close> by (simp add: max_def)
      from lzf_match_tail_ok [OF a assms(2) this] obtain n where
        "lzf_match_tail inp (int r) (int i) (int maxlen) (int len) = Some (int n)"
        "agree inp r i n" "len < n" "n \<le> max maxlen (Suc len)"
        by auto
      then show ?thesis
        using True b u m \<open>len = 18\<close> by (auto simp: lzf_match_def simp del: lzf_unrolled.simps)
    qed
  qed
qed

section \<open>Slots of the hash table\<close>

lemma lzf_off_eq:
  "lzf_off base ip ref = (base + ip - uint ref - 1) mod 2 ^ 64"
proof -
  have "word_of_int (base + ip) - ref - 1 = word_of_int (base + ip - uint ref - 1)" by simp
  then have "lzf_off base ip ref = uint (word_of_int (base + ip - uint ref - 1) :: 64 word)"
    unfolding lzf_off_def by (rule arg_cong)
  then show ?thesis by (simp only: uint_word_of_int) simp
qed

lemma lzf_off_small:
  assumes "MAX_OFF \<le> base" and "base + int i < 2 ^ 64"
    and "lzf_off base (int i) ref < MAX_OFF" and "base < uint ref"
  shows "\<exists>r. uint ref - base = int r \<and> r < i \<and> lzf_off base (int i) ref = int (i - r - 1)
    \<and> i - r - 1 < 8192"
proof -
  have u: "uint ref < 2 ^ 64" using uint_bounded [of ref] by simp
  have eq: "lzf_off base (int i) ref = (base + int i - uint ref - 1) mod 2 ^ 64"
    by (rule lzf_off_eq)
  have "uint ref < base + int i"
  proof (rule ccontr)
    assume "\<not> uint ref < base + int i"
    then have "(base + int i - uint ref - 1 + 2 ^ 64) mod 2 ^ 64 = base + int i - uint ref - 1 + 2 ^ 64"
      using u assms by (intro mod_pos_pos_trivial) auto
    then have "(base + int i - uint ref - 1) mod 2 ^ 64 = base + int i - uint ref - 1 + 2 ^ 64"
      by (simp only: mod_add_self2)
    with eq assms u show False by linarith
  qed
  moreover from this have "(base + int i - uint ref - 1) mod 2 ^ 64 = base + int i - uint ref - 1"
    using assms by (intro mod_pos_pos_trivial) auto
  ultimately show ?thesis
    using assms eq by (intro exI [of _ "nat (uint ref - base)"]) auto
qed

lemma lzf_hit_ok:
  assumes "MAX_OFF \<le> base" and "base + int (length inp) < 2 ^ 64" and "i + 3 \<le> length inp"
  shows "\<exists>b. lzf_hit base inp (int i) ref = Some b
    \<and> (b \<longrightarrow> (\<exists>r. uint ref - base = int r \<and> r < i
        \<and> lzf_off base (int i) ref = int (i - r - 1) \<and> i - r - 1 < 8192 \<and> agree inp r i 3))"
proof (cases "lzf_off base (int i) ref < MAX_OFF \<and> base < uint ref")
  case False
  then show ?thesis by (auto simp: lzf_hit_def)
next
  case True
  with assms obtain r where r: "uint ref - base = int r" "r < i"
    "lzf_off base (int i) ref = int (i - r - 1)" "i - r - 1 < 8192"
    using lzf_off_small [of base i ref] by auto
  have rd: "rd inp (int r + 2) = Some (inp ! (r + 2))" "rd inp (int i + 2) = Some (inp ! (i + 2))"
    using r assms rd_nat [of "r + 2" inp] rd_nat [of "i + 2" inp] by (simp_all add: add.commute)
  have ld: "load inp (int k) 2 = Some [inp ! k, inp ! Suc k]" if "k \<le> i" for k
  proof -
    have "drop k inp = inp ! k # inp ! Suc k # drop (Suc (Suc k)) inp"
      using that assms by (simp add: Cons_nth_drop_Suc)
    then show ?thesis using that assms by (simp add: load_nat numeral_2_eq_2)
  qed
  have "agree inp r i 3 \<longleftrightarrow> inp ! (r + 2) = inp ! (i + 2) \<and> inp ! r = inp ! i \<and> inp ! Suc r = inp ! Suc i"
    by (auto simp: agree_Suc numeral_3_eq_3 agree_def [of _ _ _ 0])
  then show ?thesis
    using True r rd ld [of i] ld [of r] by (auto simp: lzf_hit_def)
qed

section \<open>The open run\<close>

text \<open>
  The input is the expansion of the tokens written, then the literals of the open run, then what
  is still to be read. The run's length byte, at the end of the tokens, is not yet written.
\<close>

definition lzf_inv :: "mem \<Rightarrow> nat \<Rightarrow> lzf_token list \<Rightarrow> byte list \<Rightarrow> byte list \<Rightarrow> lzf_vars \<Rightarrow> bool" where
  "lzf_inv inp N ts lits todo v \<longleftrightarrow>
     tokens_ok [] ts \<and> inp = foldl expand [] ts @ lits @ todo \<and> length lits < 32
     \<and> length (v_out v) = N
     \<and> v_lit v = int (length lits) \<and> v_ip v = int (length inp) - int (length todo)
     \<and> v_op v = int (length (stream_bytes ts) + 1 + length lits)
     \<and> (\<exists>rest. v_out v = stream_bytes ts @ rest
          \<and> (lits \<noteq> [] \<longrightarrow> (\<exists>h rest'. rest = h # lits @ rest')))"

lemma lzf_inv_room:
  assumes "lzf_inv inp N ts lits todo v" and "v_op v \<le> int N"
  shows "\<exists>h rest. v_out v = stream_bytes ts @ h # lits @ rest \<and> v_op v = int N - int (length rest)"
proof -
  obtain rest where rest: "v_out v = stream_bytes ts @ rest"
    "lits \<noteq> [] \<longrightarrow> (\<exists>h rest'. rest = h # lits @ rest')"
    using assms(1) by (auto simp: lzf_inv_def)
  show ?thesis
  proof (cases "lits = []")
    case True
    with rest(1) assms have "rest \<noteq> []" by (auto simp: lzf_inv_def)
    then show ?thesis using rest assms True by (cases rest) (auto simp: lzf_inv_def)
  qed (use rest assms in \<open>auto simp: lzf_inv_def\<close>)
qed

lemma stop_run_ok:
  "stop_run (S @ h # lits @ rest) (int (length S + 1 + length lits)) (int (length lits))
    = Some (S @ word_of_int (int (length lits) - 1) # lits @ rest)"
  by (simp add: stop_run_def store_def)

lemma run_token: "lits \<noteq> [] \<Longrightarrow> word_of_int (int (length lits) - 1) # lits = token_bytes (Lit lits)"
  by (cases lits) (simp_all add: byte_of_def)

lemma lzf_literal_ok:
  assumes inv: "lzf_inv inp N ts lits (b # todo) v" and room: "v_op v < int N"
  shows "\<exists>v'. lzf_literal inp v = Some v' \<and>
    (if length lits = 31 then lzf_inv inp N (ts @ [Lit (lits @ [b])]) [] todo v' \<and> v_op v' = v_op v + 2
     else lzf_inv inp N ts (lits @ [b]) todo v' \<and> v_op v' = v_op v + 1)"
proof -
  from lzf_inv_room [OF inv] room obtain h rest where
    out: "v_out v = stream_bytes ts @ h # lits @ rest" and "v_op v = int N - int (length rest)"
    by auto
  with room obtain x rest' where rest: "rest = x # rest'" by (cases rest) auto
  have op: "v_op v = int (length (stream_bytes ts @ h # lits))"
    and ip: "v_ip v = int (length (foldl expand [] ts @ lits))"
    and lit: "v_lit v = int (length lits)" and inp: "inp = (foldl expand [] ts @ lits) @ b # todo"
    using inv by (auto simp: lzf_inv_def)
  have "rd inp (v_ip v) = Some b" unfolding ip by (subst rd_nat) (simp_all add: inp)
  moreover have "store (v_out v) (v_op v) [b] = Some (stream_bytes ts @ h # (lits @ [b]) @ rest')"
    using store_append [of rest "stream_bytes ts @ h # lits" b] by (simp add: out op rest)
  moreover have "stop_run (stream_bytes ts @ h # (lits @ [b]) @ rest')
      (v_op v + 1) (v_lit v + 1) = Some (stream_bytes ts @ token_bytes (Lit (lits @ [b])) @ rest')"
    using stop_run_ok [of "stream_bytes ts" h "lits @ [b]" rest'] run_token [of "lits @ [b]"]
    by (simp add: op lit add.commute add.left_commute)
  ultimately show ?thesis
    using inv out rest by (auto simp: lzf_literal_def lzf_inv_def Let_def)
qed

section \<open>Back references\<close>

lemma lzf_put_ref_ok:
  assumes "off < 8192" and "3 \<le> n" and "n \<le> 264" and "3 \<le> length rest"
  shows "lzf_put_ref (S @ rest) (int (length S)) (int off) (int n - 2)
    = Some (S @ token_bytes (Ref off n) @ drop (length (token_bytes (Ref off n))) rest,
        int (length (S @ token_bytes (Ref off n))))"
proof -
  obtain x y z rest' where rest: "rest = x # y # z # rest'"
    using assms(4) by (metis Suc_le_length_iff numeral_3_eq_3)
  have l: "int n - 2 = int (n - 2)" and d: "int off div 256 = int (off div 256)"
    using assms by (simp_all add: zdiv_int)
  show ?thesis
  proof (cases "n - 2 < 7")
    case True
    then have "store (S @ rest) (int (length S)) [word_of_int (int off div 256 + int (n - 2) * 32)]
        = Some (S @ byte_of (off div 256 + (n - 2) * 32) # y # z # rest')"
      unfolding d by (simp add: store_def rest byte_of_def)
    then show ?thesis
      unfolding l using True
      by (simp add: lzf_put_ref_def store_def rest nat_add_distrib) (simp add: byte_of_def)
  next
    case False
    then have "store (S @ rest) (int (length S)) [word_of_int (int off div 256 + 7 * 32)]
        = Some (S @ byte_of (off div 256 + 7 * 32) # y # z # rest')"
      unfolding d by (simp add: store_def rest byte_of_def)
    moreover have "int (n - 2) - 7 = int (n - 2 - 7)" using False by simp
    then have "word_of_int (int (n - 2) - 7) = byte_of (n - 2 - 7)"
      by (simp only: byte_of_def of_int_of_nat_eq)
    ultimately show ?thesis
      unfolding l using False
      by (simp add: lzf_put_ref_def store_def rest nat_add_distrib numeral_2_eq_2)
        (simp add: byte_of_def)
  qed
qed

definition lzf_flow_ok :: "mem \<Rightarrow> nat \<Rightarrow> nat \<Rightarrow> lzf_flow \<Rightarrow> bool" where
  "lzf_flow_ok inp N k flow \<longleftrightarrow>
     (case flow of
        Return0 out \<Rightarrow> length out = N
      | Break v \<Rightarrow> (\<exists>ts lits todo. lzf_inv inp N ts lits todo v \<and> length todo \<le> 2)
      | Continue v \<Rightarrow> (\<exists>ts lits todo. lzf_inv inp N ts lits todo v \<and> length todo < k))"

lemma hash_ok:
  "k + 2 \<le> length inp \<Longrightarrow> \<exists>h. FRST inp (int k) = Some h"
  "k + 3 \<le> length inp \<Longrightarrow> \<exists>h. NEXT v inp (int k) = Some h"
  using rd_nat [of "k + 1" inp] rd_nat [of "k + 2" inp]
  by (auto simp: FRST_def NEXT_def rd_nat add.commute)

lemma lzf_flow_okI:
  "lzf_inv inp N ts lits todo v \<Longrightarrow> length todo \<le> 2 \<Longrightarrow> lzf_flow_ok inp N k (Break v)"
  "lzf_inv inp N ts lits todo v \<Longrightarrow> length todo < k \<Longrightarrow> lzf_flow_ok inp N k (Continue v)"
  by (auto simp: lzf_flow_ok_def)

lemma lzf_inv_hash [simp]:
  "lzf_inv inp N ts lits todo (v\<lparr>v_hval := h, v_htab := t, v_ip := v_ip v\<rparr>)
    = lzf_inv inp N ts lits todo v"
  "lzf_inv inp N ts lits todo (v\<lparr>v_hval := h, v_htab := t\<rparr>) = lzf_inv inp N ts lits todo v"
  by (simp_all add: lzf_inv_def)

lemma lzf_rehash_ok:
  assumes "lzf_inv inp N ts lits todo v" and "2 < length todo" and "length todo + 2 \<le> length inp"
  shows "\<exists>v'. lzf_rehash base inp v = Some v' \<and> lzf_inv inp N ts lits todo v'"
proof -
  define k where "k = length inp - length todo - 2"
  have ip: "v_ip v = int k + 2" and k: "k + 5 \<le> length inp"
    using assms by (auto simp: lzf_inv_def k_def)
  obtain h where h: "FRST inp (int k) = Some h" using hash_ok(1) [of k inp] k by auto
  obtain h' where h': "NEXT h inp (int k) = Some h'" using hash_ok(2) [of k inp h] k by auto
  obtain h2 where "NEXT h' inp (int k + 1) = Some h2" using hash_ok(2) [of "Suc k" inp h'] k
    by (auto simp: add.commute)
  with h h' ip have "\<exists>t. lzf_rehash base inp v = Some (v\<lparr>v_hval := h2, v_htab := t, v_ip := v_ip v\<rparr>)"
    by (auto simp: lzf_rehash_def Let_def add.commute)
  then show ?thesis using assms(1) by auto
qed

lemma lzf_stop_undo:
  assumes inv: "lzf_inv inp N ts lits todo v"
    and room: "v_op v - (if v_lit v = 0 then 1 else 0) + 3 + 1 < int N"
  shows "\<exists>us rest. stop_run (v_out v) (v_op v) (v_lit v) = Some (stream_bytes us @ rest)
    \<and> v_op v - (if v_lit v = 0 then 1 else 0) = int (length (stream_bytes us))
    \<and> length (stream_bytes us @ rest) = N \<and> 4 < length rest
    \<and> tokens_ok [] us \<and> foldl expand [] us = foldl expand [] ts @ lits"
proof -
  have "v_op v \<le> int N" using room by (auto split: if_splits)
  from lzf_inv_room [OF inv this] obtain h rest where out: "v_out v = stream_bytes ts @ h # lits @ rest"
    by auto
  have v: "v_op v = int (length (stream_bytes ts) + 1 + length lits)" "v_lit v = int (length lits)"
    "length (v_out v) = N" "tokens_ok [] ts" "length lits < 32"
    using inv by (simp_all add: lzf_inv_def)
  have run: "stop_run (v_out v) (v_op v) (v_lit v)
      = Some (stream_bytes ts @ word_of_int (int (length lits) - 1) # lits @ rest)"
    unfolding v(1,2) out by (rule stop_run_ok)
  show ?thesis
  proof (cases "lits = []")
    case True
    then show ?thesis
      using run v out room by (intro exI [of _ ts] exI [of _ "word_of_int (-1) # rest"]) simp
  next
    case False
    then show ?thesis
      using run v out room run_token [OF False]
      by (intro exI [of _ "ts @ [Lit lits]"] exI [of _ rest]) (simp add: Suc_le_eq)
  qed
qed

lemma lzf_emit_match_ok:
  assumes inv: "lzf_inv inp N ts lits todo v" and todo: "3 \<le> length todo"
    and ref: "uint ref - base = int r" "r < i" "lzf_off base (int i) ref = int (i - r - 1)"
      "i - r - 1 < 8192" "agree inp r i 3" and i: "v_ip v = int i"
  shows "\<exists>flow. lzf_emit_match base inp (int (length inp)) (int N) ref v = Some flow
    \<and> lzf_flow_ok inp N (length todo) flow"
proof (cases "v_op v - (if v_lit v = 0 then 1 else 0) + 3 + 1 < int N")
  case False
  moreover have "length (v_out v) = N" using inv by (simp add: lzf_inv_def)
  ultimately show ?thesis
    by (auto simp: lzf_emit_match_def lzf_flow_ok_def Let_def split: if_splits)
next
  case True
  from lzf_stop_undo [OF inv True] obtain us rest where us:
    "stop_run (v_out v) (v_op v) (v_lit v) = Some (stream_bytes us @ rest)"
    "v_op v - (if v_lit v = 0 then 1 else 0) = int (length (stream_bytes us))"
    "length (stream_bytes us @ rest) = N" "4 < length rest"
    "tokens_ok [] us" "foldl expand [] us = foldl expand [] ts @ lits" by blast
  have inp: "inp = foldl expand [] us @ todo" "i = length (foldl expand [] us)"
    using inv i us(6) by (auto simp: lzf_inv_def)
  have i3: "i + 3 \<le> length inp" using inp todo by (metis add_le_cancel_left length_append)
  from lzf_match_ok [OF ref(5,2) i3] obtain n where n:
    "lzf_match inp (int r) (int i) (min (int (length inp) - int i - 2) MAX_REF) = Some (int n)"
    "agree inp r i n" "3 \<le> n" "n \<le> 264" "i + n \<le> length inp" by blast
  let ?us = "us @ [Ref (i - r - 1) n]"
  have put: "lzf_put_ref (stream_bytes us @ rest) (int (length (stream_bytes us)))
      (int (i - r - 1)) (int n - 2)
    = Some (stream_bytes us @ token_bytes (Ref (i - r - 1) n)
        @ drop (length (token_bytes (Ref (i - r - 1) n))) rest,
      int (length (stream_bytes us @ token_bytes (Ref (i - r - 1) n))))"
    using ref n us(4) by (intro lzf_put_ref_ok) auto
  define v' where "v' = v\<lparr>v_out := stream_bytes us @ token_bytes (Ref (i - r - 1) n)
        @ drop (length (token_bytes (Ref (i - r - 1) n))) rest,
      v_op := int (length (stream_bytes us @ token_bytes (Ref (i - r - 1) n))) + 1,
      v_lit := 0, v_ip := int (i + n)\<rparr>"
  have "ref_copy n (foldl expand [] us) (i - r - 1) = take (i + n) inp"
    using agree_ref_copy [OF n(2) ref(2) n(5)] inp by simp
  moreover have "length (token_bytes (Ref (i - r - 1) n)) \<le> 3" by simp
  ultimately have inv': "lzf_inv inp N ?us [] (drop n todo) v'"
    using us ref n inp by (simp add: lzf_inv_def v'_def del: token_bytes.simps)
  show ?thesis
  proof (cases "length inp \<le> i + n + 2")
    case fin: True
    then have "lzf_emit_match base inp (int (length inp)) (int N) ref v = Some (Break v')"
      using True us(1,2) n(1) put ref i unfolding lzf_emit_match_def v'_def
      by (simp add: Let_def add.commute del: token_bytes.simps)
    moreover have "length (drop n todo) \<le> 2" using inp fin by (auto dest: arg_cong [of _ _ length])
    ultimately show ?thesis using inv' lzf_flow_okI(1) by blast
  next
    case more: False
    then obtain v2 where v2: "lzf_rehash base inp v' = Some v2" "lzf_inv inp N ?us [] (drop n todo) v2"
      using lzf_rehash_ok [OF inv', of base] n inp by force
    then have "lzf_emit_match base inp (int (length inp)) (int N) ref v = Some (Continue v2)"
      using more True us(1,2) n(1) put ref i unfolding lzf_emit_match_def v'_def
      by (simp add: Let_def add.commute del: token_bytes.simps)
    moreover have "length (drop n todo) < length todo" using todo n by simp
    ultimately show ?thesis using v2 lzf_flow_okI(2) by blast
  qed
qed

section \<open>The loops\<close>

lemma lzf_body_ok:
  assumes base: "MAX_OFF \<le> base" "base + int (length inp) < 2 ^ 64"
    and inv: "lzf_inv inp N ts lits todo v" and todo: "3 \<le> length todo"
  shows "\<exists>flow. lzf_body base inp (int (length inp)) (int N) v = Some flow
    \<and> lzf_flow_ok inp N (length todo) flow"
proof -
  define i where "i = length inp - length todo"
  have ip: "v_ip v = int i" and i: "i + 3 \<le> length inp" using inv todo by (auto simp: lzf_inv_def i_def)
  obtain h where h: "NEXT (v_hval v) inp (int i) = Some h" using hash_ok(2) [OF i] by blast
  define v' where "v' = v\<lparr>v_hval := h, v_htab := (v_htab v)(IDX h := word_of_int (base + v_ip v))\<rparr>"
  define ref where "ref = v_htab v (IDX h)"
  have inv': "lzf_inv inp N ts lits todo v'" and ip': "v_ip v' = int i"
    using inv ip by (simp_all add: v'_def)
  obtain b where b: "lzf_hit base inp (int i) ref = Some b"
    "b \<longrightarrow> (\<exists>r. uint ref - base = int r \<and> r < i
        \<and> lzf_off base (int i) ref = int (i - r - 1) \<and> i - r - 1 < 8192 \<and> agree inp r i 3)"
    using lzf_hit_ok [OF base i] by blast
  have body: "lzf_body base inp (int (length inp)) (int N) v =
      (if b then lzf_emit_match base inp (int (length inp)) (int N) ref v'
       else if int N \<le> v_op v' then Some (Return0 (v_out v'))
       else do { v \<leftarrow> lzf_literal inp v'; Some (Continue v) })"
    using h b(1) ip by (simp add: lzf_body_def Let_def v'_def ref_def)
  consider b | "\<not> b" "int N \<le> v_op v'" | "\<not> b" "v_op v' < int N" by linarith
  then show ?thesis
  proof cases
    case 1
    with b(2) lzf_emit_match_ok [OF inv' todo _ _ _ _ _ ip'] show ?thesis unfolding body by auto
  next
    case 2
    moreover have "length (v_out v') = N" using inv' by (simp add: lzf_inv_def)
    ultimately show ?thesis by (simp add: body lzf_flow_ok_def)
  next
    case 3
    obtain x todo' where todo': "todo = x # todo'" using todo by (cases todo) auto
    from lzf_literal_ok [OF inv' [unfolded todo'] 3(2)] obtain v2 ts2 lits2 where
      "lzf_literal inp v' = Some v2" "lzf_inv inp N ts2 lits2 todo' v2"
      by (auto split: if_splits)
    then show ?thesis using 3 lzf_flow_okI(2) by (auto simp: body todo')
  qed
qed

lemma lzf_loop_ok:
  assumes base: "MAX_OFF \<le> base" "base + int (length inp) < 2 ^ 64"
    and inv: "lzf_inv inp N ts lits todo v"
  shows "\<exists>res. lzf_loop base inp (int (length inp)) (int N) v = Some res
    \<and> (case res of
         Inl out \<Rightarrow> length out = N
       | Inr v' \<Rightarrow> \<exists>ts lits todo. lzf_inv inp N ts lits todo v' \<and> length todo \<le> 2)"
  using inv
proof (induction todo arbitrary: v ts lits rule: length_induct)
  case (1 todo)
  show ?case
  proof (cases "3 \<le> length todo")
    case False
    then have "\<not> v_ip v < int (length inp) - 2" using 1(2) by (auto simp: lzf_inv_def)
    then have "lzf_loop base inp (int (length inp)) (int N) v = Some (Inr v)"
      by (subst lzf_loop.simps) simp
    moreover have "length todo \<le> 2" using False by simp
    ultimately show ?thesis using 1(2) by auto
  next
    case True
    then have ip: "v_ip v < int (length inp) - 2" using 1(2) by (auto simp: lzf_inv_def)
    from lzf_body_ok [OF base 1(2) True] obtain flow where flow:
      "lzf_body base inp (int (length inp)) (int N) v = Some flow"
      "lzf_flow_ok inp N (length todo) flow" by blast
    show ?thesis
    proof (cases flow)
      case (Continue v2)
      with flow(2) obtain ts2 lits2 todo2 where "lzf_inv inp N ts2 lits2 todo2 v2"
        "length todo2 < length todo" by (auto simp: lzf_flow_ok_def)
      with 1(1) have "\<exists>res. lzf_loop base inp (int (length inp)) (int N) v2 = Some res
        \<and> (case res of
             Inl out \<Rightarrow> length out = N
           | Inr v' \<Rightarrow> \<exists>ts lits todo. lzf_inv inp N ts lits todo v' \<and> length todo \<le> 2)"
        by blast
      then show ?thesis
        using flow(1) Continue ip by (subst lzf_loop.simps) simp
    qed (use flow ip in \<open>auto simp: lzf_flow_ok_def lzf_loop.simps [of _ _ _ _ v]\<close>)
  qed
qed

lemma lzf_tail_ok:
  assumes "lzf_inv inp N ts lits todo v" and "length todo < 32"
    and "v_op v + int (length todo) + (if 32 \<le> length lits + length todo then 1 else 0) \<le> int N"
  shows "\<exists>v' us run. lzf_tail inp (int (length inp)) v = Some v' \<and> lzf_inv inp N us run [] v'
    \<and> v_op v' \<le> int N"
  using assms
proof (induction todo arbitrary: v ts lits)
  case Nil
  then show ?case by (subst lzf_tail.simps) (auto simp: lzf_inv_def)
next
  case (Cons b todo)
  have ip: "v_ip v < int (length inp)" using Cons.prems(1) by (simp add: lzf_inv_def)
  have room: "v_op v < int N" using Cons.prems(3) by (auto split: if_splits)
  from lzf_literal_ok [OF Cons.prems(1) room] obtain v2 where v2: "lzf_literal inp v = Some v2"
    "if length lits = 31 then lzf_inv inp N (ts @ [Lit (lits @ [b])]) [] todo v2 \<and> v_op v2 = v_op v + 2
     else lzf_inv inp N ts (lits @ [b]) todo v2 \<and> v_op v2 = v_op v + 1" by blast
  have "length lits < 32" using Cons.prems(1) by (simp add: lzf_inv_def)
  then have "\<exists>v' us run. lzf_tail inp (int (length inp)) v2 = Some v' \<and> lzf_inv inp N us run [] v'
      \<and> v_op v' \<le> int N"
    using v2(2) Cons.prems(2,3) Cons.IH [of "ts @ [Lit (lits @ [b])]" "[]" v2]
      Cons.IH [of ts "lits @ [b]" v2]
    by (cases "length lits = 31") (simp_all split: if_splits)
  then show ?case using v2(1) ip by (subst lzf_tail.simps) simp
qed

lemma lzf_end_run:
  assumes inv: "lzf_inv inp N ts lits [] v" and room: "v_op v \<le> int N"
  shows "\<exists>out' n. stop_run (v_out v) (v_op v) (v_lit v) = Some out'
    \<and> v_op v - (if v_lit v = 0 then 1 else 0) = int n \<and> length out' = N \<and> n \<le> N
    \<and> (\<exists>us. tokens_ok [] us \<and> take n out' = stream_bytes us \<and> foldl expand [] us = inp)"
proof -
  from lzf_inv_room [OF inv room] obtain h rest where out: "v_out v = stream_bytes ts @ h # lits @ rest"
    by auto
  have v: "v_op v = int (length (stream_bytes ts) + 1 + length lits)" "v_lit v = int (length lits)"
    "length (v_out v) = N" "tokens_ok [] ts" "length lits < 32" "foldl expand [] ts @ lits = inp"
    using inv by (simp_all add: lzf_inv_def)
  define out' where "out' = stream_bytes ts @ word_of_int (int (length lits) - 1) # lits @ rest"
  have run: "stop_run (v_out v) (v_op v) (v_lit v) = Some out'"
    unfolding v(1,2) out out'_def by (rule stop_run_ok)
  have N: "length out' = N" using v(3) out by (simp add: out'_def)
  show ?thesis
  proof (cases "lits = []")
    case True
    then have "take (length (stream_bytes ts)) out' = stream_bytes ts" by (simp add: out'_def)
    then show ?thesis
      using run v N True
      by (intro exI [of _ out'] exI [of _ "length (stream_bytes ts)"]) (auto simp: out'_def)
  next
    case False
    let ?us = "ts @ [Lit lits]"
    have out': "out' = stream_bytes ?us @ rest"
      using run_token [OF False] by (simp add: out'_def)
    have "take (length (stream_bytes ?us)) out' = stream_bytes ?us" unfolding out' by simp
    moreover have "tokens_ok [] ?us" "foldl expand [] ?us = inp" using v False by auto
    moreover have "v_op v - (if v_lit v = 0 then 1 else 0) = int (length (stream_bytes ?us))"
      using v(1,2) False by simp
    moreover have "length (stream_bytes ?us) \<le> N" using N out' by simp
    ultimately show ?thesis using run N by blast
  qed
qed

lemma lzf_compress_ok:
  assumes base: "MAX_OFF \<le> base" "base + int (length inp) < 2 ^ 64" and inp: "2 \<le> length inp"
  shows "\<exists>out' n. lzf_compress base htab inp (int (length inp)) out (int (length out)) = Some (out', int n)
    \<and> length out' = length out \<and> n \<le> length out
    \<and> (n \<noteq> 0 \<longrightarrow> (\<exists>us. tokens_ok [] us \<and> take n out' = stream_bytes us \<and> foldl expand [] us = inp))"
proof (cases "out = []")
  case True
  then show ?thesis by (simp add: lzf_compress_def)
next
  case False
  obtain h where h: "FRST inp 0 = Some h" using hash_ok(1) [of 0 inp] inp by auto
  define v where "v = \<lparr>v_htab = htab, v_hval = h, v_ip = 0, v_op = 1, v_lit = 0, v_out = out\<rparr>"
  have "lzf_inv inp (length out) [] [] inp v" by (simp add: lzf_inv_def v_def)
  from lzf_loop_ok [OF base this] obtain res where res:
    "lzf_loop base inp (int (length inp)) (int (length out)) v = Some res"
    "case res of
         Inl out' \<Rightarrow> length out' = length out
       | Inr v' \<Rightarrow> \<exists>ts lits todo. lzf_inv inp (length out) ts lits todo v' \<and> length todo \<le> 2"
    by blast
  have "inp \<noteq> []" using inp by auto
  note start = lzf_compress_def [of base htab inp "int (length inp)" out "int (length out)"]
  show ?thesis
  proof (cases res)
    case (Inl out')
    then show ?thesis
      using res h False \<open>inp \<noteq> []\<close> by (intro exI [of _ out'] exI [of _ 0]) (simp add: start v_def)
  next
    case (Inr v')
    with res(2) obtain ts lits todo where v': "lzf_inv inp (length out) ts lits todo v'"
      "length todo \<le> 2" by auto
    show ?thesis
    proof (cases "v_op v' + 3 > int (length out)")
      case True
      moreover have "length (v_out v') = length out" using v' by (simp add: lzf_inv_def)
      ultimately show ?thesis
        using res(1) Inr h False \<open>inp \<noteq> []\<close>
        by (intro exI [of _ "v_out v'"] exI [of _ 0]) (simp add: start v_def)
    next
      case room: False
      have "length lits < 32" using v' by (simp add: lzf_inv_def)
      with room v'(2) have "\<exists>v2 us run. lzf_tail inp (int (length inp)) v' = Some v2
          \<and> lzf_inv inp (length out) us run [] v2 \<and> v_op v2 \<le> int (length out)"
        by (intro lzf_tail_ok [OF v'(1)]) auto
      then obtain v2 us run where v2: "lzf_tail inp (int (length inp)) v' = Some v2"
        "lzf_inv inp (length out) us run [] v2" "v_op v2 \<le> int (length out)" by blast
      from lzf_end_run [OF v2(2,3)] obtain out' n where
        "stop_run (v_out v2) (v_op v2) (v_lit v2) = Some out'"
        "v_op v2 - (if v_lit v2 = 0 then 1 else 0) = int n" "length out' = length out" "n \<le> length out"
        "\<exists>us. tokens_ok [] us \<and> take n out' = stream_bytes us \<and> foldl expand [] us = inp" by blast
      then show ?thesis
        using res(1) Inr h False \<open>inp \<noteq> []\<close> room v2(1)
        by (intro exI [of _ out'] exI [of _ n]) (simp add: start v_def)
    qed
  qed
qed

end
