(* ===== verification/Lzf_Correct.thy ===== *)
theory Lzf_Correct
  imports Lzf_Comp
begin

text \<open>
  The two properties of LZF: compression followed by decompression gives the data back, whatever
  the uninitialised hash table held, and decompression of arbitrary bytes is memory safe and
  returns.
\<close>

lemma lzf_decompress_stream:
  assumes "tokens_ok [] us" and "length (foldl expand [] us) \<le> length out"
  shows "lzf_decompress (stream_bytes us) (int (length (stream_bytes us))) out (int (length out))
    = Some (foldl expand [] us @ drop (length (foldl expand [] us)) out,
        Inr (int (length (foldl expand [] us))))"
  using lzf_dec_stream [of "[]" us "stream_bytes us" "[]" "length out" out] assms
  by (simp add: lzf_decompress_def)

lemma lzf_compress_small:
  assumes "length inp = 1" and "out \<noteq> []"
  shows "lzf_compress base htab inp (int (length inp)) out (int (length out)) = None"
  using assms by (simp add: lzf_compress_def FRST_def rd_def)

text \<open>
  C29. Compressing at least two bytes never reads or writes outside the two blocks, whatever the
  hash table held before and however small the output block is, and returns a size within the
  output block. Unless that size is 0 (the result does not fit), decompressing that many bytes
  into any block of the size of the data gives the data back and reports its length. The input
  must not lie in the first 8192 bytes of the address space or reach its end.
\<close>

theorem lzf_roundtrip:
  assumes "MAX_OFF \<le> base" and "base + int (length inp) < 2 ^ 64" and "2 \<le> length inp"
    and "length buf = length inp"
  shows "\<exists>out' n. lzf_compress base htab inp (int (length inp)) out (int (length out)) = Some (out', int n)
    \<and> length out' = length out \<and> n \<le> length out
    \<and> (n \<noteq> 0 \<longrightarrow> lzf_decompress (take n out') (int n) buf (int (length inp))
         = Some (inp, Inr (int (length inp))))"
proof -
  from lzf_compress_ok [OF assms(1-3)] obtain out' n where c:
    "lzf_compress base htab inp (int (length inp)) out (int (length out)) = Some (out', int n)"
    "length out' = length out" "n \<le> length out"
    "n \<noteq> 0 \<longrightarrow> (\<exists>us. tokens_ok [] us \<and> take n out' = stream_bytes us \<and> foldl expand [] us = inp)"
    by blast
  have "lzf_decompress (take n out') (int n) buf (int (length inp)) = Some (inp, Inr (int (length inp)))"
    if "n \<noteq> 0"
  proof -
    from that c(4) obtain us where us: "tokens_ok [] us" "take n out' = stream_bytes us"
      "foldl expand [] us = inp" by blast
    have "length (stream_bytes us) = n" using us(2) c(2,3) by (metis length_take min.absorb2)
    with lzf_decompress_stream [of us buf] us assms(4) show ?thesis by simp
  qed
  with c show ?thesis by blast
qed

text \<open>Forty-eight bytes with period four become a run of six literals and two references.\<close>

definition sample_input :: "byte list" where
  "sample_input = concat (replicate 12 [1, 2, 3, 4])"

lemma sample_compressed:
  "map_option (\<lambda>(out, n). (take (nat n) out, n))
     (lzf_compress 65536 (\<lambda>_. 7) sample_input 48 (replicate 20 0) 20)
   = Some ([4, 1, 2, 3, 4, 1, 224, 32, 3, 1, 3, 4], 12)"
  by code_simp

theorem lzf_roundtrip_witness:
  "\<exists>out' n. lzf_compress 65536 (\<lambda>_. 7) sample_input 48 (replicate 20 0) 20 = Some (out', int n)
    \<and> n = 12 \<and> lzf_decompress (take n out') (int n) (replicate 48 0) 48 = Some (sample_input, Inr 48)"
proof -
  have len: "length sample_input = 48" by code_simp
  obtain out' n where
    "lzf_compress 65536 (\<lambda>_. 7) sample_input 48 (replicate 20 0) 20 = Some (out', int n)"
    "n \<noteq> 0 \<longrightarrow> lzf_decompress (take n out') (int n) (replicate 48 0) 48 = Some (sample_input, Inr 48)"
    using lzf_roundtrip [of 65536 sample_input "replicate 48 0" "\<lambda>_. 7" "replicate 20 0"]
    by (auto simp: len)
  moreover from this sample_compressed have "n = 12" by simp
  ultimately show ?thesis by auto
qed

text \<open>
  C30. Decompressing arbitrary bytes never reads past the compressed bytes, never reads or writes
  outside the output block and always returns: with an error, or with a size that fits the block.
\<close>

theorem lzf_decompress_safe:
  assumes "in_len \<le> length inp" and "out_len \<le> length out"
  shows "\<exists>out' r. lzf_decompress inp (int in_len) out (int out_len) = Some (out', r)
    \<and> length out' = length out \<and> (\<forall>n. r = Inr n \<longrightarrow> 0 \<le> n \<and> n \<le> int out_len)"
  using lzf_dec_loop_total [of in_len inp "[]" out_len out 0] assms
  by (simp add: lzf_decompress_def)

text \<open>A reference that starts before the output block is refused, after four literals.\<close>

theorem lzf_decompress_safe_witness:
  "(\<exists>out' r. lzf_decompress [3, 1, 2, 3, 4, 32, 9] 7 (replicate 8 0) 8 = Some (out', r)
    \<and> length out' = 8 \<and> (\<forall>n. r = Inr n \<longrightarrow> 0 \<le> n \<and> n \<le> 8))
   \<and> lzf_decompress [3, 1, 2, 3, 4, 32, 9] 7 (replicate 8 0) 8 = Some ([1, 2, 3, 4, 0, 0, 0, 0], Inl EINVAL)"
proof (intro conjI)
  show "\<exists>out' r. lzf_decompress [3, 1, 2, 3, 4, 32, 9] 7 (replicate 8 0) 8 = Some (out', r)
    \<and> length out' = 8 \<and> (\<forall>n. r = Inr n \<longrightarrow> 0 \<le> n \<and> n \<le> 8)"
    using lzf_decompress_safe [of 7 "[3, 1, 2, 3, 4, 32, 9]" 8 "replicate 8 0"] by simp
  show "lzf_decompress [3, 1, 2, 3, 4, 32, 9] 7 (replicate 8 0) 8
      = Some ([1, 2, 3, 4, 0, 0, 0, 0], Inl EINVAL)"
    by code_simp
qed

end
