(* ===== verification/Fwtree.thy ===== *)
theory Fwtree
  imports Bits_Base
begin

text \<open>
  The Fenwick tree that indexes the sizes of the dictionaries of a key space (fwtree.c).
  Nodes are 64-bit words in an array read and written with bounds checks; indices are C ints.
  \<open>None\<close> stands for an access outside the array, a failed assertion, or a signed operation whose
  result the C type cannot hold. \<open>zmalloc\<close> and \<open>zfree\<close> leave no trace in the model.
\<close>

unbundle bit_operations_syntax

record fenwickTree =
  ft_tree :: "64 word list"
  ft_size_bits :: nat
  ft_size :: int
  ft_total :: "64 word"

definition node :: "64 word list \<Rightarrow> int \<Rightarrow> 64 word option" where
  "node t i = (if 0 \<le> i \<and> nat i < length t then Some (t ! nat i) else None)"

definition set_node :: "64 word list \<Rightarrow> int \<Rightarrow> 64 word \<Rightarrow> 64 word list option" where
  "set_node t i w = (if 0 \<le> i \<and> nat i < length t then Some (t[nat i := w]) else None)"

text \<open>\<open>1 << sizeBits\<close> is an int for shifts of 0 to 30 only.\<close>

definition fwTreeCreate :: "int \<Rightarrow> fenwickTree option" where
  "fwTreeCreate sizeBits = do {
     guard (0 \<le> sizeBits \<and> sizeBits \<le> 30);
     Some \<lparr>ft_tree = replicate (2 ^ nat sizeBits + 1) 0, ft_size_bits = nat sizeBits,
           ft_size = 2 ^ nat sizeBits, ft_total = 0\<rparr> }"

partial_function (option) prefix_loop :: "64 word list \<Rightarrow> int \<Rightarrow> 64 word \<Rightarrow> 64 word option" where
  "prefix_loop t idx acc =
     (if idx > 0 then do {
        w \<leftarrow> node t idx;
        prefix_loop t (idx - (idx AND - idx)) (acc + w) }
      else Some acc)"

declare prefix_loop.simps [code]

definition fwTreePrefixSum :: "fenwickTree \<Rightarrow> int \<Rightarrow> 64 word option" where
  "fwTreePrefixSum ft idx =
     (if idx < 0 then Some 0
      else
        let idx = (if idx \<ge> ft_size ft then ft_size ft - 1 else idx) in
        prefix_loop (ft_tree ft) (idx + 1) 0)"

text \<open>
  Stepping \<open>idx\<close> overflows an int from \<open>2 ^ 31\<close> on, and negating \<open>delta\<close> overflows a long long
  at the least value.
\<close>

partial_function (option) update_loop ::
  "int \<Rightarrow> int \<Rightarrow> 64 word list \<Rightarrow> int \<Rightarrow> 64 word list option" where
  "update_loop sz delta t idx =
     (if idx \<le> sz then do {
        w \<leftarrow> node t idx;
        guard (delta < 0 \<longrightarrow> - delta < 2 ^ 63 \<and> w \<ge> word_of_int (- delta));
        t \<leftarrow> set_node t idx (w + word_of_int delta);
        guard (idx + (idx AND - idx) < 2 ^ 31);
        update_loop sz delta t (idx + (idx AND - idx)) }
      else Some t)"

declare update_loop.simps [code]

definition fwTreeUpdate :: "fenwickTree \<Rightarrow> int \<Rightarrow> int \<Rightarrow> fenwickTree option" where
  "fwTreeUpdate ft idx delta =
     (if idx < 0 \<or> idx \<ge> ft_size ft then Some ft
      else do {
        t \<leftarrow> update_loop (ft_size ft) delta (ft_tree ft) (idx + 1);
        Some (ft\<lparr>ft_tree := t, ft_total := ft_total ft + word_of_int delta\<rparr>) })"

text \<open>
  The loop of \<open>fwTreeFindIndex\<close>, over \<open>i = 2 ^ k, \<dots>, 2, 1\<close>. For the trees that can be created,
  \<open>k \<le> 30\<close>, and the sum of distinct powers in \<open>current\<close> stays an int.
\<close>

primrec find_loop :: "nat \<Rightarrow> 64 word list \<Rightarrow> int \<Rightarrow> 64 word \<Rightarrow> int option" where
  "find_loop 0 t result target = Some result"
| "find_loop (Suc k) t result target = do {
     let current = result + 2 ^ k;
     w \<leftarrow> node t current;
     if target > w then find_loop k t current (target - w)
     else find_loop k t result target }"

definition fwTreeFindIndex :: "fenwickTree \<Rightarrow> 64 word \<Rightarrow> int option" where
  "fwTreeFindIndex ft target =
     (if target = 0 then Some 0
      else find_loop (Suc (ft_size_bits ft)) (ft_tree ft) 0 target)"

definition fwTreeFindFirstNonEmpty :: "fenwickTree \<Rightarrow> int option" where
  "fwTreeFindFirstNonEmpty ft = fwTreeFindIndex ft 1"

definition fwTreeFindNextNonEmpty :: "fenwickTree \<Rightarrow> int \<Rightarrow> int option" where
  "fwTreeFindNextNonEmpty ft idx =
     (if idx < 0 \<or> idx \<ge> ft_size ft then Some (-1)
      else do {
        s \<leftarrow> fwTreePrefixSum ft idx;
        let next_sum = s + 1;
        if next_sum \<le> ft_total ft then fwTreeFindIndex ft next_sum else Some (-1) })"

definition fwTreeClear :: "fenwickTree \<Rightarrow> fenwickTree" where
  "fwTreeClear ft = ft\<lparr>ft_tree := replicate (nat (ft_size ft) + 1) 0, ft_total := 0\<rparr>"

end
