(* ===== verification/Fwtree_Correct.thy ===== *)
theory Fwtree_Correct
  imports Fwtree
begin

text \<open>
  The Fenwick tree represents a list of counts: node \<open>i\<close> holds the sum of the counts its range
  covers. Updates, prefix sums and both searches refine the obvious operations on the list.
\<close>

section \<open>The lowest set bit\<close>

definition lowbit :: "nat \<Rightarrow> nat" where
  "lowbit i = nat (int i AND - int i)"

lemma odd_and_minus: "odd a \<Longrightarrow> a AND - a = (1 :: int)"
proof -
  assume "odd a"
  then have e: "even (a - 1)" by simp
  have "(1 + b) AND NOT b = 1" if "even b" for b :: int
    using that by (intro bit_eqI) (auto simp: bit_and_iff bit_not_iff even_bit_succ_iff bit_1_iff bit_0)
  from this [OF e] show ?thesis by (simp add: minus_eq_not_minus_1)
qed

lemma lowbit_exp: "odd q \<Longrightarrow> lowbit (2 ^ k * q) = 2 ^ k"
proof -
  assume "odd q"
  have "int (2 ^ k * q) AND - int (2 ^ k * q) = push_bit k (int q) AND push_bit k (- int q)"
    by (simp add: push_bit_eq_mult mult.commute)
  also have "\<dots> = push_bit k (int q AND - int q)" by (rule push_bit_and [symmetric])
  also have "\<dots> = 2 ^ k" using \<open>odd q\<close> by (simp add: odd_and_minus push_bit_eq_mult)
  finally show ?thesis by (simp add: lowbit_def nat_power_eq)
qed

lemma odd_part: "0 < (i :: nat) \<Longrightarrow> \<exists>k q. i = 2 ^ k * q \<and> odd q"
proof (induction i rule: less_induct)
  case (less i)
  show ?case
  proof (cases "odd i")
    case True
    then show ?thesis by (intro exI [of _ 0] exI [of _ i]) simp
  next
    case False
    then obtain j where j: "i = 2 * j" by blast
    with less.prems less.IH [of j] obtain k q where "j = 2 ^ k * q" "odd q" by auto
    then show ?thesis using j by (intro exI [of _ "Suc k"] exI [of _ q]) simp
  qed
qed

lemma lowbit_bounds: "0 < i \<Longrightarrow> 0 < lowbit i \<and> lowbit i \<le> i"
  using odd_part [of i] by (auto simp: lowbit_exp Suc_le_eq odd_pos)

lemma int_lowbit: "0 < i \<Longrightarrow> int i AND - int i = int (lowbit i)"
  using odd_part [of i] lowbit_bounds [of i] by (auto simp: lowbit_def)

text \<open>Node \<open>j\<close> covers the positions \<open>j - lowbit j + 1, \<dots>, j\<close>, counted from 1.\<close>

definition covers :: "nat \<Rightarrow> nat \<Rightarrow> bool" where
  "covers j i \<longleftrightarrow> j - lowbit j < i \<and> i \<le> j"

lemma mult_less_step: "(d :: nat) dvd a \<Longrightarrow> d dvd b \<Longrightarrow> a < b \<Longrightarrow> a + d \<le> b"
  using dvd_imp_le [of d "b - a"] by simp

lemma covers_next:
  assumes "0 < i" and "i < j"
  shows "covers j i \<longleftrightarrow> covers j (i + lowbit i)"
proof -
  obtain k q where i: "i = 2 ^ k * q" "odd q" using odd_part assms by blast
  obtain m s where j: "j = 2 ^ m * s" "odd s" using odd_part [of j] assms by auto
  have li: "lowbit i = 2 ^ k" and lj: "lowbit j = 2 ^ m" using i j by (simp_all add: lowbit_exp)
  have sub: "j - 2 ^ m = 2 ^ m * (s - 1)" by (simp add: j diff_mult_distrib2)
  show ?thesis
  proof (cases "k < m")
    case True
    then have d: "(2::nat) ^ k dvd 2 ^ m" by (simp add: le_imp_power_dvd)
    then have "2 ^ k dvd j" using j(1) dvd_mult2 by blast
    then have "i + 2 ^ k \<le> j" using i assms by (intro mult_less_step) auto
    moreover have "j - 2 ^ m < i" if "j - 2 ^ m < i + 2 ^ k"
    proof (rule ccontr)
      assume "\<not> j - 2 ^ m < i"
      moreover have "2 ^ k dvd j - 2 ^ m" using d sub dvd_mult2 by metis
      moreover have "j - 2 ^ m \<noteq> i"
      proof
        assume "j - 2 ^ m = i"
        then have "2 ^ m dvd i" using sub by (metis dvd_triv_left)
        moreover have "(2::nat) ^ Suc k dvd 2 ^ m" using True by (intro le_imp_power_dvd) simp
        ultimately have "2 ^ Suc k dvd 2 ^ k * q" using i dvd_trans by blast
        then show False using i(2) by simp
      qed
      ultimately have "i + 2 ^ k \<le> j - 2 ^ m" using i by (intro mult_less_step) auto
      with that show False by simp
    qed
    ultimately show ?thesis using assms li lj by (auto simp: covers_def)
  next
    case False
    then have d: "(2::nat) ^ m dvd 2 ^ k" by (simp add: le_imp_power_dvd)
    then have "2 ^ m dvd i" using i(1) dvd_mult2 by blast
    then have le: "i \<le> j - 2 ^ m"
      using mult_less_step [of "2 ^ m" i j] j assms by auto
    have "\<not> covers j (i + lowbit i)"
    proof
      assume c: "covers j (i + lowbit i)"
      have "i + 2 ^ k \<le> j" using c li by (simp add: covers_def)
      moreover have "j < i + 2 ^ k + 2 ^ m" using c li lj by (auto simp: covers_def)
      moreover have "2 ^ m dvd i + 2 ^ k" using d \<open>2 ^ m dvd i\<close> by (rule dvd_add [rotated])
      moreover have "2 ^ m dvd j" using j(1) by simp
      ultimately have "j = i + 2 ^ k"
        using mult_less_step [of "2 ^ m" "i + 2 ^ k" j] by linarith
      then have "2 ^ m * s = 2 ^ k * (q + 1)" using i j by simp
      moreover have "2 ^ k * 2 dvd 2 ^ k * (q + 1)" using i(2) by (intro mult_dvd_mono) auto
      then have "2 ^ Suc k dvd 2 ^ k * (q + 1)" by (simp add: mult.commute)
      moreover have "(2::nat) ^ Suc m dvd 2 ^ Suc k" using False by (intro le_imp_power_dvd) simp
      ultimately have "2 ^ Suc m dvd 2 ^ m * s" using dvd_trans by metis
      then show False using j(2) by simp
    qed
    then show ?thesis using le lj assms by (auto simp: covers_def)
  qed
qed

section \<open>What a tree represents\<close>

text \<open>
  A tree of \<open>2 ^ b\<close> counts, a number that is an int, whose sum is below the largest 64-bit number;
  node \<open>i\<close> is the sum of the counts it covers.
\<close>

definition node_sum :: "nat list \<Rightarrow> nat \<Rightarrow> nat" where
  "node_sum xs i = sum_list (take (lowbit i) (drop (i - lowbit i) xs))"

definition fw_repr :: "fenwickTree \<Rightarrow> nat list \<Rightarrow> bool" where
  "fw_repr ft xs \<longleftrightarrow>
     ft_size_bits ft \<le> 30 \<and> length xs = 2 ^ ft_size_bits ft \<and> ft_size ft = int (length xs)
     \<and> length (ft_tree ft) = length xs + 1 \<and> sum_list xs + 1 < 2 ^ 64
     \<and> unat (ft_total ft) = sum_list xs
     \<and> (\<forall>i. 0 < i \<and> i \<le> length xs \<longrightarrow> unat (ft_tree ft ! i) = node_sum xs i)"

lemma node_sum_split:
  assumes "0 < i" and "i \<le> length xs"
  shows "sum_list (take (i - lowbit i) xs) + node_sum xs i = sum_list (take i xs)"
proof -
  have "take i xs = take (i - lowbit i) xs @ take (lowbit i) (drop (i - lowbit i) xs)"
    using lowbit_bounds [OF assms(1)] by (metis le_add_diff_inverse2 take_add)
  then show ?thesis by (simp add: node_sum_def)
qed

lemma sum_take_le: "sum_list (take i xs) \<le> sum_list (xs :: nat list)"
  by (metis append_take_drop_id le_add1 sum_list_append)

lemma node_sum_le: "0 < i \<Longrightarrow> i \<le> length xs \<Longrightarrow> node_sum xs i \<le> sum_list xs"
  using node_sum_split [of i xs] sum_take_le [of i xs] by linarith

lemma unat_word64: "n < 2 ^ 64 \<Longrightarrow> unat (word_of_nat n :: 64 word) = n"
  by (simp add: unsigned_of_nat take_bit_nat_eq_self)

lemma node_nat: "i < length t \<Longrightarrow> node t (int i) = Some (t ! i)"
  by (simp add: node_def)

lemma node_sum_update:
  assumes "p < length xs" and "0 < i" and "i \<le> length xs"
  shows "int (node_sum (xs[p := y]) i)
    = int (node_sum xs i) + (if covers i (p + 1) then int y - int (xs ! p) else 0)"
proof -
  let ?l = "lowbit i"
  have l: "0 < ?l" "?l \<le> i" using lowbit_bounds [OF assms(2)] by auto
  consider "p < i - ?l" | "i - ?l \<le> p" "p < i" | "i \<le> p" by linarith
  then show ?thesis
  proof cases
    case 2
    define zs where "zs = take ?l (drop (i - ?l) xs)"
    have zs: "take ?l (drop (i - ?l) (xs[p := y])) = zs[p - (i - ?l) := y]" "p - (i - ?l) < length zs"
      "zs ! (p - (i - ?l)) = xs ! p"
      using 2 l assms by (auto simp: zs_def drop_update_swap take_update_swap)
    have "int (sum_list (zs[k := y])) = int (sum_list zs) + int y - int (zs ! k)" if "k < length zs" for k
      using that by (simp add: sum_list_update elem_le_sum_list trans_le_add1)
    from this [OF zs(2)] show ?thesis
      using 2 zs by (simp add: node_sum_def covers_def zs_def [symmetric])
  qed (use assms l in \<open>auto simp: node_sum_def covers_def drop_update_swap take_update_cancel\<close>)
qed

section \<open>Prefix sums\<close>

lemma prefix_loop_ok:
  assumes "fw_repr ft xs" and "i \<le> length xs"
  shows "prefix_loop (ft_tree ft) (int i) acc = Some (acc + word_of_nat (sum_list (take i xs)))"
  using assms(2)
proof (induction i arbitrary: acc rule: less_induct)
  case (less i)
  show ?case
  proof (cases "i = 0")
    case True
    then show ?thesis by (subst prefix_loop.simps) simp
  next
    case False
    then have l: "0 < lowbit i" "lowbit i \<le> i" using lowbit_bounds [of i] by auto
    have w: "node (ft_tree ft) (int i) = Some (ft_tree ft ! i)" "unat (ft_tree ft ! i) = node_sum xs i"
      using assms(1) less.prems False by (auto simp: fw_repr_def node_nat)
    have "prefix_loop (ft_tree ft) (int i) acc
        = prefix_loop (ft_tree ft) (int (i - lowbit i)) (acc + ft_tree ft ! i)"
      using False w(1) l int_lowbit [of i] by (subst prefix_loop.simps) (simp add: of_nat_diff)
    also have "\<dots> = Some (acc + ft_tree ft ! i + word_of_nat (sum_list (take (i - lowbit i) xs)))"
      using less.prems l by (intro less.IH) auto
    also have "ft_tree ft ! i = word_of_nat (node_sum xs i)" by (simp flip: w(2))
    finally show ?thesis
      using node_sum_split [of i xs] less.prems False
      by (simp add: add.assoc add.commute flip: of_nat_add)
  qed
qed

lemma fwTreePrefixSum_ok:
  assumes "fw_repr ft xs"
  shows "\<exists>w. fwTreePrefixSum ft idx = Some w \<and> unat w = sum_list (take (nat (idx + 1)) xs)"
proof (cases "idx < 0")
  case True
  then show ?thesis by (simp add: fwTreePrefixSum_def)
next
  case False
  define i where "i = min (nat (idx + 1)) (length xs)"
  have "fwTreePrefixSum ft idx = prefix_loop (ft_tree ft) (int i) 0"
    using False assms by (auto simp: fwTreePrefixSum_def fw_repr_def i_def min_def Let_def)
  also have "\<dots> = Some (word_of_nat (sum_list (take i xs)))"
    using prefix_loop_ok [OF assms, of i 0] by (simp add: i_def)
  finally have "fwTreePrefixSum ft idx = Some (word_of_nat (sum_list (take i xs)))" .
  moreover have "sum_list (take i xs) < 2 ^ 64"
    using sum_take_le [of i xs] assms by (simp add: fw_repr_def)
  ultimately show ?thesis by (simp add: unat_word64 i_def min_def)
qed

section \<open>Updates\<close>

lemma covers_self: "0 < i \<Longrightarrow> covers i i"
  using lowbit_bounds [of i] by (simp add: covers_def)

lemma word64_add:
  assumes "0 \<le> int (unat w) + d" and "int (unat w) + d < 2 ^ 64"
  shows "int (unat (w + word_of_int d :: 64 word)) = int (unat w) + d"
proof -
  have "w + word_of_int d = word_of_int (int (unat w) + d)" by simp
  then have "uint (w + word_of_int d) = (int (unat w) + d) mod 2 ^ 64"
    by (simp only: uint_word_of_int) simp
  then show ?thesis using assms by simp
qed

lemma word64_ge:
  assumes "d \<le> 0" and "- d \<le> int (unat w)"
  shows "word_of_int (- d) \<le> (w :: 64 word)"
proof -
  have "- d < 2 ^ 64" using assms(2) uint_bounded [of w] by simp
  then have "uint (word_of_int (- d) :: 64 word) = - d"
    using assms(1) by (simp only: uint_word_of_int) simp
  then show ?thesis using assms(2) by (simp add: word_le_def)
qed

text \<open>
  The loop at node \<open>i\<close>: the nodes before \<open>i\<close> are done, and from \<open>i\<close> on a node covers the
  position exactly if it covers \<open>i\<close>.
\<close>

lemma update_loop_ok:
  assumes "\<And>j. 0 < j \<Longrightarrow> j \<le> n \<Longrightarrow> S j < 2 ^ 64 \<and> 0 \<le> S' j \<and> S' j < 2 ^ 64
      \<and> S' j = S j + (if covers j p then d else 0)"
    and n: "n < 2 ^ 30" and d: "- (2 ^ 63) < d"
    and "length t = n + 1" and "0 < i"
    and "\<And>j. 0 < j \<Longrightarrow> j \<le> n \<Longrightarrow> int (unat (t ! j)) = (if j < i then S' j else S j)"
    and "\<And>j. i \<le> j \<Longrightarrow> covers j p = covers j i"
  shows "\<exists>t'. update_loop (int n) d t (int i) = Some t' \<and> length t' = n + 1
    \<and> (\<forall>j. 0 < j \<and> j \<le> n \<longrightarrow> int (unat (t' ! j)) = S' j)"
  using assms(4-)
proof (induction "n + 1 - i" arbitrary: t i rule: less_induct)
  case less
  show ?case
  proof (cases "i \<le> n")
    case False
    then show ?thesis using less.prems by (subst update_loop.simps) auto
  next
    case True
    let ?w = "t ! i"
    have l: "0 < lowbit i" "lowbit i \<le> i" using lowbit_bounds less.prems(2) by blast+
    have small: "int i + int (lowbit i) < 2 ^ 31" using l(2) True n by simp
    have w: "int (unat ?w) = S i" using less.prems True by simp
    have "S' i = S i + d" "0 \<le> S' i" "S' i < 2 ^ 64"
      using assms(1) [OF less.prems(2) True] less.prems(4) [of i] covers_self [OF less.prems(2)] by auto
    then have w': "int (unat (?w + word_of_int d)) = S' i"
      "d < 0 \<longrightarrow> - d < 2 ^ 63 \<and> word_of_int (- d) \<le> ?w"
      using w d word64_add [of ?w d] word64_ge [of d ?w] by auto
    define t' where "t' = t[i := ?w + word_of_int d]"
    have step: "update_loop (int n) d t (int i) = update_loop (int n) d t' (int (i + lowbit i))"
      using True less.prems(1,2) w'(2) int_lowbit [OF less.prems(2)] small
      by (subst update_loop.simps) (simp add: node_nat set_node_def t'_def)
    have skip: "covers j p = covers j (i + lowbit i)" if "i < j" for j
      using less.prems(4) [of j] covers_next [OF less.prems(2) that] that by simp
    have t': "int (unat (t' ! j)) = (if j < i + lowbit i then S' j else S j)" if j: "0 < j" "j \<le> n" for j
    proof (cases j i rule: linorder_cases)
      case less
      then show ?thesis using less.prems(3) [OF j] by (simp add: t'_def)
    next
      case equal
      then show ?thesis using w'(1) l less.prems(1) True by (simp add: t'_def)
    next
      case greater
      then have "\<not> covers j p" if "j < i + lowbit i" using skip that by (simp add: covers_def)
      then show ?thesis
        using greater less.prems(3) [OF j] assms(1) [OF j] by (auto simp: t'_def)
    qed
    show ?thesis
      unfolding step using l less.prems(1,2) skip t' True
      by (intro less.hyps) (auto simp: t'_def)
  qed
qed

lemma fwTreeUpdate_ok:
  assumes repr: "fw_repr ft xs" and p: "p < length xs"
    and y: "0 \<le> int (xs ! p) + d" and total: "int (sum_list xs) + d + 1 < 2 ^ 64"
    and n: "length xs < 2 ^ 30" and d: "- (2 ^ 63) < d"
  defines "ys \<equiv> xs[p := nat (int (xs ! p) + d)]"
  shows "\<exists>ft'. fwTreeUpdate ft (int p) d = Some ft' \<and> fw_repr ft' ys"
proof -
  have sum: "int (sum_list ys) = int (sum_list xs) + d"
    using p y by (simp add: ys_def sum_list_update elem_le_sum_list trans_le_add1)
  have len: "length ys = length xs" by (simp add: ys_def)
  have S: "int (node_sum xs j) < 2 ^ 64 \<and> 0 \<le> int (node_sum ys j) \<and> int (node_sum ys j) < 2 ^ 64
      \<and> int (node_sum ys j) = int (node_sum xs j) + (if covers j (p + 1) then d else 0)"
    if "0 < j" "j \<le> length xs" for j
    using node_sum_le [of j xs] node_sum_le [of j ys] that repr total sum len p y
      node_sum_update [OF p that, of "nat (int (xs ! p) + d)"]
    by (simp add: fw_repr_def ys_def)
  have t: "length (ft_tree ft) = length xs + 1"
    "0 < j \<Longrightarrow> j \<le> length xs \<Longrightarrow> int (unat (ft_tree ft ! j))
       = (if j < p + 1 then int (node_sum ys j) else int (node_sum xs j))" for j
    using repr S [of j] by (auto simp: fw_repr_def covers_def)
  from update_loop_ok [of "length xs" "\<lambda>j. int (node_sum xs j)" "\<lambda>j. int (node_sum ys j)" "p + 1" d
      "ft_tree ft" "p + 1", OF S n d t(1) _ t(2)]
  obtain t' where t': "update_loop (int (length xs)) d (ft_tree ft) (int (p + 1)) = Some t'"
    "length t' = length xs + 1"
    "\<forall>j. 0 < j \<and> j \<le> length xs \<longrightarrow> int (unat (t' ! j)) = int (node_sum ys j)" by auto
  have tot: "unat (ft_total ft) = sum_list xs" using repr by (simp add: fw_repr_def)
  have "int (unat (ft_total ft + word_of_int d)) = int (sum_list ys)"
    using word64_add [of "ft_total ft" d, unfolded tot] total sum by linarith
  then have "unat (ft_total ft + word_of_int d) = sum_list ys"
    and "\<forall>j. 0 < j \<and> j \<le> length xs \<longrightarrow> unat (t' ! j) = node_sum ys j"
    using t'(3) by (simp_all only: of_nat_eq_iff)
  moreover have "sum_list ys + 1 < 2 ^ 64" using sum total by simp
  ultimately show ?thesis
    using t'(1,2) repr p len by (simp add: fwTreeUpdate_def fw_repr_def add.commute)
qed

text \<open>With \<open>2 ^ 30\<close> positions every update walks up to node \<open>2 ^ 30\<close>, where stepping overflows.\<close>

lemma update_loop_overflow: "0 < i \<Longrightarrow> i \<le> 2 ^ 30 \<Longrightarrow> update_loop (2 ^ 30) d t (int i) = None"
proof (induction "2 ^ 30 - i" arbitrary: t i rule: less_induct)
  case less
  obtain k q where i: "i = 2 ^ k * q" "odd q" using odd_part less.prems(1) by blast
  have l: "lowbit i = 2 ^ k" using i by (simp add: lowbit_exp)
  have idx: "int i AND - int i = int (lowbit i)" "int i \<le> 2 ^ 30"
    using int_lowbit [OF less.prems(1)] less.prems(2) by simp_all
  have "update_loop (2 ^ 30) d t' (int i + int (lowbit i)) = None"
    if "int i + int (lowbit i) < 2 ^ 31" for t'
  proof -
    have "i \<noteq> 2 ^ 30" using that lowbit_exp [of 1 30] by auto
    then have lt: "i < 2 ^ 30" using less.prems(2) by simp
    then have "(2::nat) ^ k < 2 ^ 30" using lowbit_bounds [OF less.prems(1)] l by linarith
    then have "k < 30" by (rule power_less_imp_less_exp [rotated]) simp
    then have "(2::nat) ^ k dvd 2 ^ 30" by (intro le_imp_power_dvd) simp
    then have "i + lowbit i \<le> 2 ^ 30" using mult_less_step [of "2 ^ k" i "2 ^ 30"] i l lt by simp
    moreover have "2 ^ 30 - (i + lowbit i) < 2 ^ 30 - i"
      using lowbit_bounds [OF less.prems(1)] lt by (intro diff_less_mono2) auto
    ultimately show ?thesis using less.hyps [of "i + lowbit i" t'] less.prems(1) by simp
  qed
  then show ?case using idx
    by (subst update_loop.simps) (auto simp: bind_eq_None_conv guard_def split: option.splits)
qed

lemma fwTreeUpdate_overflow:
  assumes "fw_repr ft xs" and "length xs = 2 ^ 30" and "p < length xs"
  shows "fwTreeUpdate ft (int p) d = None"
proof -
  have "fwTreeUpdate ft (int p) d = Option.bind (update_loop (2 ^ 30) d (ft_tree ft) (int (p + 1)))
      (\<lambda>t. Some (ft\<lparr>ft_tree := t, ft_total := ft_total ft + word_of_int d\<rparr>))"
    using assms by (simp add: fwTreeUpdate_def fw_repr_def add.commute)
  then show ?thesis using update_loop_overflow [of "p + 1" d "ft_tree ft"] assms by simp
qed

section \<open>Searches\<close>

text \<open>
  With \<open>k\<close> bits left, the position found so far is a multiple of \<open>2 ^ k\<close> and the target lies among
  the next \<open>2 ^ k\<close> counts.
\<close>

lemma find_loop_ok:
  assumes repr: "fw_repr ft xs"
    and "2 ^ k dvd r" and "r + 2 ^ k \<le> length xs"
    and "sum_list (take r xs) + unat t = g" and "0 < unat t" and "g \<le> sum_list (take (r + 2 ^ k) xs)"
  shows "\<exists>q. find_loop k (ft_tree ft) (int r) t = Some (int q) \<and> q < length xs
    \<and> sum_list (take q xs) < g \<and> g \<le> sum_list (take (q + 1) xs)"
  using assms(2-)
proof (induction k arbitrary: r t)
  case 0
  then show ?case by auto
next
  case (Suc k)
  let ?c = "r + 2 ^ k"
  obtain m where m: "r = 2 ^ Suc k * m" using Suc.prems(1) by blast
  then have c: "?c = 2 ^ k * (2 * m + 1)" by (simp add: algebra_simps)
  have low: "lowbit ?c = 2 ^ k" unfolding c by (intro lowbit_exp) simp
  have le: "0 < ?c" "?c \<le> length xs" "?c < length (ft_tree ft)"
    using Suc.prems(2) repr by (auto simp: fw_repr_def)
  have w: "unat (ft_tree ft ! ?c) = node_sum xs ?c" using repr le by (simp add: fw_repr_def)
  have split: "sum_list (take r xs) + node_sum xs ?c = sum_list (take ?c xs)"
    using node_sum_split [OF le(1,2)] low by simp
  have nd: "node (ft_tree ft) (int r + 2 ^ k) = Some (ft_tree ft ! ?c)"
    using node_nat [OF le(3)] by simp
  have dvd: "2 ^ k dvd r" "2 ^ k dvd ?c" using m c by simp_all
  show ?case
  proof (cases "ft_tree ft ! ?c < t")
    case True
    then have "unat (t - ft_tree ft ! ?c) = unat t - node_sum xs ?c" "node_sum xs ?c < unat t"
      using w by (simp_all add: unat_sub less_imp_le word_less_nat_alt)
    then have "\<exists>q. find_loop k (ft_tree ft) (int ?c) (t - ft_tree ft ! ?c) = Some (int q) \<and> q < length xs
        \<and> sum_list (take q xs) < g \<and> g \<le> sum_list (take (q + 1) xs)"
      using Suc.prems split dvd(2) by (intro Suc.IH) (simp_all add: add.assoc mult_2)
    then show ?thesis using True nd by simp
  next
    case False
    then have "unat t \<le> node_sum xs ?c" using w by (simp add: not_less word_le_nat_alt)
    then have "\<exists>q. find_loop k (ft_tree ft) (int r) t = Some (int q) \<and> q < length xs
        \<and> sum_list (take q xs) < g \<and> g \<le> sum_list (take (q + 1) xs)"
      using Suc.prems split dvd(1) le by (intro Suc.IH) simp_all
    then show ?thesis using False nd by simp
  qed
qed

lemma fwTreeFindIndex_ok:
  assumes repr: "fw_repr ft xs" and t: "0 < unat t" "unat t \<le> sum_list xs"
  shows "\<exists>q. fwTreeFindIndex ft t = Some (int q) \<and> q < length xs
    \<and> sum_list (take q xs) < unat t \<and> unat t \<le> sum_list (take (q + 1) xs)"
proof -
  let ?b = "ft_size_bits ft"
  have len: "length xs = 2 ^ ?b" using repr by (simp add: fw_repr_def)
  have "lowbit (2 ^ ?b) = 2 ^ ?b" using lowbit_exp [of 1 ?b] by simp
  then have "unat (ft_tree ft ! (2 ^ ?b)) = sum_list xs"
    using repr len by (simp add: fw_repr_def node_sum_def)
  then have "\<not> ft_tree ft ! (2 ^ ?b) < t" using t(2) by (simp add: word_less_nat_alt)
  moreover have "node (ft_tree ft) (2 ^ ?b) = Some (ft_tree ft ! (2 ^ ?b))"
    using node_nat [of "2 ^ ?b" "ft_tree ft"] repr len by (simp add: fw_repr_def)
  moreover have "t \<noteq> 0" using t(1) by auto
  ultimately have "fwTreeFindIndex ft t = find_loop ?b (ft_tree ft) (int 0) t"
    by (simp add: fwTreeFindIndex_def)
  then show ?thesis
    using find_loop_ok [OF repr, of ?b 0 t "unat t"] t len by simp
qed

text \<open>The position where the running sum first passes a bound is the next non-zero count.\<close>

lemma next_nonzero:
  assumes "p < length xs" and "q < length (xs :: nat list)"
    and "sum_list (take q xs) < sum_list (take (p + 1) xs) + 1"
    and "sum_list (take (p + 1) xs) + 1 \<le> sum_list (take (q + 1) xs)"
  shows "p < q \<and> xs ! q \<noteq> 0 \<and> (\<forall>j. p < j \<and> j < q \<longrightarrow> xs ! j = 0)"
proof -
  have mono: "sum_list (take a xs) \<le> sum_list (take b xs)" if "a \<le> b" for a b
    by (metis le_add1 le_add_diff_inverse sum_list_append take_add that)
  have pq: "p < q" using mono [of "q + 1" "p + 1"] assms(4) by (cases "p < q") auto
  have step: "sum_list (take (j + 1) xs) = sum_list (take j xs) + xs ! j" if "j < length xs" for j
    using that by (simp add: take_Suc_conv_app_nth)
  have "xs ! j = 0" if "p < j" "j < q" for j
    using mono [of "p + 1" j] mono [of "j + 1" q] step [of j] that assms(2,3) by simp
  moreover have "xs ! q \<noteq> 0" using step [OF assms(2)] assms(3,4) by simp
  ultimately show ?thesis using pq by blast
qed

lemma fwTreeFindNextNonEmpty_ok:
  assumes repr: "fw_repr ft xs" and p: "p < length xs"
  shows "(\<exists>q. fwTreeFindNextNonEmpty ft (int p) = Some (int q) \<and> p < q \<and> q < length xs
      \<and> xs ! q \<noteq> 0 \<and> (\<forall>j. p < j \<and> j < q \<longrightarrow> xs ! j = 0))
    \<or> fwTreeFindNextNonEmpty ft (int p) = Some (-1) \<and> (\<forall>j. p < j \<and> j < length xs \<longrightarrow> xs ! j = 0)"
proof -
  obtain w where w: "fwTreePrefixSum ft (int p) = Some w" "unat w = sum_list (take (p + 1) xs)"
    using fwTreePrefixSum_ok [OF repr, of "int p"] by (auto simp: nat_add_distrib)
  have tot: "unat (ft_total ft) = sum_list xs" "sum_list xs + 1 < 2 ^ 64" "ft_size ft = int (length xs)"
    using repr by (auto simp: fw_repr_def)
  have split: "sum_list xs = sum_list (take (p + 1) xs) + sum_list (drop (p + 1) xs)"
    by (metis append_take_drop_id sum_list_append)
  have next_sum: "unat (w + 1) = unat w + 1" if "unat w + 1 < 2 ^ 64"
    using that by (simp add: unat_word_ariths)
  have dflt: "fwTreeFindNextNonEmpty ft (int p) =
      (if w + 1 \<le> ft_total ft then fwTreeFindIndex ft (w + 1) else Some (-1))"
    using p w tot(3) by (simp add: fwTreeFindNextNonEmpty_def Let_def)
  show ?thesis
  proof (cases "sum_list (drop (p + 1) xs) = 0")
    case True
    have "xs ! j = 0" if "p < j" "j < length xs" for j
    proof -
      have "drop (p + 1) xs ! (j - (p + 1)) = 0" using True that
        by (metis (no_types, lifting) Suc_eq_plus1 Suc_leI diff_less_mono length_drop nth_mem
            sum_list_eq_0_iff)
      then show ?thesis using that by simp
    qed
    moreover have s: "unat w = sum_list xs" using True split w(2) by simp
    then have "unat (w + 1) = sum_list xs + 1" using next_sum tot(2) by simp
    then have "\<not> w + 1 \<le> ft_total ft" using tot(1) by (simp add: word_le_nat_alt)
    ultimately show ?thesis using dflt by auto
  next
    case False
    then have s: "unat w + 1 \<le> sum_list xs" using split w(2) by linarith
    then have n: "unat (w + 1) = unat w + 1" using next_sum tot(2) by simp
    then have "w + 1 \<le> ft_total ft" using s tot by (simp add: word_le_nat_alt)
    moreover obtain q where "fwTreeFindIndex ft (w + 1) = Some (int q)" "q < length xs"
      "sum_list (take q xs) < unat w + 1" "unat w + 1 \<le> sum_list (take (q + 1) xs)"
      using fwTreeFindIndex_ok [OF repr, of "w + 1"] n s by auto
    ultimately show ?thesis
      using next_nonzero [OF p, of q] dflt w(2) by auto
  qed
qed

section \<open>Creation and the empty tree\<close>

lemma sum_list_replicate0 [simp]: "sum_list (replicate n (0 :: nat)) = 0"
  by (simp add: sum_list_replicate)

lemma node_sum_replicate0 [simp]: "node_sum (replicate n 0) i = 0"
  by (simp add: node_sum_def drop_replicate take_replicate)

lemma fwTreeCreate_ok:
  "b \<le> 30 \<Longrightarrow> \<exists>ft. fwTreeCreate (int b) = Some ft \<and> fw_repr ft (replicate (2 ^ b) 0)"
  by (simp add: fw_repr_def fwTreeCreate_def nth_append del: replicate.simps)

lemma fwTreeClear_ok: "fw_repr ft xs \<Longrightarrow> fw_repr (fwTreeClear ft) (replicate (length xs) 0)"
  by (auto simp: fw_repr_def fwTreeClear_def nat_power_eq simp del: replicate.simps)

text \<open>The search for the first non-empty slot of an empty tree reads past the end of the array.\<close>

lemma fwTreeFindFirstNonEmpty_empty:
  assumes "fw_repr ft (replicate (2 ^ Suc b) 0)"
  shows "fwTreeFindFirstNonEmpty ft = None"
proof -
  have bits: "ft_size_bits ft = Suc b" and len: "length (ft_tree ft) = 2 ^ Suc b + 1"
    and root: "unat (ft_tree ft ! (2 ^ Suc b)) = 0"
    using assms power_inject_exp [of "2 :: nat" "Suc b" "ft_size_bits ft"]
    by (auto simp: fw_repr_def simp del: power_Suc)
  have "ft_tree ft ! (2 ^ Suc b) = 0" using root by (simp only: unat_eq_0)
  moreover have "node (ft_tree ft) (2 ^ Suc b) = Some (ft_tree ft ! (2 ^ Suc b))"
    using node_nat [of "2 ^ Suc b" "ft_tree ft"] len by simp
  moreover have "node (ft_tree ft) (2 ^ Suc b + 2 ^ b) = None"
    by (simp add: node_def len nat_add_distrib nat_mult_distrib nat_power_eq)
  ultimately show ?thesis
    by (simp add: fwTreeFindFirstNonEmpty_def fwTreeFindIndex_def bits)
qed

section \<open>Properties\<close>

text \<open>
  C31. Adding a delta to one count of a tree that represents a list of fewer than \<open>2 ^ 30\<close> counts
  fails no assertion, overflows no int and touches no memory outside the array, as long as the
  delta is a long long other than the least one, that count does not become negative and the total
  stays below the largest 64-bit number. The result represents the updated list, and every
  prefix sum it answers, for any index, is the sum of the counts up to that index.
\<close>

theorem fwtree_update_refines:
  assumes "fw_repr ft xs" and "p < length xs"
    and "0 \<le> int (xs ! p) + d" and "int (sum_list xs) + d + 1 < 2 ^ 64"
    and "length xs < 2 ^ 30" and "- (2 ^ 63) < d" and "d < 2 ^ 63"
  shows "\<exists>ft'. fwTreeUpdate ft (int p) d = Some ft' \<and> fw_repr ft' (xs[p := nat (int (xs ! p) + d)])
    \<and> (\<forall>idx. \<exists>w. fwTreePrefixSum ft' idx = Some w
        \<and> unat w = sum_list (take (nat (idx + 1)) (xs[p := nat (int (xs ! p) + d)])))"
  using fwTreeUpdate_ok [OF assms(1-6)] fwTreePrefixSum_ok by blast

text \<open>Eight counts; slot 2 goes from 0 to 5.\<close>

theorem fwtree_update_refines_witness:
  "\<exists>ft ft'. fwTreeCreate 3 = Some ft \<and> fwTreeUpdate ft 2 5 = Some ft'
    \<and> fw_repr ft' [0, 0, 5, 0, 0, 0, 0, 0]
    \<and> (\<exists>w. fwTreePrefixSum ft' 6 = Some w \<and> unat w = 5)"
proof -
  have r: "replicate (2 ^ 3) 0 = [0, 0, 0, 0, 0, 0, 0, 0 :: nat]" by (simp add: numeral_eq_Suc)
  have u: "[0, 0, 0, 0, 0, 0, 0, 0 :: nat][2 := nat (int ([0, 0, 0, 0, 0, 0, 0, 0 :: nat] ! 2) + 5)]
    = [0, 0, 5, 0, 0, 0, 0, 0]" by (simp add: numeral_2_eq_2)
  obtain ft where ft: "fwTreeCreate 3 = Some ft" "fw_repr ft [0, 0, 0, 0, 0, 0, 0, 0]"
    using fwTreeCreate_ok [of 3, unfolded r] by auto
  obtain ft' where "fwTreeUpdate ft (int 2) 5 = Some ft'"
    "fw_repr ft' [0, 0, 5, 0, 0, 0, 0, 0]"
    "\<forall>idx. \<exists>w. fwTreePrefixSum ft' idx = Some w
        \<and> unat w = sum_list (take (nat (idx + 1)) [0, 0, 5, 0, 0, 0, 0, 0])"
    using fwtree_update_refines [OF ft(2), of 2 5, unfolded u] by auto
  moreover from this(3) have "\<exists>w. fwTreePrefixSum ft' 6 = Some w \<and> unat w = 5"
    by (elim allE [of _ 6]) simp
  ultimately show ?thesis using ft(1) by auto
qed

text \<open>
  C32. Searching a represented list of counts for a target between 1 and the total finds the
  position at which the running sum reaches the target; asking for the next non-empty position
  after a valid index finds the first later non-zero count, or answers -1 if there is none.
\<close>

theorem fwtree_search:
  assumes "fw_repr ft xs" and "p < length xs" and "0 < unat t" and "unat t \<le> sum_list xs"
  shows "(\<exists>q. fwTreeFindIndex ft t = Some (int q) \<and> q < length xs
      \<and> sum_list (take q xs) < unat t \<and> unat t \<le> sum_list (take (q + 1) xs))
    \<and> ((\<exists>q. fwTreeFindNextNonEmpty ft (int p) = Some (int q) \<and> p < q \<and> q < length xs
        \<and> xs ! q \<noteq> 0 \<and> (\<forall>j. p < j \<and> j < q \<longrightarrow> xs ! j = 0))
      \<or> fwTreeFindNextNonEmpty ft (int p) = Some (-1) \<and> (\<forall>j. p < j \<and> j < length xs \<longrightarrow> xs ! j = 0))"
  using fwTreeFindIndex_ok [OF assms(1,3,4)] fwTreeFindNextNonEmpty_ok [OF assms(1,2)] by blast

text \<open>A tree of four counts, built by hand.\<close>

definition sample_tree :: fenwickTree where
  "sample_tree = \<lparr>ft_tree = [0, 5, 5, 3, 10], ft_size_bits = 2, ft_size = 4, ft_total = 10\<rparr>"

lemma sample_tree_repr: "fw_repr sample_tree [5, 0, 3, 2]"
proof -
  have "lowbit 1 = 1" "lowbit 2 = 2" "lowbit 3 = 1" "lowbit 4 = 4"
    using lowbit_exp [of 1 0] lowbit_exp [of 1 1] lowbit_exp [of 3 0] lowbit_exp [of 1 2] by simp_all
  then have "unat (ft_tree sample_tree ! i) = node_sum [5, 0, 3, 2] i" if "i \<in> {1, 2, 3, 4}" for i
    using that by (auto simp: sample_tree_def node_sum_def)
  moreover have "i \<in> {1, 2, 3, 4}" if "0 < i" "i \<le> length [5, 0, 3, 2 :: nat]" for i
    using that by auto
  ultimately have "\<forall>i. 0 < i \<and> i \<le> length [5, 0, 3, 2 :: nat] \<longrightarrow>
      unat (ft_tree sample_tree ! i) = node_sum [5, 0, 3, 2] i" by blast
  moreover have "ft_size_bits sample_tree \<le> 30" "length [5, 0, 3, 2 :: nat] = 2 ^ ft_size_bits sample_tree"
    "ft_size sample_tree = int (length [5, 0, 3, 2 :: nat])"
    "length (ft_tree sample_tree) = length [5, 0, 3, 2 :: nat] + 1"
    "sum_list [5, 0, 3, 2 :: nat] + 1 < 2 ^ 64" "unat (ft_total sample_tree) = sum_list [5, 0, 3, 2]"
    by (simp_all add: sample_tree_def)
  ultimately show ?thesis unfolding fw_repr_def by blast
qed

theorem fwtree_search_witness:
  "fw_repr sample_tree [5, 0, 3, 2] \<and> fwTreeFindIndex sample_tree 6 = Some 2
    \<and> fwTreeFindNextNonEmpty sample_tree 0 = Some 2"
proof -
  have i: "fwTreeFindIndex sample_tree 6 = Some 2" and n: "fwTreeFindNextNonEmpty sample_tree 0 = Some 2"
    by code_simp+
  show ?thesis
    using fwtree_search [OF sample_tree_repr, of 0 6] sample_tree_repr i n by blast
qed

end
