(* ===== verification/Bitops.thy ===== *)
theory Bitops
  imports Util_Num Bits_Base
begin

text \<open>
  Bitmaps (bitops.c): counting bits, finding the first bit, integers of arbitrary width at
  arbitrary bit offsets, their overflow rules, and the BITFIELD and SETBIT/GETBIT commands on top
  of them. A string value is its list of bytes; the address of its first byte is an argument
  where the code looks at alignment. \<open>uint64_t\<close> values are 64-bit words, \<open>int64_t\<close> values are
  integers wrapped with \<open>s64\<close>. The database around the commands is left out: a command gets the
  value at the key and returns the new value and its replies.
\<close>

unbundle bit_operations_syntax

definition s64 :: "int \<Rightarrow> int" where
  "s64 x = (x + 2 ^ 63) mod 2 ^ 64 - 2 ^ 63"

section \<open>Counting bits\<close>

definition B2 :: "nat \<Rightarrow> nat list" where "B2 n = [n, n + 1, n + 1, n + 2]"
definition B4 :: "nat \<Rightarrow> nat list" where "B4 n = B2 n @ B2 (n + 1) @ B2 (n + 1) @ B2 (n + 2)"
definition B6 :: "nat \<Rightarrow> nat list" where "B6 n = B4 n @ B4 (n + 1) @ B4 (n + 1) @ B4 (n + 2)"

definition bitsinbyte :: "nat list" where
  "bitsinbyte = B6 0 @ B6 1 @ B6 1 @ B6 2"

definition count_byte :: "byte \<Rightarrow> int" where
  "count_byte b = int (bitsinbyte ! unat b)"

text \<open>The compiler builtin: the number of one bits of a 64-bit word.\<close>

primrec popcount :: "nat \<Rightarrow> int \<Rightarrow> int" where
  "popcount 0 v = 0"
| "popcount (Suc n) v = v mod 2 + popcount n (v div 2)"

definition popcountll :: "byte list \<Rightarrow> int" where
  "popcountll bs = popcount 64 (le_uint bs)"

text \<open>Bytes up to an alignment; the address of the current byte is \<open>addr + p\<close>.\<close>

fun pop_align :: "int \<Rightarrow> mem \<Rightarrow> int \<Rightarrow> int \<Rightarrow> nat \<Rightarrow> int \<Rightarrow> (int \<times> nat \<times> int) option" where
  "pop_align addr s align p count bits =
     (if (addr + p) AND align \<noteq> 0 \<and> count \<noteq> 0 then do {
        b \<leftarrow> rd s p;
        pop_align addr s align (p + 1) (count - 1) (bits + count_byte b) }
      else Some (p, count, bits))"

fun pop_remain :: "mem \<Rightarrow> int \<Rightarrow> nat \<Rightarrow> int \<Rightarrow> int option" where
  "pop_remain s p count bits =
     (if count = 0 then Some bits
      else do {
        b \<leftarrow> rd s p;
        pop_remain s (p + 1) (count - 1) (bits + count_byte b) })"

text \<open>32 bytes a round with the builtin, in four counters.\<close>

fun pop_popcnt :: "mem \<Rightarrow> int \<Rightarrow> nat \<Rightarrow> int \<times> int \<times> int \<times> int \<Rightarrow>
    (int \<times> nat \<times> int \<times> int \<times> int \<times> int) option" where
  "pop_popcnt s p count (c0, c1, c2, c3) =
     (if count \<ge> 32 then do {
        w0 \<leftarrow> load s p 8;
        w1 \<leftarrow> load s (p + 8) 8;
        w2 \<leftarrow> load s (p + 16) 8;
        w3 \<leftarrow> load s (p + 24) 8;
        pop_popcnt s (p + 32) (count - 32)
          (c0 + popcountll w0, c1 + popcountll w1, c2 + popcountll w2, c3 + popcountll w3) }
      else Some (p, count, c0, c1, c2, c3))"

text \<open>One 32-bit word: sums of two bits, of four bits, of a byte.\<close>

definition swar :: "32 word \<Rightarrow> 32 word" where
  "swar aux = (
     let aux = aux - (drop_bit 1 aux AND 0x55555555);
         aux = (aux AND 0x33333333) + (drop_bit 2 aux AND 0x33333333)
     in (aux + drop_bit 4 aux) AND 0x0F0F0F0F)"

text \<open>28 bytes a round, in seven words.\<close>

definition load32 :: "mem \<Rightarrow> int \<Rightarrow> 32 word option" where
  "load32 s p = map_option (\<lambda>bs. word_of_int (le_uint bs)) (load s p 4)"

fun pop_swar :: "mem \<Rightarrow> int \<Rightarrow> nat \<Rightarrow> int \<Rightarrow> (int \<times> nat \<times> int) option" where
  "pop_swar s p count bits =
     (if count \<ge> 28 then do {
        aux1 \<leftarrow> load32 s p;
        aux2 \<leftarrow> load32 s (p + 4);
        aux3 \<leftarrow> load32 s (p + 8);
        aux4 \<leftarrow> load32 s (p + 12);
        aux5 \<leftarrow> load32 s (p + 16);
        aux6 \<leftarrow> load32 s (p + 20);
        aux7 \<leftarrow> load32 s (p + 24);
        pop_swar s (p + 28) (count - 28)
          (bits + uint (drop_bit 24 ((swar aux1 + swar aux2 + swar aux3 + swar aux4
             + swar aux5 + swar aux6 + swar aux7) * 0x01010101))) }
      else Some (p, count, bits))"

definition redisPopcount :: "bool \<Rightarrow> int \<Rightarrow> mem \<Rightarrow> nat \<Rightarrow> int option" where
  "redisPopcount use_popcnt addr s count = do {
     (p, count, bits) \<leftarrow> pop_align addr s (if use_popcnt then 7 else 3) 0 count 0;
     if use_popcnt then do {
       (p, count, c0, c1, c2, c3) \<leftarrow> pop_popcnt s p count (0, 0, 0, 0);
       pop_remain s p count (bits + (c0 + c1 + c2 + c3)) }
     else do {
       (p, count, bits) \<leftarrow> pop_swar s p count bits;
       pop_remain s p count bits } }"

declare pop_align.simps [simp del] pop_remain.simps [simp del] pop_popcnt.simps [simp del]
  pop_swar.simps [simp del]

section \<open>Finding a bit\<close>

fun bitpos_align :: "int \<Rightarrow> mem \<Rightarrow> byte \<Rightarrow> int \<Rightarrow> nat \<Rightarrow> int \<Rightarrow> (int \<times> nat \<times> int \<times> bool) option" where
  "bitpos_align addr s skipval c count pos =
     (if (addr + c) AND 7 \<noteq> 0 \<and> count \<noteq> 0 then do {
        b \<leftarrow> rd s c;
        if b \<noteq> skipval then Some (c, count, pos, True)
        else bitpos_align addr s skipval (c + 1) (count - 1) (pos + 8) }
      else Some (c, count, pos, False))"

fun bitpos_words :: "mem \<Rightarrow> byte \<Rightarrow> int \<Rightarrow> nat \<Rightarrow> int \<Rightarrow> (int \<times> nat \<times> int) option" where
  "bitpos_words s skipval l count pos =
     (if count \<ge> 8 then do {
        w \<leftarrow> load s l 8;
        if w \<noteq> replicate 8 skipval then Some (l, count, pos)
        else bitpos_words s skipval (l + 8) (count - 8) (pos + 64) }
      else Some (l, count, pos))"

declare bitpos_align.simps [simp del] bitpos_words.simps [simp del]

primrec bitpos_load :: "nat \<Rightarrow> mem \<Rightarrow> int \<Rightarrow> nat \<Rightarrow> 64 word \<Rightarrow> 64 word option" where
  "bitpos_load 0 s c count word = Some word"
| "bitpos_load (Suc j) s c count word =
     (if count \<noteq> 0 then do {
        b \<leftarrow> rd s c;
        bitpos_load j s (c + 1) (count - 1) (push_bit 8 word OR ucast b) }
      else bitpos_load j s c count (push_bit 8 word))"

text \<open>The scan with \<open>one = 2 ^ 63, \<dots>, 2, 1\<close>; running out of bits is the final panic.\<close>

primrec bitpos_scan :: "nat \<Rightarrow> 64 word \<Rightarrow> bool \<Rightarrow> int \<Rightarrow> int option" where
  "bitpos_scan 0 word b pos = None"
| "bitpos_scan (Suc k) word b pos =
     (if (push_bit k 1 AND word \<noteq> 0) = b then Some pos else bitpos_scan k word b (pos + 1))"

definition redisBitpos :: "int \<Rightarrow> mem \<Rightarrow> nat \<Rightarrow> bool \<Rightarrow> int option" where
  "redisBitpos addr s count b = do {
     let skipval = (if b then 0 else 255);
     (c, count, pos, found) \<leftarrow> bitpos_align addr s skipval 0 count 0;
     (l, count, pos) \<leftarrow> (if found then Some (c, count, pos) else bitpos_words s skipval c count pos);
     word \<leftarrow> bitpos_load 8 s l count 0;
     if b \<and> word = 0 then Some (-1) else bitpos_scan 64 word b pos }"

section \<open>Integers at bit offsets\<close>

text \<open>The loop of \<open>setUnsignedBitfield\<close>, on the number of bits left.\<close>

primrec setUnsignedBitfield :: "nat \<Rightarrow> mem \<Rightarrow> nat \<Rightarrow> 64 word \<Rightarrow> mem option" where
  "setUnsignedBitfield 0 p off v = Some p"
| "setUnsignedBitfield (Suc k) p off v = do {
     let bitval = v AND push_bit k 1 \<noteq> 0;
     let bit = 7 - off mod 8;
     b \<leftarrow> rd p (int (off div 8));
     let byteval = (ucast b :: 64 word) AND NOT (push_bit bit 1);
     let byteval = byteval OR push_bit bit (of_bool bitval);
     p \<leftarrow> store p (int (off div 8)) [ucast (byteval AND 0xff)];
     setUnsignedBitfield k p (off + 1) v }"

definition setSignedBitfield :: "nat \<Rightarrow> mem \<Rightarrow> nat \<Rightarrow> int \<Rightarrow> mem option" where
  "setSignedBitfield bits p off v = setUnsignedBitfield bits p off (word_of_int v)"

primrec get_loop :: "nat \<Rightarrow> mem \<Rightarrow> nat \<Rightarrow> 64 word \<Rightarrow> 64 word option" where
  "get_loop 0 p off v = Some v"
| "get_loop (Suc k) p off v = do {
     let bit = 7 - off mod 8;
     b \<leftarrow> rd p (int (off div 8));
     let bitval = drop_bit bit (ucast b :: 64 word) AND 1;
     get_loop k p (off + 1) (push_bit 1 v OR bitval) }"

definition getUnsignedBitfield :: "nat \<Rightarrow> mem \<Rightarrow> nat \<Rightarrow> 64 word option" where
  "getUnsignedBitfield bits p off = get_loop bits p off 0"

definition getSignedBitfield :: "nat \<Rightarrow> mem \<Rightarrow> nat \<Rightarrow> int option" where
  "getSignedBitfield bits p off = do {
     u \<leftarrow> getUnsignedBitfield bits p off;
     Some (if bits < 64 \<and> u AND push_bit (bits - 1) 1 \<noteq> 0
           then sint (u OR push_bit bits (-1)) else sint u) }"

section \<open>Overflow\<close>

datatype owtype = BFOVERFLOW_WRAP | BFOVERFLOW_SAT | BFOVERFLOW_FAIL

text \<open>
  Both checks return the code and what they store through \<open>limit\<close>, which every caller passes.
\<close>

definition checkUnsignedBitfieldOverflow :: "int \<Rightarrow> int \<Rightarrow> nat \<Rightarrow> owtype \<Rightarrow> int \<times> int option" where
  "checkUnsignedBitfieldOverflow v incr bits ow = (
     let mx = (if bits = 64 then 2 ^ 64 - 1 else 2 ^ bits - 1);
         maxincr = s64 (mx - v);
         minincr = s64 (- v);
         wrapped = (1, Some (uint ((word_of_int (v + incr) :: 64 word) AND NOT (push_bit bits (-1)))))
     in
     if v > mx \<or> incr > 0 \<and> incr > maxincr then
       (case ow of BFOVERFLOW_WRAP \<Rightarrow> wrapped | BFOVERFLOW_SAT \<Rightarrow> (1, Some mx)
        | BFOVERFLOW_FAIL \<Rightarrow> (1, None))
     else if incr < 0 \<and> incr < minincr then
       (case ow of BFOVERFLOW_WRAP \<Rightarrow> wrapped | BFOVERFLOW_SAT \<Rightarrow> (-1, Some 0)
        | BFOVERFLOW_FAIL \<Rightarrow> (-1, None))
     else (0, None))"

definition wrap_signed :: "int \<Rightarrow> int \<Rightarrow> nat \<Rightarrow> int" where
  "wrap_signed v incr bits = (
     let msb = push_bit (bits - 1) 1;
         c = word_of_int v + word_of_int incr :: 64 word;
         mask = push_bit bits (-1)
     in sint (if bits < 64 then if c AND msb \<noteq> 0 then c OR mask else c AND NOT mask else c))"

definition checkSignedBitfieldOverflow :: "int \<Rightarrow> int \<Rightarrow> nat \<Rightarrow> owtype \<Rightarrow> int \<times> int option" where
  "checkSignedBitfieldOverflow v incr bits ow = (
     let mx = (if bits = 64 then 2 ^ 63 - 1 else 2 ^ (bits - 1) - 1);
         mn = - mx - 1;
         maxincr = s64 (mx - v);
         minincr = s64 (mn - v);
         wrapped = (1, Some (wrap_signed v incr bits))
     in
     if v > mx \<or> bits \<noteq> 64 \<and> incr > maxincr \<or> v \<ge> 0 \<and> incr > 0 \<and> incr > maxincr then
       (case ow of BFOVERFLOW_WRAP \<Rightarrow> wrapped | BFOVERFLOW_SAT \<Rightarrow> (1, Some mx)
        | BFOVERFLOW_FAIL \<Rightarrow> (1, None))
     else if v < mn \<or> bits \<noteq> 64 \<and> incr < minincr \<or> v < 0 \<and> incr < 0 \<and> incr < minincr then
       (case ow of BFOVERFLOW_WRAP \<Rightarrow> wrapped | BFOVERFLOW_SAT \<Rightarrow> (-1, Some mn)
        | BFOVERFLOW_FAIL \<Rightarrow> (-1, None))
     else (0, None))"

end
