(* ===== verification/Bitops_Command.thy ===== *)
theory Bitops_Command
  imports Bitops
begin

text \<open>
  The commands on bitmaps: the parsing of offsets and types, SETBIT, GETBIT, and BITFIELD with
  its list of operations (bitops.c). Arguments are byte lists; a string value is its bytes, which
  for an integer-encoded string are its decimal digits. \<open>must_obey\<close> is \<open>mustObeyClient(c)\<close> and
  \<open>max_bulk\<close> is \<open>server.proto_max_bulk_len\<close>. Notifications, statistics and the change to the
  database entry itself are left out.
\<close>

unbundle bit_operations_syntax

datatype bit_error = ErrBitOffset | ErrBitValue | ErrType | ErrOverflowType | ErrSyntax | ErrValue
  | ErrReadOnly | ErrWrongType

text \<open>The value at the key: a string, or an object of another type.\<close>

datatype kvobj = OBJ_STRING "byte list" | OBJ_OTHER

datatype bit_reply = ReplyLongLong int | ReplyNull

text \<open>The C string that starts at a byte array: it ends at the first zero.\<close>

definition cstr :: "byte list \<Rightarrow> byte list" where
  "cstr s = takeWhile (\<lambda>c. c \<noteq> 0) s"

record bit_config =
  must_obey :: bool
  max_bulk :: int

definition getBitOffsetFromArgument :: "bit_config \<Rightarrow> byte list \<Rightarrow> bool \<Rightarrow> nat \<Rightarrow> bit_error + nat" where
  "getBitOffsetFromArgument cfg p hash bits = (
     let usehash = (p \<noteq> [] \<and> hd p = 35 \<and> hash \<and> bits > 0) in
     case string2ll (if usehash then tl p else p) of
       None \<Rightarrow> Inl ErrBitOffset
     | Some loffset \<Rightarrow>
         let loffset = (if usehash then s64 (loffset * int bits) else loffset) in
         if loffset < 0 \<or> \<not> must_obey cfg \<and> loffset div 8 \<ge> max_bulk cfg then Inl ErrBitOffset
         else Inr (nat loffset))"

definition getBitfieldTypeFromArgument :: "byte list \<Rightarrow> bit_error + bool \<times> nat" where
  "getBitfieldTypeFromArgument p =
     (if p \<noteq> [] \<and> (hd p = 105 \<or> hd p = 117) then
        let sign = (hd p = 105) in
        case string2ll (cstr (tl p)) of
          None \<Rightarrow> Inl ErrType
        | Some llbits \<Rightarrow>
            if llbits < 1 \<or> sign \<and> llbits > 64 \<or> \<not> sign \<and> llbits > 63 then Inl ErrType
            else Inr (sign, nat llbits)
      else Inl ErrType)"

definition sdsgrowzero :: "byte list \<Rightarrow> nat \<Rightarrow> byte list" where
  "sdsgrowzero s len = (if len \<le> length s then s else s @ replicate (len - length s) 0)"

text \<open>The string to write to, its old size and by how much it grew.\<close>

definition lookupStringForBitCommand :: "kvobj option \<Rightarrow> nat \<Rightarrow> bit_error + byte list \<times> nat \<times> nat" where
  "lookupStringForBitCommand o1 maxbit = (
     let byte = maxbit div 8 in
     case o1 of
       Some OBJ_OTHER \<Rightarrow> Inl ErrWrongType
     | None \<Rightarrow> Inr (replicate (byte + 1) 0, 0, byte + 1)
     | Some (OBJ_STRING s) \<Rightarrow>
         let s' = sdsgrowzero s (byte + 1) in Inr (s', length s, length s' - length s))"

section \<open>SETBIT and GETBIT\<close>

text \<open>The new value, whether it counts as a change, and the old bit; \<open>on\<close> is the third argument.\<close>

definition setbitCommand ::
  "bit_config \<Rightarrow> kvobj option \<Rightarrow> byte list \<Rightarrow> byte list \<Rightarrow> (bit_error + byte list \<times> bool \<times> bool) option" where
  "setbitCommand cfg o1 offset on =
     (case getBitOffsetFromArgument cfg offset False 0 of
        Inl e \<Rightarrow> Some (Inl e)
      | Inr bitoffset \<Rightarrow>
        (case string2ll on of
           None \<Rightarrow> Some (Inl ErrBitValue)
         | Some on \<Rightarrow>
           if on AND NOT 1 \<noteq> 0 then Some (Inl ErrBitValue)
           else
             (case lookupStringForBitCommand o1 bitoffset of
                Inl e \<Rightarrow> Some (Inl e)
              | Inr (s, strOldSize, strGrowSize) \<Rightarrow> do {
                  let byte = int (bitoffset div 8);
                  byteval \<leftarrow> rd s byte;
                  let bit = 7 - bitoffset mod 8;
                  let bitval = byteval AND push_bit bit 1 \<noteq> 0;
                  if strGrowSize \<noteq> 0 \<or> bitval \<noteq> (on = 1) then do {
                    let byteval = byteval AND NOT (push_bit bit 1);
                    let byteval = byteval OR push_bit bit (word_of_int (on AND 1));
                    s \<leftarrow> store s byte [byteval];
                    Some (Inr (s, True, bitval)) }
                  else Some (Inr (s, False, bitval)) })))"

definition getbitCommand :: "bit_config \<Rightarrow> kvobj option \<Rightarrow> byte list \<Rightarrow> (bit_error + bool) option" where
  "getbitCommand cfg kv offset =
     (case getBitOffsetFromArgument cfg offset False 0 of
        Inl e \<Rightarrow> Some (Inl e)
      | Inr bitoffset \<Rightarrow>
        (case kv of
           None \<Rightarrow> Some (Inr False)
         | Some OBJ_OTHER \<Rightarrow> Some (Inl ErrWrongType)
         | Some (OBJ_STRING s) \<Rightarrow>
             if bitoffset div 8 < length s then do {
               byteval \<leftarrow> rd s (int (bitoffset div 8));
               Some (Inr (byteval AND push_bit (7 - bitoffset mod 8) 1 \<noteq> 0)) }
             else Some (Inr False)))"

section \<open>BITFIELD\<close>

datatype bitfield_opcode = BITFIELDOP_GET | BITFIELDOP_SET | BITFIELDOP_INCRBY

record bitfieldOp =
  op_offset :: nat
  op_i64 :: int
  op_opcode :: bitfield_opcode
  op_owtype :: owtype
  op_bits :: nat
  op_sign :: bool

record bitfield_plan =
  pl_ops :: "bitfieldOp list"
  pl_readonly :: bool
  pl_highest :: nat

text \<open>The arguments of one operation after its name.\<close>

definition bitfield_op ::
  "bit_config \<Rightarrow> bitfield_opcode \<Rightarrow> owtype \<Rightarrow> byte list list \<Rightarrow> bitfield_plan \<Rightarrow> bit_error + bitfield_plan" where
  "bitfield_op cfg opcode ow args pl =
     (case getBitfieldTypeFromArgument (args ! 0) of
        Inl e \<Rightarrow> Inl e
      | Inr (sign, bits) \<Rightarrow>
        (case getBitOffsetFromArgument cfg (args ! 1) True bits of
           Inl e \<Rightarrow> Inl e
         | Inr bitoffset \<Rightarrow>
           let thisop = (\<lambda>i64. \<lparr>op_offset = bitoffset, op_i64 = i64, op_opcode = opcode,
             op_owtype = ow, op_bits = bits, op_sign = sign\<rparr>) in
           if opcode \<noteq> BITFIELDOP_GET then
             (case string2ll (args ! 2) of
                None \<Rightarrow> Inl ErrValue
              | Some i64 \<Rightarrow>
                  Inr (pl\<lparr>pl_ops := pl_ops pl @ [thisop i64], pl_readonly := False,
                    pl_highest := max (pl_highest pl) (bitoffset + bits - 1)\<rparr>))
           else Inr (pl\<lparr>pl_ops := pl_ops pl @ [thisop 0]\<rparr>)))"

definition parse_owtype :: "byte list \<Rightarrow> owtype option" where
  "parse_owtype s =
     (if strcasecmp_eq (cstr s) (map of_char ''wrap'') then Some BFOVERFLOW_WRAP
      else if strcasecmp_eq (cstr s) (map of_char ''sat'') then Some BFOVERFLOW_SAT
      else if strcasecmp_eq (cstr s) (map of_char ''fail'') then Some BFOVERFLOW_FAIL
      else None)"

function bitfield_parse ::
  "bit_config \<Rightarrow> byte list list \<Rightarrow> owtype \<Rightarrow> bitfield_plan \<Rightarrow> bit_error + bitfield_plan" where
  "bitfield_parse cfg [] ow pl = Inr pl"
| "bitfield_parse cfg (subcmd # args) ow pl =
     (if strcasecmp_eq (cstr subcmd) (map of_char ''get'') \<and> length args \<ge> 2 then
        (case bitfield_op cfg BITFIELDOP_GET ow args pl of
           Inl e \<Rightarrow> Inl e | Inr pl \<Rightarrow> bitfield_parse cfg (drop 2 args) ow pl)
      else if strcasecmp_eq (cstr subcmd) (map of_char ''set'') \<and> length args \<ge> 3 then
        (case bitfield_op cfg BITFIELDOP_SET ow args pl of
           Inl e \<Rightarrow> Inl e | Inr pl \<Rightarrow> bitfield_parse cfg (drop 3 args) ow pl)
      else if strcasecmp_eq (cstr subcmd) (map of_char ''incrby'') \<and> length args \<ge> 3 then
        (case bitfield_op cfg BITFIELDOP_INCRBY ow args pl of
           Inl e \<Rightarrow> Inl e | Inr pl \<Rightarrow> bitfield_parse cfg (drop 3 args) ow pl)
      else if strcasecmp_eq (cstr subcmd) (map of_char ''overflow'') \<and> length args \<ge> 1 then
        (case parse_owtype (hd args) of
           None \<Rightarrow> Inl ErrOverflowType
         | Some ow \<Rightarrow> bitfield_parse cfg (drop 1 args) ow pl)
      else Inl ErrSyntax)"
  by pat_completeness auto
termination
  by (relation "measure (\<lambda>(cfg, args, ow, pl). length args)") auto

text \<open>
  SET and INCRBY. \<open>wrapped\<close> is the variable the overflow check stores to: zero at first in the
  unsigned branch, indeterminate in the signed one, where the model takes zero as well; with
  FAIL it is never used.
\<close>

definition bitfield_write :: "bitfieldOp \<Rightarrow> mem \<Rightarrow> nat \<Rightarrow> (mem \<times> bit_reply \<times> nat) option" where
  "bitfield_write thisop s strGrowSize =
     (let off = op_offset thisop; bits = op_bits thisop; i64 = op_i64 thisop; ow = op_owtype thisop in
      if op_sign thisop then do {
        oldval \<leftarrow> getSignedBitfield bits s off;
        let (overflow, wrapped) =
          (if op_opcode thisop = BITFIELDOP_INCRBY then checkSignedBitfieldOverflow oldval i64 bits ow
           else checkSignedBitfieldOverflow i64 0 bits ow);
        let wrapped = case_option 0 id wrapped;
        let newval = (if overflow \<noteq> 0 then wrapped
          else if op_opcode thisop = BITFIELDOP_INCRBY then oldval + i64 else i64);
        let retval = (if op_opcode thisop = BITFIELDOP_INCRBY then newval else oldval);
        if \<not> (overflow \<noteq> 0 \<and> ow = BFOVERFLOW_FAIL) then do {
          s \<leftarrow> setSignedBitfield bits s off newval;
          Some (s, ReplyLongLong retval, if strGrowSize \<noteq> 0 \<or> oldval \<noteq> newval then 1 else 0) }
        else Some (s, ReplyNull, 0) }
      else do {
        w \<leftarrow> getUnsignedBitfield bits s off;
        let oldval = uint w;
        let (overflow, wrapped) =
          (if op_opcode thisop = BITFIELDOP_INCRBY then checkUnsignedBitfieldOverflow oldval i64 bits ow
           else checkUnsignedBitfieldOverflow (u64 i64) 0 bits ow);
        let wrapped = case_option 0 id wrapped;
        let newval = (if overflow \<noteq> 0 then wrapped
          else if op_opcode thisop = BITFIELDOP_INCRBY then u64 (oldval + i64) else u64 i64);
        let retval = (if op_opcode thisop = BITFIELDOP_INCRBY then newval else oldval);
        if \<not> (overflow \<noteq> 0 \<and> ow = BFOVERFLOW_FAIL) then do {
          s \<leftarrow> setUnsignedBitfield bits s off (word_of_int newval);
          Some (s, ReplyLongLong (s64 retval), if strGrowSize \<noteq> 0 \<or> oldval \<noteq> newval then 1 else 0) }
        else Some (s, ReplyNull, 0) })"

text \<open>GET copies up to nine bytes into a zeroed buffer and reads the field there.\<close>

definition get_buffer :: "byte list \<Rightarrow> nat \<Rightarrow> byte list" where
  "get_buffer src byte = (let bs = take 9 (drop byte src) in bs @ replicate (9 - length bs) 0)"

definition bitfield_get :: "bitfieldOp \<Rightarrow> byte list \<Rightarrow> bit_reply option" where
  "bitfield_get thisop src = (
     let byte = op_offset thisop div 8;
         buf = get_buffer src byte;
         off = op_offset thisop - byte * 8 in
     if op_sign thisop then map_option ReplyLongLong (getSignedBitfield (op_bits thisop) buf off)
     else map_option (\<lambda>w. ReplyLongLong (s64 (uint w))) (getUnsignedBitfield (op_bits thisop) buf off))"

primrec bitfield_exec ::
  "bitfieldOp list \<Rightarrow> nat \<Rightarrow> byte list \<Rightarrow> bit_reply list \<Rightarrow> nat \<Rightarrow> (byte list \<times> bit_reply list \<times> nat) option" where
  "bitfield_exec [] strGrowSize s replies changes = Some (s, replies, changes)"
| "bitfield_exec (thisop # ops) strGrowSize s replies changes =
     (if op_opcode thisop = BITFIELDOP_GET then do {
        r \<leftarrow> bitfield_get thisop s;
        bitfield_exec ops strGrowSize s (replies @ [r]) changes }
      else do {
        (s, r, c) \<leftarrow> bitfield_write thisop s strGrowSize;
        bitfield_exec ops strGrowSize s (replies @ [r]) (changes + c) })"

text \<open>
  The whole command. A read-only plan on a missing key works on no bytes and leaves the key
  missing; otherwise the new value of the key is returned.
\<close>

definition bitfieldGeneric ::
  "bit_config \<Rightarrow> bool \<Rightarrow> kvobj option \<Rightarrow> byte list list \<Rightarrow>
     (bit_error + kvobj option \<times> bit_reply list \<times> nat) option" where
  "bitfieldGeneric cfg ro_flag o1 args =
     (case bitfield_parse cfg args BFOVERFLOW_WRAP \<lparr>pl_ops = [], pl_readonly = True, pl_highest = 0\<rparr> of
        Inl e \<Rightarrow> Some (Inl e)
      | Inr pl \<Rightarrow>
        if pl_readonly pl then
          (case o1 of
             Some OBJ_OTHER \<Rightarrow> Some (Inl ErrWrongType)
           | None \<Rightarrow> do {
               (s, replies, changes) \<leftarrow> bitfield_exec (pl_ops pl) 0 [] [] 0;
               Some (Inr (None, replies, changes)) }
           | Some (OBJ_STRING s) \<Rightarrow> do {
               (s, replies, changes) \<leftarrow> bitfield_exec (pl_ops pl) 0 s [] 0;
               Some (Inr (Some (OBJ_STRING s), replies, changes)) })
        else if ro_flag then Some (Inl ErrReadOnly)
        else
          (case lookupStringForBitCommand o1 (pl_highest pl) of
             Inl e \<Rightarrow> Some (Inl e)
           | Inr (s, strOldSize, strGrowSize) \<Rightarrow> do {
               (s, replies, changes) \<leftarrow> bitfield_exec (pl_ops pl) strGrowSize s [] 0;
               Some (Inr (Some (OBJ_STRING s), replies, changes)) }))"

end
