(* ===== verification/Bitops_Field.thy ===== *)
theory Bitops_Field
  imports Bitops_Command
begin

text \<open>
  Integers inside a bitmap. A bitmap is a sequence of bits, the first one the most significant bit
  of the first byte. Writing a field changes exactly its bits; reading it returns them; the
  overflow checks compute the three overflow policies of BITFIELD.
\<close>

unbundle bit_operations_syntax

section \<open>A bitmap as a sequence of bits\<close>

definition bitmap :: "mem \<Rightarrow> nat \<Rightarrow> bool" where
  "bitmap p i = bit (p ! (i div 8)) (7 - i mod 8)"

lemma bitmap_update_byte:
  assumes "off div 8 < length p" and "i div 8 < length p"
    and "\<And>n. n < 8 \<Longrightarrow> bit b n = (if n = 7 - off mod 8 then v else bit (p ! (off div 8)) n)"
  shows "bitmap (p[off div 8 := b]) i = (if i = off then v else bitmap p i)"
proof (cases "i div 8 = off div 8")
  case False
  then show ?thesis by (auto simp: bitmap_def)
next
  case True
  then have "i = off \<longleftrightarrow> i mod 8 = off mod 8" by (metis div_mult_mod_eq)
  moreover have "i mod 8 < 8" "off mod 8 < 8" by simp_all
  then have "7 - i mod 8 = 7 - off mod 8 \<longleftrightarrow> i mod 8 = off mod 8" by linarith
  moreover have "7 - i mod 8 < 8" by simp
  ultimately show ?thesis
    using True assms(1) assms(3) [of "7 - i mod 8"] by (simp add: bitmap_def)
qed

lemma store_byte: "k < length p \<Longrightarrow> store p (int k) [b] = Some (p[k := b])"
  by (simp add: store_def upd_conv_take_nth_drop Suc_le_eq)

lemma and_push_bit_1: "(w AND push_bit k 1 \<noteq> 0) = bit w k" for w :: "'a::len word"
  by (simp add: push_bit_eq_mult and_exp_eq_0_iff_not_bit)

lemma set_byte_bits:
  fixes b :: byte
  assumes "n < 8" and "j < 8"
  shows "bit (ucast ((((ucast b :: 64 word) AND NOT (push_bit j 1)) OR push_bit j (of_bool v)) AND 0xff) :: byte) n
    = (if n = j then v else bit b n)"
proof -
  have "bit (0xff :: 64 word) n" 
  proof -
    have "bit (mask 8 :: 64 word) n" using assms(1) by (simp only: bit_mask_iff) simp
    then show ?thesis by (simp add: mask_eq_exp_minus_1)
  qed
  then show ?thesis
    using assms
    by (auto simp: bit_and_iff bit_or_iff bit_not_iff bit_push_bit_iff bit_unsigned_iff bit_1_iff bit_of_bool_iff bit_exp_iff)
qed

lemma setUnsignedBitfield_ok:
  assumes "off + k \<le> 8 * length p"
  shows "\<exists>p'. setUnsignedBitfield k p off v = Some p' \<and> length p' = length p
    \<and> (\<forall>i < 8 * length p. bitmap p' i
        = (if off \<le> i \<and> i < off + k then bit v (k - 1 - (i - off)) else bitmap p i))"
  using assms
proof (induction k arbitrary: p off)
  case (Suc k)
  let ?b = "p ! (off div 8)" and ?j = "7 - off mod 8" and ?v = "v AND push_bit k 1 \<noteq> 0"
  define b where "b = (ucast ((((ucast ?b :: 64 word) AND NOT (push_bit ?j 1))
    OR push_bit ?j (of_bool ?v)) AND 0xff) :: byte)"
  have k: "off div 8 < length p" using Suc.prems by (simp add: less_mult_imp_div_less)
  have step: "setUnsignedBitfield (Suc k) p off v = setUnsignedBitfield k (p[off div 8 := b]) (off + 1) v"
    using k by (simp add: Let_def rd_nat store_byte b_def)
  have upd: "bitmap (p[off div 8 := b]) i = (if i = off then bit v k else bitmap p i)"
    if "i < 8 * length p" for i
  proof (rule bitmap_update_byte [OF k])
    show "i div 8 < length p" using that by (simp add: less_mult_imp_div_less)
    show "bit b n = (if n = 7 - off mod 8 then bit v k else bit (p ! (off div 8)) n)"
      if "n < 8" for n
      unfolding b_def using that by (subst set_byte_bits) (auto simp: and_exp_eq_0_iff_not_bit)
  qed
  obtain p' where p': "setUnsignedBitfield k (p[off div 8 := b]) (off + 1) v = Some p'"
    "length p' = length p"
    "\<forall>i < 8 * length p. bitmap p' i = (if off + 1 \<le> i \<and> i < off + 1 + k
        then bit v (k - 1 - (i - (off + 1)))
        else bitmap (p[off div 8 := b]) i)"
    using Suc.IH [of "off + 1" "p[off div 8 := b]"] Suc.prems by auto
  have "bitmap p' i = (if off \<le> i \<and> i < off + Suc k
      then bit v (Suc k - 1 - (i - off)) else bitmap p i)"
    if i: "i < 8 * length p" for i
  proof -
    have "k - 1 - (i - (off + 1)) = Suc k - 1 - (i - off)" if "off + 1 \<le> i" using that by simp
    then show ?thesis using p'(3) upd [OF i] i by auto
  qed
  then show ?case unfolding step using p'(1,2) by blast
qed auto

section \<open>Reading a field\<close>

lemma get_loop_ok:
  assumes "off + k \<le> 8 * length p"
  shows "\<exists>w. get_loop k p off v = Some w
    \<and> (\<forall>n < 64. bit w n = (if n < k then bitmap p (off + k - 1 - n) else bit v (n - k)))"
  using assms
proof (induction k arbitrary: off v)
  case (Suc k)
  let ?b = "p ! (off div 8)" and ?j = "7 - off mod 8"
  define v' where "v' = push_bit 1 v OR (drop_bit ?j (ucast ?b :: 64 word) AND 1)"
  have "off div 8 < length p" using Suc.prems by (simp add: less_mult_imp_div_less)
  then have step: "get_loop (Suc k) p off v = get_loop k p (off + 1) v'"
    by (simp add: Let_def rd_nat v'_def)
  have v': "bit v' n = (if n = 0 then bitmap p off else bit v (n - 1))" if "n < 64" for n
    using that bit_double_iff [of v n, unfolded mult.commute [of 2]]
    by (auto simp: v'_def bit_or_iff bit_and_iff bit_drop_bit_eq bit_1_iff bit_unsigned_iff bitmap_def)
  obtain w where w: "get_loop k p (off + 1) v' = Some w"
    "\<forall>n < 64. bit w n = (if n < k then bitmap p (off + 1 + k - 1 - n) else bit v' (n - k))"
    using Suc.IH [of "off + 1" v'] Suc.prems by auto
  have "bit w n = (if n < Suc k then bitmap p (off + Suc k - 1 - n) else bit v (n - Suc k))"
    if n: "n < 64" for n
    using w(2) n v' [of "n - k"] by (cases n k rule: linorder_cases) auto
  then show ?case unfolding step using w(1) by blast
qed simp

lemma getUnsignedBitfield_ok:
  assumes "off + k \<le> 8 * length p"
  shows "\<exists>w. getUnsignedBitfield k p off = Some w
    \<and> (\<forall>n < 64. bit w n = (n < k \<and> bitmap p (off + k - 1 - n)))"
  using get_loop_ok [OF assms, of 0] by (auto simp: getUnsignedBitfield_def)

lemma get_bound:
  assumes "off + k \<le> 8 * length p" and "k \<le> 64" and "getUnsignedBitfield k p off = Some w"
  shows "take_bit k w = w"
  using getUnsignedBitfield_ok [OF assms(1)] assms(2,3)
  by (intro bit_word_eqI) (auto simp: bit_take_bit_iff)

lemma get_after_set:
  assumes "off + k \<le> 8 * length p" and "k \<le> 64"
  shows "\<exists>p'. setUnsignedBitfield k p off v = Some p' \<and> length p' = length p
    \<and> getUnsignedBitfield k p' off = Some (take_bit k v)
    \<and> (\<forall>i < 8 * length p. i < off \<or> off + k \<le> i \<longrightarrow> bitmap p' i = bitmap p i)"
proof -
  obtain p' where p': "setUnsignedBitfield k p off v = Some p'" "length p' = length p"
    "\<forall>i < 8 * length p. bitmap p' i
        = (if off \<le> i \<and> i < off + k then bit v (k - 1 - (i - off)) else bitmap p i)"
    using setUnsignedBitfield_ok [OF assms(1)] by blast
  obtain w where w: "getUnsignedBitfield k p' off = Some w"
    "\<forall>n < 64. bit w n = (n < k \<and> bitmap p' (off + k - 1 - n))"
    using getUnsignedBitfield_ok [of off k p'] p'(2) assms by auto
  have "bitmap p' (off + k - 1 - n) = bit v n" if "n < k" for n
    using p'(3) that assms by auto
  then have "w = take_bit k v"
    using w(2) assms(2) by (intro bit_word_eqI) (auto simp: bit_take_bit_iff)
  then show ?thesis using p' w by auto
qed

section \<open>Signed fields\<close>

lemma sign_extend:
  fixes w :: "64 word"
  assumes "0 < k" and "k \<le> 64"
  shows "(if k < 64 \<and> w AND push_bit (k - 1) 1 \<noteq> 0 then sint (take_bit k w OR push_bit k (-1))
      else if k < 64 then sint (take_bit k w) else sint w)
    = signed_take_bit (k - 1) (uint w)"
proof (rule bit_eqI)
  fix n
  have m: "min (k - 1) n = (if n < k then n else k - 1)" using assms by auto
  have u: "bit (uint w) m \<longleftrightarrow> m < 64 \<and> bit w m" for m by (simp add: bit_uint_iff)
  show "bit (if k < 64 \<and> w AND push_bit (k - 1) 1 \<noteq> 0 then sint (take_bit k w OR push_bit k (-1))
      else if k < 64 then sint (take_bit k w) else sint w) n
    = bit (signed_take_bit (k - 1) (uint w)) n"
    unfolding bit_signed_take_bit_iff m u using assms bit_imp_le_length [of w n]
    by (auto simp: and_exp_eq_0_iff_not_bit bit_sint_iff bit_or_iff bit_take_bit_iff bit_not_iff
        bit_mask_iff)
qed

lemma getSignedBitfield_ok:
  assumes "off + k \<le> 8 * length p" and "0 < k" and "k \<le> 64" and "getUnsignedBitfield k p off = Some w"
  shows "getSignedBitfield k p off = Some (signed_take_bit (k - 1) (uint w))"
proof -
  have "take_bit k w = w" by (rule get_bound [OF assms(1,3,4)])
  with sign_extend [OF assms(2,3), of w] show ?thesis
    by (simp add: getSignedBitfield_def assms(4) split: if_splits)
qed

end
