(* ===== verification/Bitops_Exec.thy ===== *)
theory Bitops_Exec
  imports Bitops_Field
begin

text \<open>
  The overflow checks against the three policies, one SET or INCRBY against its specification,
  and the whole BITFIELD command: whatever its arguments, every field it touches lies inside the
  string it has made room for.
\<close>

unbundle bit_operations_syntax

section \<open>The policies\<close>

definition field_min :: "bool \<Rightarrow> nat \<Rightarrow> int" where
  "field_min sign k = (if sign then - (2 ^ (k - 1)) else 0)"

definition field_max :: "bool \<Rightarrow> nat \<Rightarrow> int" where
  "field_max sign k = (if sign then 2 ^ (k - 1) - 1 else 2 ^ k - 1)"

definition fits_field :: "bool \<Rightarrow> nat \<Rightarrow> int \<Rightarrow> bool" where
  "fits_field sign k r \<longleftrightarrow> field_min sign k \<le> r \<and> r \<le> field_max sign k"

definition wrap_field :: "bool \<Rightarrow> nat \<Rightarrow> int \<Rightarrow> int" where
  "wrap_field sign k r = (if sign then signed_take_bit (k - 1) r else r mod 2 ^ k)"

text \<open>What a write of \<open>r\<close> stores; \<open>None\<close> is the refusal of FAIL.\<close>

definition bf_result :: "bool \<Rightarrow> nat \<Rightarrow> owtype \<Rightarrow> int \<Rightarrow> int option" where
  "bf_result sign k ow r =
     (if fits_field sign k r then Some r
      else case ow of
        BFOVERFLOW_WRAP \<Rightarrow> Some (wrap_field sign k r)
      | BFOVERFLOW_SAT \<Rightarrow> Some (if r < field_min sign k then field_min sign k else field_max sign k)
      | BFOVERFLOW_FAIL \<Rightarrow> None)"

lemma field_min_le_max: "field_min sign k \<le> field_max sign k"
proof -
  have "(1 :: int) \<le> 2 ^ n" for n by simp
  from this [of k] this [of "k - 1"] show ?thesis by (auto simp: field_min_def field_max_def)
qed

lemma bf_result_fits: "0 < k \<Longrightarrow> bf_result sign k ow r = Some n \<Longrightarrow> fits_field sign k n"
  using field_min_le_max [of sign k]
  by (auto simp: bf_result_def fits_field_def wrap_field_def field_min_def field_max_def
      signed_take_bit_int_greater_eq_minus_exp zle_diff1_eq signed_take_bit_int_less_exp
      split: if_splits owtype.splits)

section \<open>The checks\<close>

lemma s64_id: "- (2 ^ 63) \<le> x \<Longrightarrow> x < 2 ^ 63 \<Longrightarrow> s64 x = x"
  by (simp add: s64_def)

lemma uint_and_low:
  "k \<le> 64 \<Longrightarrow> uint ((word_of_int r :: 64 word) AND NOT (push_bit k (-1))) = r mod 2 ^ k"
  by (simp add: take_bit_eq_mask [symmetric] unsigned_take_bit_eq unsigned_of_int take_bit_eq_mod [symmetric] min_def)

lemma checkUnsigned_ok:
  assumes "k \<le> 63" and "0 \<le> v" and "v < 2 ^ 64" and "v < 2 ^ k \<or> incr = 0"
    and "- (2 ^ 63) \<le> incr" and "incr < 2 ^ 63"
  shows "\<exists>c l. checkUnsignedBitfieldOverflow v incr k ow = (c, l)
    \<and> (c = 0 \<longleftrightarrow> fits_field False k (v + incr)) \<and> (c \<noteq> 0 \<longrightarrow> l = bf_result False k ow (v + incr))"
proof -
  define M :: int where "M = 2 ^ k"
  have M: "1 \<le> M" "M \<le> 2 ^ 63" using assms(1) power_increasing [of k 63 "2 :: int"] by (simp_all add: M_def)
  have k: "k \<noteq> 64" "k \<le> 64" using assms(1) by simp_all
  note defs = checkUnsignedBitfieldOverflow_def bf_result_def fits_field_def field_min_def field_max_def
    wrap_field_def Let_def
  show ?thesis
  proof (cases "v < M")
    case True
    have "s64 (M - 1 - v) = M - 1 - v" "s64 (- v) = - v"
      using True M assms(2) by (auto intro!: s64_id)
    then show ?thesis
      unfolding defs using True k M assms(2) uint_and_low [OF k(2), of "v + incr"]
      by (cases ow) (auto simp: M_def [symmetric])
  next
    case False
    then have "incr = 0" using assms(4) by (simp add: M_def)
    then show ?thesis
      unfolding defs using False k uint_and_low [OF k(2), of v] M
      by (cases ow) (auto simp: M_def [symmetric])
  qed
qed

lemma wrap_signed_eq:
  assumes "0 < k" and "k \<le> 64"
  shows "wrap_signed v incr k = signed_take_bit (k - 1) (v + incr)"
proof -
  define c :: "64 word" where "c = word_of_int (v + incr)"
  have "c OR push_bit k (-1) = take_bit k c OR push_bit k (-1)" "c AND NOT (push_bit k (-1)) = take_bit k c"
    by (auto intro!: bit_word_eqI simp: bit_or_iff bit_and_iff bit_not_iff bit_take_bit_iff bit_mask_iff)
  then have "wrap_signed v incr k = signed_take_bit (k - 1) (uint c)"
    using sign_extend [OF assms, of c] by (auto simp: wrap_signed_def Let_def c_def)
  also have "uint c = take_bit 64 (v + incr)" unfolding c_def by (simp only: uint_word_of_int take_bit_eq_mod) simp
  finally have "wrap_signed v incr k = signed_take_bit (k - 1) (take_bit 64 (v + incr))" .
  moreover have "\<not> 64 \<le> k - 1" using assms by linarith
  ultimately show ?thesis by (simp only: signed_take_bit_take_bit if_False)
qed

lemma checkSigned_ok:
  assumes "0 < k" and "k \<le> 64" and "- (2 ^ 63) \<le> v" and "v < 2 ^ 63"
    and "fits_field True k v \<or> incr = 0 \<and> (ow = BFOVERFLOW_SAT \<longrightarrow> field_max True k - v < 2 ^ 63)"
    and "- (2 ^ 63) \<le> incr" and "incr < 2 ^ 63"
  shows "\<exists>c l. checkSignedBitfieldOverflow v incr k ow = (c, l)
    \<and> (c = 0 \<longleftrightarrow> fits_field True k (v + incr)) \<and> (c \<noteq> 0 \<longrightarrow> l = bf_result True k ow (v + incr))"
proof -
  define M :: int where "M = 2 ^ (k - 1)"
  have M: "1 \<le> M" "M \<le> 2 ^ 63"
    using assms(2) power_increasing [of "k - 1" 63 "2 :: int"] by (simp_all add: M_def)
  have mx: "(if k = 64 then 2 ^ 63 - 1 else 2 ^ (k - 1) - 1) = M - 1" by (simp add: M_def)
  have mn: "- (M - 1) - 1 = - M" by simp
  have mm: "field_min True k = - M" "field_max True k = M - 1"
    by (simp_all add: field_min_def field_max_def M_def)
  have fit: "fits_field True k r \<longleftrightarrow> - M \<le> r \<and> r < M" for r
    by (auto simp: fits_field_def mm)
  have res: "bf_result True k ow r = (if - M \<le> r \<and> r < M then Some r
      else case ow of BFOVERFLOW_WRAP \<Rightarrow> Some (signed_take_bit (k - 1) r)
      | BFOVERFLOW_SAT \<Rightarrow> Some (if r < - M then - M else M - 1) | BFOVERFLOW_FAIL \<Rightarrow> None)" for r
    by (cases ow) (simp_all add: bf_result_def fit wrap_field_def mm)
  have check: "checkSignedBitfieldOverflow v incr k ow =
     (if v > M - 1 \<or> k \<noteq> 64 \<and> incr > s64 (M - 1 - v) \<or> v \<ge> 0 \<and> incr > 0 \<and> incr > s64 (M - 1 - v) then
       (case ow of BFOVERFLOW_WRAP \<Rightarrow> (1, Some (signed_take_bit (k - 1) (v + incr)))
        | BFOVERFLOW_SAT \<Rightarrow> (1, Some (M - 1)) | BFOVERFLOW_FAIL \<Rightarrow> (1, None))
      else if v < - M \<or> k \<noteq> 64 \<and> incr < s64 (- M - v) \<or> v < 0 \<and> incr < 0 \<and> incr < s64 (- M - v) then
       (case ow of BFOVERFLOW_WRAP \<Rightarrow> (1, Some (signed_take_bit (k - 1) (v + incr)))
        | BFOVERFLOW_SAT \<Rightarrow> (-1, Some (- M)) | BFOVERFLOW_FAIL \<Rightarrow> (-1, None))
      else (0, None))"
    by (simp only: checkSignedBitfieldOverflow_def Let_def mx mn wrap_signed_eq [OF assms(1,2)])
  consider "\<not> (- M \<le> v \<and> v < M)" "incr = 0" "ow = BFOVERFLOW_SAT \<longrightarrow> M - 1 - v < 2 ^ 63" | "- M \<le> v" "v < M" "k \<noteq> 64" | "- M \<le> v" "v < M" "k = 64"
    using assms(5) fit mm by auto
  then show ?thesis
  proof cases
    case 1
    show ?thesis
    proof (cases "M \<le> v")
      case True
      then show ?thesis unfolding check res fit using 1 M by (cases ow) auto
    next
      case False
      then have "ow = BFOVERFLOW_SAT \<Longrightarrow> s64 (M - 1 - v) = M - 1 - v" using 1 M by (intro s64_id) auto
      then show ?thesis unfolding check res fit using 1 False M by (cases ow) auto
    qed
  next
    case 2
    then have "M \<le> 2 ^ 62" using assms(2) power_increasing [of "k - 1" 62 "2 :: int"] by (simp add: M_def)
    then have "s64 (M - 1 - v) = M - 1 - v" "s64 (- M - v) = - M - v"
      using 2 by (auto intro!: s64_id)
    then show ?thesis unfolding check res fit using 2 by (cases ow) auto
  next
    case 3
    then have M63: "M = 2 ^ 63" by (simp add: M_def)
    then have "0 \<le> v \<Longrightarrow> s64 (M - 1 - v) = M - 1 - v" "v < 0 \<Longrightarrow> s64 (- M - v) = - M - v"
      using 3 by (auto intro!: s64_id)
    then show ?thesis unfolding check res fit using 3 M63 assms(6,7) by (cases ow; cases "0 \<le> v") auto
  qed
qed

section \<open>One SET or INCRBY\<close>

text \<open>The value of a field: its bits, or their two's complement reading.\<close>

definition field_value :: "bool \<Rightarrow> nat \<Rightarrow> mem \<Rightarrow> nat \<Rightarrow> int option" where
  "field_value sign k s off =
     (if sign then getSignedBitfield k s off else map_option uint (getUnsignedBitfield k s off))"

definition op_ok :: "bitfieldOp \<Rightarrow> bool" where
  "op_ok thisop \<longleftrightarrow> 0 < op_bits thisop \<and> op_bits thisop \<le> (if op_sign thisop then 64 else 63)
     \<and> - (2 ^ 63) \<le> op_i64 thisop \<and> op_i64 thisop < 2 ^ 63"

text \<open>
  A signed SET with saturation is right only if the distance to the largest value of the field fits
  64 bits; further down the check takes the underflow for an overflow. An unsigned one is right
  only for numbers that are not negative: the check gets the number as an unsigned one.
\<close>

definition sat_in_reach :: "bitfieldOp \<Rightarrow> bool" where
  "sat_in_reach thisop \<longleftrightarrow>
     (op_opcode thisop \<noteq> BITFIELDOP_INCRBY \<and> op_owtype thisop = BFOVERFLOW_SAT \<longrightarrow>
       (if op_sign thisop then field_max True (op_bits thisop) - op_i64 thisop < 2 ^ 63
        else 0 \<le> op_i64 thisop))"

text \<open>The number a write asks for, before the overflow policy.\<close>

definition requested :: "bitfieldOp \<Rightarrow> int \<Rightarrow> int" where
  "requested thisop old =
     (if op_opcode thisop = BITFIELDOP_INCRBY then old + op_i64 thisop else op_i64 thisop)"

lemma field_value_ok:
  assumes "off + k \<le> 8 * length s" and "0 < k" and "k \<le> 64"
  shows "\<exists>v. field_value sign k s off = Some v \<and> fits_field sign k v"
proof -
  obtain w where w: "getUnsignedBitfield k s off = Some w"
    using getUnsignedBitfield_ok [OF assms(1)] by blast
  have "uint w < 2 ^ k"
    using get_bound [OF assms(1,3) w] assms(3)
    by (metis take_bit_int_less_exp take_bit_int_eq_self_iff unsigned_take_bit_eq)
  then show ?thesis
    using w getSignedBitfield_ok [OF assms w] assms(2)
    by (auto simp: field_value_def fits_field_def field_min_def field_max_def zle_diff1_eq
        signed_take_bit_int_greater_eq_minus_exp signed_take_bit_int_less_exp)
qed

lemma field_value_set:
  assumes "off + k \<le> 8 * length s" and "0 < k" and "k \<le> 64" and "fits_field sign k n"
  shows "\<exists>s'. setUnsignedBitfield k s off (word_of_int n) = Some s' \<and> length s' = length s
    \<and> field_value sign k s' off = Some n
    \<and> (\<forall>i < 8 * length s. i < off \<or> off + k \<le> i \<longrightarrow> bitmap s' i = bitmap s i)"
proof -
  obtain s' where s': "setUnsignedBitfield k s off (word_of_int n) = Some s'" "length s' = length s"
    "getUnsignedBitfield k s' off = Some (take_bit k (word_of_int n))"
    "\<forall>i < 8 * length s. i < off \<or> off + k \<le> i \<longrightarrow> bitmap s' i = bitmap s i"
    using get_after_set [OF assms(1,3)] by blast
  have u: "uint (take_bit k (word_of_int n) :: 64 word) = take_bit k n"
    using assms(3) by (simp add: unsigned_take_bit_eq unsigned_of_int min_def)
  have "field_value sign k s' off = Some n"
  proof (cases sign)
    case True
    have "getSignedBitfield k s' off = Some (signed_take_bit (k - 1) (take_bit k n))"
      using getSignedBitfield_ok [OF _ assms(2,3) s'(3)] assms(1) s'(2) u by simp
    moreover have "\<not> k \<le> k - 1" using assms(2) by simp
    then have "signed_take_bit (k - 1) (take_bit k n) = signed_take_bit (k - 1) n"
      by (simp only: signed_take_bit_take_bit if_False)
    moreover have "signed_take_bit (k - 1) n = n"
      using assms(4) True by (intro signed_take_bit_int_eq_self)
        (auto simp: fits_field_def field_min_def field_max_def)
    ultimately show ?thesis by (simp add: field_value_def True)
  next
    case False
    then have "take_bit k n = n"
      using assms(4) by (intro take_bit_int_eq_self) (auto simp: fits_field_def field_min_def field_max_def)
    then show ?thesis using False s'(3) u by (simp add: field_value_def)
  qed
  then show ?thesis using s' by blast
qed

lemma u64_range: "0 \<le> u64 x \<and> u64 x < 2 ^ 64"
  by (simp add: u64_def)

lemma fits_i64:
  assumes "k \<le> 64" and "fits_field True k v"
  shows "- (2 ^ 63) \<le> v \<and> v < 2 ^ 63"
proof -
  have "(2 :: int) ^ (k - 1) \<le> 2 ^ 63" using assms(1) by (intro power_increasing) auto
  then show ?thesis using assms(2) by (auto simp: fits_field_def field_min_def field_max_def)
qed

lemma fits_u63: "k \<le> 63 \<Longrightarrow> fits_field False k v \<Longrightarrow> 0 \<le> v \<and> v < 2 ^ k \<and> v < 2 ^ 63"
  using power_increasing [of k 63 "2 :: int"]
  by (auto simp: fits_field_def field_min_def field_max_def)

text \<open>
  The unsigned check on a number read as an unsigned one: only saturation tells it from the number.
\<close>

lemma u64_neg: "- (2 ^ 63) \<le> v \<Longrightarrow> v < 0 \<Longrightarrow> u64 v = v + 2 ^ 64"
  using mod_pos_pos_trivial [of "v + 2 ^ 64" "2 ^ 64"] by (simp add: u64_def)

lemma u64_request:
  assumes "k \<le> 63" and "- (2 ^ 63) \<le> v" and "v < 2 ^ 63"
  shows "fits_field False k (u64 v) = fits_field False k v"
    and "ow = BFOVERFLOW_SAT \<longrightarrow> 0 \<le> v \<Longrightarrow> bf_result False k ow (u64 v) = bf_result False k ow v"
proof -
  have pos: "u64 v = v" if "0 \<le> v" using that assms(3) by (simp add: u64_def)
  have big: "\<not> fits_field False k (u64 v)" "\<not> fits_field False k v" if "v < 0"
    using that assms u64_neg fits_u63 [OF assms(1), of "u64 v"] fits_u63 [OF assms(1), of v] by auto
  show fit: "fits_field False k (u64 v) = fits_field False k v"
    using pos big by (cases "0 \<le> v") auto
  have "(2 :: int) ^ k dvd 2 ^ 64" using assms(1) by (intro le_imp_power_dvd) simp
  then have "u64 v mod 2 ^ k = v mod 2 ^ k" unfolding u64_def by (rule mod_mod_cancel)
  then show "bf_result False k ow (u64 v) = bf_result False k ow v"
    if "ow = BFOVERFLOW_SAT \<longrightarrow> 0 \<le> v"
    using that pos big by (cases "0 \<le> v"; cases ow) (auto simp: bf_result_def wrap_field_def)
qed

text \<open>A negative number that saturates an unsigned field becomes the largest value, not 0.\<close>

lemma unsigned_set_negative_saturates_up:
  assumes "k \<le> 63" and "- (2 ^ 63) \<le> v" and "v < 0"
  shows "checkUnsignedBitfieldOverflow (u64 v) 0 k BFOVERFLOW_SAT = (1, Some (2 ^ k - 1))"
    and "bf_result False k BFOVERFLOW_SAT v = Some 0"
proof -
  have "(2 :: int) ^ k \<le> 2 ^ 63" using assms(1) by (intro power_increasing) auto
  then have "2 ^ k - 1 < u64 v" using assms u64_neg by simp
  then show "checkUnsignedBitfieldOverflow (u64 v) 0 k BFOVERFLOW_SAT = (1, Some (2 ^ k - 1))"
    using assms(1) by (simp add: checkUnsignedBitfieldOverflow_def Let_def)
  show "bf_result False k BFOVERFLOW_SAT v = Some 0"
    using assms(3) by (simp add: bf_result_def fits_field_def field_min_def field_max_def)
qed

text \<open>The check, whatever the sign, on the requested number.\<close>

lemma check_requested:
  assumes "op_ok thisop" and "fits_field (op_sign thisop) (op_bits thisop) old" and "sat_in_reach thisop"
  defines "incr \<equiv> op_opcode thisop = BITFIELDOP_INCRBY" and "k \<equiv> op_bits thisop"
  defines "check \<equiv> (if op_sign thisop
      then checkSignedBitfieldOverflow (if incr then old else op_i64 thisop)
        (if incr then op_i64 thisop else 0) k (op_owtype thisop)
      else checkUnsignedBitfieldOverflow (if incr then old else u64 (op_i64 thisop))
        (if incr then op_i64 thisop else 0) k (op_owtype thisop))"
  shows "\<exists>c l. check = (c, l) \<and> (c = 0 \<longleftrightarrow> fits_field (op_sign thisop) k (requested thisop old))
    \<and> (c \<noteq> 0 \<longrightarrow> l = bf_result (op_sign thisop) k (op_owtype thisop) (requested thisop old))"
proof -
  have ok: "0 < k" "- (2 ^ 63) \<le> op_i64 thisop" "op_i64 thisop < 2 ^ 63"
    "op_sign thisop \<Longrightarrow> k \<le> 64" "\<not> op_sign thisop \<Longrightarrow> k \<le> 63"
    using assms(1) by (auto simp: op_ok_def k_def split: if_splits)
  show ?thesis
  proof (cases "op_sign thisop")
    case True
    then have old: "fits_field True k old" using assms(2) by (simp add: k_def)
    note r = fits_i64 [OF ok(4) [OF True] old]
    show ?thesis
    proof (cases incr)
      case i: True
      then show ?thesis
        using checkSigned_ok [OF ok(1) ok(4) [OF True], of old "op_i64 thisop" "op_owtype thisop"] r old ok(2,3) True
        by (simp add: check_def requested_def incr_def)
    next
      case i: False
      then show ?thesis
        using checkSigned_ok [OF ok(1) ok(4) [OF True], of "op_i64 thisop" 0 "op_owtype thisop"] ok(2,3) True assms(3)
        by (simp add: check_def requested_def incr_def sat_in_reach_def k_def)
    qed
  next
    case False
    then have old: "fits_field False k old" using assms(2) by (simp add: k_def)
    note r = fits_u63 [OF ok(5) [OF False] old]
    show ?thesis
    proof (cases incr)
      case i: True
      then show ?thesis
        using checkUnsigned_ok [OF ok(5) [OF False], of old "op_i64 thisop" "op_owtype thisop"] r ok(2,3) False
        by (simp add: check_def requested_def incr_def)
    next
      case i: False
      then show ?thesis
        using checkUnsigned_ok [OF ok(5) [OF False], of "u64 (op_i64 thisop)" 0 "op_owtype thisop"]
          u64_range [of "op_i64 thisop"] False u64_request [OF ok(5) [OF False] ok(2,3)] assms(3)
        by (simp add: check_def requested_def incr_def sat_in_reach_def)
    qed
  qed
qed

lemma bitfield_write_ok:
  assumes ok: "op_ok thisop" and reach: "sat_in_reach thisop" and room: "op_offset thisop + op_bits thisop \<le> 8 * length s"
    and old: "field_value (op_sign thisop) (op_bits thisop) s (op_offset thisop) = Some old"
  defines "r \<equiv> bf_result (op_sign thisop) (op_bits thisop) (op_owtype thisop) (requested thisop old)"
  shows "\<exists>s' reply c. bitfield_write thisop s grow = Some (s', reply, c) \<and> length s' = length s
    \<and> (case r of
         None \<Rightarrow> s' = s \<and> reply = ReplyNull
       | Some n \<Rightarrow> field_value (op_sign thisop) (op_bits thisop) s' (op_offset thisop) = Some n
           \<and> reply = ReplyLongLong (if op_opcode thisop = BITFIELDOP_INCRBY then n else old)
           \<and> (\<forall>i < 8 * length s. i < op_offset thisop \<or> op_offset thisop + op_bits thisop \<le> i
                \<longrightarrow> bitmap s' i = bitmap s i))"
proof -
  let ?k = "op_bits thisop" and ?off = "op_offset thisop"
  have k: "0 < ?k" "?k \<le> 64" using ok by (auto simp: op_ok_def split: if_splits)
  have fit: "fits_field (op_sign thisop) ?k old"
    using field_value_ok [OF room k, of "op_sign thisop"] old by simp
  obtain c l where check: "(if op_sign thisop
      then checkSignedBitfieldOverflow (if op_opcode thisop = BITFIELDOP_INCRBY then old else op_i64 thisop)
        (if op_opcode thisop = BITFIELDOP_INCRBY then op_i64 thisop else 0) ?k (op_owtype thisop)
      else checkUnsignedBitfieldOverflow (if op_opcode thisop = BITFIELDOP_INCRBY then old else u64 (op_i64 thisop))
        (if op_opcode thisop = BITFIELDOP_INCRBY then op_i64 thisop else 0) ?k (op_owtype thisop)) = (c, l)"
    "c = 0 \<longleftrightarrow> fits_field (op_sign thisop) ?k (requested thisop old)" "c \<noteq> 0 \<longrightarrow> l = r"
    using check_requested [OF ok fit reach] unfolding r_def by blast
  have r0: "r = None \<longleftrightarrow> c \<noteq> 0 \<and> op_owtype thisop = BFOVERFLOW_FAIL"
    using check(2) by (auto simp: r_def bf_result_def split: owtype.splits)
  have new: "c = 0 \<Longrightarrow> r = Some (requested thisop old)" using check(2) by (simp add: r_def bf_result_def)
  show ?thesis
  proof (cases r)
    case None
    with r0 check(1) old show ?thesis
      by (auto simp: bitfield_write_def Let_def field_value_def split: if_splits)
  next
    case (Some n)
    have nf: "fits_field (op_sign thisop) ?k n" by (rule bf_result_fits [OF k(1) Some [unfolded r_def]])
    obtain s' where s': "setUnsignedBitfield ?k s ?off (word_of_int n) = Some s'" "length s' = length s"
      "field_value (op_sign thisop) ?k s' ?off = Some n"
      "\<forall>i < 8 * length s. i < ?off \<or> ?off + ?k \<le> i \<longrightarrow> bitmap s' i = bitmap s i"
      using field_value_set [OF room k nf] by blast
    have over: "\<not> (c \<noteq> 0 \<and> op_owtype thisop = BFOVERFLOW_FAIL)" "c \<noteq> 0 \<Longrightarrow> l = Some n"
      "c = 0 \<Longrightarrow> requested thisop old = n"
      using r0 Some check(3) new by auto
    show ?thesis
    proof (cases "op_sign thisop")
      case True
      then have "bitfield_write thisop s grow
          = Some (s', ReplyLongLong (if op_opcode thisop = BITFIELDOP_INCRBY then n else old),
              if grow \<noteq> 0 \<or> old \<noteq> n then 1 else 0)"
        using old check(1) over s'(1)
        by (cases "c = 0")
          (auto simp: bitfield_write_def field_value_def setSignedBitfield_def requested_def Let_def split: if_splits)
      then show ?thesis using s' Some by simp
    next
      case False
      then have kk: "?k \<le> 63" using ok by (simp add: op_ok_def)
      then have "0 \<le> n" "n < 2 ^ 63" "0 \<le> old" "old < 2 ^ 63"
        using fits_u63 [OF kk, of n] fits_u63 [OF kk, of old] nf fit False by simp_all
      then have i: "s64 n = n" "s64 old = old" "u64 n = n"
        by (auto simp: u64_def intro!: s64_id)
      from False have "bitfield_write thisop s grow
          = Some (s', ReplyLongLong (if op_opcode thisop = BITFIELDOP_INCRBY then n else old),
              if grow \<noteq> 0 \<or> old \<noteq> n then 1 else 0)"
        using old check(1) over s'(1) i
        by (cases "c = 0")
          (auto simp: bitfield_write_def field_value_def requested_def Let_def split: if_splits)
      then show ?thesis using s' Some by simp
    qed
  qed
qed

end
