(* ===== verification/Bitops_Bitfield.thy ===== *)
theory Bitops_Bitfield
  imports Bitops_Exec Util_Num_Correct
begin

text \<open>
  The BITFIELD command as a whole: every plan the parser accepts is well formed, the string is
  grown far enough for all its writes, and its execution never leaves the string.
\<close>

section \<open>Plans\<close>

definition plan_ok :: "bitfield_plan \<Rightarrow> bool" where
  "plan_ok pl \<longleftrightarrow> (\<forall>thisop \<in> set (pl_ops pl). op_ok thisop
     \<and> (op_opcode thisop \<noteq> BITFIELDOP_GET \<longrightarrow>
          \<not> pl_readonly pl \<and> op_offset thisop + op_bits thisop \<le> pl_highest pl + 1))"

lemma string2ll_range: "string2ll s = Some x \<Longrightarrow> - (2 ^ 63) \<le> x \<and> x < 2 ^ 63"
  by (auto simp: string2ll_iff)

lemma getBitfieldType_range:
  "getBitfieldTypeFromArgument p = Inr (sign, bits) \<Longrightarrow> 0 < bits \<and> bits \<le> (if sign then 64 else 63)"
  by (auto simp: getBitfieldTypeFromArgument_def Let_def split: if_splits option.splits)

lemma bitfield_op_ok:
  assumes "plan_ok pl" and "bitfield_op cfg opcode ow args pl = Inr pl'"
  shows "plan_ok pl'"
proof -
  obtain sign bits where t: "getBitfieldTypeFromArgument (args ! 0) = Inr (sign, bits)"
    using assms(2) by (auto simp: bitfield_op_def split: sum.splits)
  obtain off where o1: "getBitOffsetFromArgument cfg (args ! 1) True bits = Inr off"
    using assms(2) t by (auto simp: bitfield_op_def split: sum.splits)
  note b = getBitfieldType_range [OF t]
  define op where "op i64 = \<lparr>op_offset = off, op_i64 = i64, op_opcode = opcode,
    op_owtype = ow, op_bits = bits, op_sign = sign\<rparr>" for i64
  have op: "op_ok (op i64)" if "- (2 ^ 63) \<le> i64" "i64 < 2 ^ 63" for i64
    using b that by (simp add: op_def op_ok_def)
  show ?thesis
  proof (cases "opcode = BITFIELDOP_GET")
    case True
    then have "pl' = pl\<lparr>pl_ops := pl_ops pl @ [op 0]\<rparr>" "op_opcode (op 0) = BITFIELDOP_GET"
      using assms(2) t o1 by (simp_all add: bitfield_op_def op_def)
    then show ?thesis using assms(1) op [of 0] by (auto simp: plan_ok_def)
  next
    case False
    then obtain i64 where i: "string2ll (args ! 2) = Some i64"
      using assms(2) t o1 by (auto simp: bitfield_op_def split: option.splits)
    have "pl' = pl\<lparr>pl_ops := pl_ops pl @ [op i64], pl_readonly := False,
        pl_highest := max (pl_highest pl) (off + bits - 1)\<rparr>"
      using assms(2) t o1 i False by (simp add: bitfield_op_def op_def Let_def)
    moreover have "op_offset (op i64) + op_bits (op i64) \<le> off + bits - 1 + 1"
      by (simp add: op_def)
    ultimately show ?thesis
      using assms(1) op [of i64] string2ll_range [OF i] by (auto simp: plan_ok_def max_def)
  qed
qed

lemma bitfield_parse_ok:
  "plan_ok pl \<Longrightarrow> bitfield_parse cfg args ow pl = Inr pl' \<Longrightarrow> plan_ok pl'"
  by (induction cfg args ow pl rule: bitfield_parse.induct)
    (auto split: if_splits sum.splits option.splits intro: bitfield_op_ok)

section \<open>Reading\<close>

lemma get_cong:
  assumes "off + k \<le> 8 * length p" and "off' + k \<le> 8 * length q" and "k \<le> 64"
    and "\<And>n. n < k \<Longrightarrow> bitmap p (off + n) = bitmap q (off' + n)"
  shows "getUnsignedBitfield k p off = getUnsignedBitfield k q off'"
proof -
  obtain w where w: "getUnsignedBitfield k p off = Some w"
    "\<forall>n < 64. bit w n = (n < k \<and> bitmap p (off + k - 1 - n))"
    using getUnsignedBitfield_ok [OF assms(1)] by blast
  obtain w' where w': "getUnsignedBitfield k q off' = Some w'"
    "\<forall>n < 64. bit w' n = (n < k \<and> bitmap q (off' + k - 1 - n))"
    using getUnsignedBitfield_ok [OF assms(2)] by blast
  have "bitmap p (off + k - 1 - n) = bitmap q (off' + k - 1 - n)" if "n < k" for n
    using assms(4) [of "k - 1 - n"] that by simp
  then have "w = w'" using w(2) w'(2) by (intro bit_word_eqI) auto
  then show ?thesis using w w' by simp
qed

text \<open>A string reads as if zeros followed it.\<close>

definition padded :: "byte list \<Rightarrow> nat \<Rightarrow> byte list" where
  "padded s n = s @ replicate (n - length s) 0"

lemma length_padded [simp]: "length (padded s n) = max (length s) n"
  by (simp add: padded_def)

lemma nth_padded: "i < max (length s) n \<Longrightarrow> padded s n ! i = (if i < length s then s ! i else 0)"
  by (auto simp: padded_def nth_append)

lemma length_get_buffer [simp]: "length (get_buffer s b) = 9"
  by (simp add: get_buffer_def Let_def)

lemma nth_get_buffer: "i < 9 \<Longrightarrow> get_buffer s b ! i = (if b + i < length s then s ! (b + i) else 0)"
  by (auto simp: get_buffer_def Let_def nth_append)

lemma bitmap_get_buffer:
  assumes "n < 72" and "b + 9 \<le> N"
  shows "bitmap (get_buffer s b) n = bitmap (padded s N) (8 * b + n)"
proof -
  have "n div 8 < 9" using assms(1) by simp
  moreover have "(8 * b + n) div 8 = b + n div 8" "(8 * b + n) mod 8 = n mod 8" by simp_all
  ultimately show ?thesis using assms(2) by (simp add: bitmap_def nth_get_buffer nth_padded)
qed

lemma bitfield_get_ok:
  assumes "op_ok thisop" and "op_offset thisop div 8 + 9 \<le> N"
  shows "\<exists>v. field_value (op_sign thisop) (op_bits thisop) (padded s N) (op_offset thisop) = Some v
    \<and> bitfield_get thisop s = Some (ReplyLongLong v)"
proof -
  let ?k = "op_bits thisop" and ?off = "op_offset thisop" and ?b = "op_offset thisop div 8"
  have k: "0 < ?k" "?k \<le> 64" "\<not> op_sign thisop \<Longrightarrow> ?k \<le> 63"
    using assms(1) by (auto simp: op_ok_def split: if_splits)
  have o1: "?off - ?b * 8 = ?off mod 8" "?off = 8 * ?b + ?off mod 8" "?off mod 8 < 8"
    by (simp_all add: minus_div_mult_eq_mod)
  have r: "?off mod 8 + ?k \<le> 8 * length (get_buffer s ?b)" "?off + ?k \<le> 8 * length (padded s N)"
    using k o1 assms(2) by (auto simp: max_def)
  have "getUnsignedBitfield ?k (get_buffer s ?b) (?off mod 8) = getUnsignedBitfield ?k (padded s N) ?off"
  proof (rule get_cong [OF r k(2)])
    fix n assume "n < ?k"
    then have "?off mod 8 + n < 72" using k(2) o1(3) by simp
    from bitmap_get_buffer [OF this assms(2)]
    show "bitmap (get_buffer s ?b) (?off mod 8 + n) = bitmap (padded s N) (?off + n)"
      using o1(2) by (metis add.assoc)
  qed
  moreover obtain w where w: "getUnsignedBitfield ?k (padded s N) ?off = Some w"
    using getUnsignedBitfield_ok [OF r(2)] by blast
  moreover obtain v where v: "field_value (op_sign thisop) ?k (padded s N) ?off = Some v"
    "fits_field (op_sign thisop) ?k v"
    using field_value_ok [OF r(2) k(1,2)] by blast
  moreover have "s64 v = v" if "\<not> op_sign thisop"
    using fits_u63 [OF k(3) [OF that], of v] v(2) that by (intro s64_id) auto
  ultimately show ?thesis
    using getSignedBitfield_ok [OF r(1) k(1,2)] getSignedBitfield_ok [OF r(2) k(1,2)]
    by (auto simp: bitfield_get_def Let_def o1(1) field_value_def)
qed

section \<open>Execution\<close>

lemma bitfield_write_total:
  assumes "op_ok thisop" and "op_offset thisop + op_bits thisop \<le> 8 * length s"
  shows "\<exists>s' r c. bitfield_write thisop s grow = Some (s', r, c) \<and> length s' = length s"
proof -
  let ?k = "op_bits thisop" and ?off = "op_offset thisop"
  have k: "0 < ?k" "?k \<le> 64" using assms(1) by (auto simp: op_ok_def split: if_splits)
  obtain w where w: "getUnsignedBitfield ?k s ?off = Some w"
    using getUnsignedBitfield_ok [OF assms(2)] by blast
  have set: "\<exists>s'. setUnsignedBitfield ?k s ?off v = Some s' \<and> length s' = length s" for v
    using setUnsignedBitfield_ok [OF assms(2), of v] by blast
  show ?thesis
  proof (cases "op_sign thisop")
    case True
    obtain old where old: "getSignedBitfield ?k s ?off = Some old"
      using getSignedBitfield_ok [OF assms(2) k w] by blast
    obtain c l where chk: "(if op_opcode thisop = BITFIELDOP_INCRBY
        then checkSignedBitfieldOverflow old (op_i64 thisop) ?k (op_owtype thisop)
        else checkSignedBitfieldOverflow (op_i64 thisop) 0 ?k (op_owtype thisop)) = (c, l)"
      by (metis surj_pair)
    define n where "n = (if c \<noteq> 0 then case_option 0 id l
      else if op_opcode thisop = BITFIELDOP_INCRBY then old + op_i64 thisop else op_i64 thisop)"
    obtain s' where "setSignedBitfield ?k s ?off n = Some s'" "length s' = length s"
      using set [of "word_of_int n"] by (auto simp: setSignedBitfield_def)
    then show ?thesis
      using True by (auto simp: bitfield_write_def Let_def old chk n_def [symmetric])
  next
    case False
    obtain c l where chk: "(if op_opcode thisop = BITFIELDOP_INCRBY
        then checkUnsignedBitfieldOverflow (uint w) (op_i64 thisop) ?k (op_owtype thisop)
        else checkUnsignedBitfieldOverflow (u64 (op_i64 thisop)) 0 ?k (op_owtype thisop)) = (c, l)"
      by (metis surj_pair)
    define n where "n = (if c \<noteq> 0 then case_option 0 id l
      else if op_opcode thisop = BITFIELDOP_INCRBY then u64 (uint w + op_i64 thisop) else u64 (op_i64 thisop))"
    obtain s' where "setUnsignedBitfield ?k s ?off (word_of_int n) = Some s'" "length s' = length s"
      using set by blast
    then show ?thesis
      using False by (auto simp: bitfield_write_def Let_def w chk n_def [symmetric])
  qed
qed

lemma bitfield_exec_total:
  assumes "\<forall>thisop \<in> set ops. op_ok thisop \<and> (op_opcode thisop \<noteq> BITFIELDOP_GET \<longrightarrow>
      op_offset thisop + op_bits thisop \<le> 8 * length s)"
  shows "\<exists>s' rs' c'. bitfield_exec ops grow s rs c = Some (s', rs', c') \<and> length s' = length s
    \<and> length rs' = length rs + length ops"
  using assms
proof (induction ops arbitrary: s rs c)
  case (Cons thisop ops)
  show ?case
  proof (cases "op_opcode thisop = BITFIELDOP_GET")
    case True
    then obtain r where "bitfield_get thisop s = Some r"
      using bitfield_get_ok [of thisop _ s, OF _ order_refl] Cons.prems by auto
    then show ?thesis using Cons.IH [of s "rs @ [r]" c] Cons.prems True by auto
  next
    case False
    then obtain s' r c' where "bitfield_write thisop s grow = Some (s', r, c')" "length s' = length s"
      using bitfield_write_total [of thisop s grow] Cons.prems by auto
    then show ?thesis using Cons.IH [of s' "rs @ [r]" "c + c'"] Cons.prems False by auto
  qed
qed simp

lemma lookupStringForBitCommand_room:
  "lookupStringForBitCommand o1 maxbit = Inr (s, old, grow) \<Longrightarrow> maxbit + 1 \<le> 8 * length s"
  by (auto simp: lookupStringForBitCommand_def sdsgrowzero_def Let_def
      split: option.splits kvobj.splits if_splits)

lemma bitfieldGeneric_total: "\<exists>r. bitfieldGeneric cfg ro o1 args = Some r"
proof -
  let ?pl0 = "\<lparr>pl_ops = [], pl_readonly = True, pl_highest = 0\<rparr>"
  show ?thesis
  proof (cases "bitfield_parse cfg args BFOVERFLOW_WRAP ?pl0")
    case (Inl e)
    then show ?thesis by (simp add: bitfieldGeneric_def)
  next
    case (Inr pl)
    have ok: "plan_ok pl" using bitfield_parse_ok [OF _ Inr] by (simp add: plan_ok_def)
    show ?thesis
    proof (cases "pl_readonly pl")
      case True
      then have ex: "\<exists>s' rs' c'. bitfield_exec (pl_ops pl) 0 s [] 0 = Some (s', rs', c')" for s
        using bitfield_exec_total [of "pl_ops pl" s 0 "[]" 0] ok by (auto simp: plan_ok_def)
      consider "o1 = None" | "o1 = Some OBJ_OTHER" | s where "o1 = Some (OBJ_STRING s)"
        by (metis kvobj.exhaust option.exhaust)
      then show ?thesis
      proof cases
        case 1
        then show ?thesis using Inr True ex [of "[]"] by (auto simp: bitfieldGeneric_def)
      next
        case 3
        then show ?thesis using Inr True ex [of s] by (auto simp: bitfieldGeneric_def)
      qed (use Inr True in \<open>simp add: bitfieldGeneric_def\<close>)
    next
      case False
      have ex: "\<exists>s' rs' c'. bitfield_exec (pl_ops pl) grow s [] 0 = Some (s', rs', c')"
        if "lookupStringForBitCommand o1 (pl_highest pl) = Inr (s, old, grow)" for s old grow
        using bitfield_exec_total [of "pl_ops pl" s grow "[]" 0] ok
          lookupStringForBitCommand_room [OF that] by (fastforce simp: plan_ok_def)
      show ?thesis
      proof (cases "lookupStringForBitCommand o1 (pl_highest pl)")
        case l: (Inl e)
        then show ?thesis using Inr False by (simp add: bitfieldGeneric_def)
      next
        case l: (Inr x)
        obtain s old grow where "x = (s, old, grow)" by (cases x)
        then show ?thesis using Inr False l ex [of s old grow] by (auto simp: bitfieldGeneric_def)
      qed
    qed
  qed
qed

end
