(* ===== verification/Bitops_Count.thy ===== *)
theory Bitops_Count
  imports Bitops_Field
begin

text \<open>
  Counting and finding bits. \<open>redisPopcount\<close> counts by bytes, by 64-bit words or, without the
  processor's instruction, seven 32-bit words at a time with sums inside the word; all of it
  is the number of one bits. \<open>redisBitpos\<close> skips bytes, then words, and scans one word.
\<close>

unbundle bit_operations_syntax

section \<open>Ones of a byte list\<close>

definition ones :: "byte list \<Rightarrow> int" where
  "ones bs = sum_list (map (\<lambda>b. popcount 8 (uint b)) bs)"

lemma ones_simps [simp]: "ones [] = 0" "ones (b # bs) = popcount 8 (uint b) + ones bs"
  "ones (xs @ ys) = ones xs + ones ys"
  by (simp_all add: ones_def)

lemma ones_split: "ones (take (n + m) (drop p s)) = ones (take n (drop p s)) + ones (take m (drop (p + n) s))"
  unfolding take_add by (simp add: add.commute)

lemma popcount_add:
  "0 \<le> a \<Longrightarrow> a < 2 ^ m \<Longrightarrow> popcount (m + n) (a + 2 ^ m * x) = popcount m a + popcount n x"
proof (induction m arbitrary: a)
  case (Suc m)
  have "(a + 2 ^ Suc m * x) mod 2 = a mod 2" by (simp add: mult.assoc)
  moreover have "(a + 2 ^ Suc m * x) div 2 = a div 2 + 2 ^ m * x" by (simp add: mult.assoc)
  ultimately show ?case using Suc.IH [of "a div 2"] Suc.prems by simp
qed (auto simp: order_le_less)

lemma popcount_le_uint: "popcount (8 * length bs) (le_uint bs) = ones bs"
proof (induction bs)
  case (Cons b bs)
  then show ?case
    using popcount_add [of "uint b" 8 "8 * length bs" "le_uint bs"] uint_byte_less [of b] by simp
qed simp

lemma popcount_sum: "popcount n v = (\<Sum>i < n. of_bool (bit v i))"
proof (induction n arbitrary: v)
  case (Suc n)
  have "v mod 2 = of_bool (bit v 0)" by (simp add: bit_0 mod2_eq_if)
  then show ?case
    using Suc.IH [of "v div 2"] by (simp only: popcount.simps sum.lessThan_Suc_shift) (simp add: bit_Suc)
qed simp

lemma count_byte_eq: "count_byte b = popcount 8 (uint b)"
proof -
  have table: "map int bitsinbyte = map (popcount 8) [0..255]" by code_simp
  have len: "length bitsinbyte = 256" by (simp add: bitsinbyte_def B6_def B4_def B2_def)
  have "int (unat b) < int 256" using uint_byte_less [of b] by simp
  then have b: "unat b < 256" by (simp only: of_nat_less_iff)
  have "int (bitsinbyte ! unat b) = map (popcount 8) [0..255] ! unat b"
    using b len by (simp flip: table)
  also have "\<dots> = popcount 8 ([0..255] ! unat b)" using b by (intro nth_map) simp
  also have "[0..255] ! unat b = uint b" using b uint_byte_less [of b] by (subst nth_upto) auto
  finally show ?thesis by (simp add: count_byte_def)
qed

lemma sum_lessThan_add: "(\<Sum>i < n + (m :: nat). f i) = (\<Sum>i < n. f i) + (\<Sum>j < m. f (n + j) :: int)"
  by (induction m) (simp_all add: add.assoc)

lemma sum8: "(\<Sum>j < 8. f j) = f 0 + f 1 + f 2 + f 3 + f 4 + f 5 + f 6 + f (7 :: nat)"
  by (simp add: numeral_eq_Suc)

text \<open>The number of one bits of the bitmap.\<close>

lemma card_bitmap:
  assumes "k \<le> length s"
  shows "int (card {i. i < 8 * k \<and> bitmap s i}) = ones (take k s)"
proof -
  have "int (card {i. i < 8 * k \<and> bitmap s i}) = (\<Sum>i < 8 * k. of_bool (bitmap s i))"
    by (simp add: sum.If_cases of_bool_def Collect_conj_eq lessThan_def)
  also have "\<dots> = ones (take k s)"
    using assms
  proof (induction k)
    case (Suc k)
    have "(\<Sum>i < 8 * Suc k. of_bool (bitmap s i) :: int) = (\<Sum>i < 8 * k. of_bool (bitmap s i))
        + (\<Sum>j < 8. of_bool (bitmap s (8 * k + j)))"
      by (simp only: mult_Suc_right add.commute [of 8] sum_lessThan_add)
    also have "(\<Sum>j < 8. of_bool (bitmap s (8 * k + j)) :: int) = (\<Sum>j < 8. of_bool (bit (s ! k) (7 - j)))"
      by (rule sum.cong) (simp_all add: bitmap_def)
    also have "\<dots> = popcount 8 (uint (s ! k))"
      unfolding popcount_sum sum8 by (simp add: bit_uint_iff)
    finally show ?case using Suc by (simp add: take_Suc_conv_app_nth)
  qed simp
  finally show ?thesis .
qed

section \<open>Sums inside a 32-bit word\<close>

text \<open>A number in base 256; the word operations act on each digit.\<close>

primrec val :: "int list \<Rightarrow> int" where
  "val [] = 0"
| "val (a # as) = a + 256 * val as"

definition digits :: "int list \<Rightarrow> bool" where
  "digits as \<longleftrightarrow> (\<forall>a \<in> set as. 0 \<le> a \<and> a < 256)"

lemma digits_simps [simp]: "digits []" "digits (a # as) \<longleftrightarrow> 0 \<le> a \<and> a < 256 \<and> digits as"
  by (auto simp: digits_def)

lemma val_bounds: "digits as \<Longrightarrow> 0 \<le> val as \<and> val as < 256 ^ length as"
  by (induction as) auto

lemma and_digit:
  assumes "0 \<le> a" "a < 256" "0 \<le> m" "m < 256"
  shows "(a + 256 * x) AND (m + 256 * y) = (a AND m) + 256 * (x AND y :: int)"
proof -
  have t: "take_bit 8 (c + 256 * z) = c" "drop_bit 8 (c + 256 * z) = z" if "0 \<le> c" "c < 256" for c z :: int
    using that by (simp_all add: take_bit_eq_mod drop_bit_eq_div)
  let ?u = "(a + 256 * x) AND (m + 256 * y)"
  have "?u = take_bit 8 ?u + 256 * drop_bit 8 ?u"
    by (simp add: take_bit_eq_mod drop_bit_eq_div)
  also have "\<dots> = (a AND m) + 256 * (x AND y)"
    using assms by (simp only: take_bit_and drop_bit_and t)
  finally show ?thesis .
qed

lemma val_and:
  "digits as \<Longrightarrow> 0 \<le> m \<Longrightarrow> m < 256 \<Longrightarrow>
   val as AND val (replicate (length as) m) = val (map (\<lambda>a. a AND m) as)"
  by (induction as) (simp_all add: and_digit)

lemma low_and:
  assumes "0 \<le> y" "y < 2 ^ n" "0 \<le> m" "m < (2 :: int) ^ n"
  shows "(y + 2 ^ n * z) AND m = y AND m"
proof -
  have "m AND mask n = m" using assms by (simp add: take_bit_int_eq_self flip: take_bit_eq_mask)
  then have "(y + 2 ^ n * z) AND m = (y + 2 ^ n * z) AND (m AND mask n)" by simp
  also have "\<dots> = ((y + 2 ^ n * z) AND mask n) AND m" by (simp only: and.assoc and.commute [of m])
  also have "(y + 2 ^ n * z) AND mask n = y"
    using assms by (simp add: take_bit_eq_mod flip: take_bit_eq_mask)
  finally show ?thesis .
qed

lemma digit_shift:
  fixes a V :: int
  assumes "0 \<le> a" and "a < 256" and "s \<le> 8"
  shows "(a + 256 * V) div 2 ^ s = (a div 2 ^ s + 2 ^ (8 - s) * (V mod 2 ^ s)) + 256 * (V div 2 ^ s)"
    and "0 \<le> a div 2 ^ s" and "a div 2 ^ s < 2 ^ (8 - s)"
    and "a div 2 ^ s + 2 ^ (8 - s) * (V mod 2 ^ s) < 256"
proof -
  define P Q :: int where "P = 2 ^ s" and "Q = 2 ^ (8 - s)"
  have PQ: "P * Q = 256" "0 < P" "0 < Q" using assms(3) by (simp_all add: P_def Q_def flip: power_add)
  have "(a + 256 * V) div P = a div P + Q * V"
    using PQ by (simp flip: PQ(1) add: mult.assoc)
  also have "Q * V = Q * (V mod P + P * (V div P))" by simp
  also have "\<dots> = Q * (V mod P) + 256 * (V div P)"
    unfolding distrib_left using PQ(1) by (simp only: mult.assoc [symmetric] mult.commute [of Q P])
  finally show "(a + 256 * V) div 2 ^ s
      = (a div 2 ^ s + 2 ^ (8 - s) * (V mod 2 ^ s)) + 256 * (V div 2 ^ s)"
    by (simp add: P_def Q_def)
  show "0 \<le> a div 2 ^ s" using assms(1) by (simp add: pos_imp_zdiv_nonneg_iff)
  have y: "a div P < Q"
  proof (rule ccontr)
    assume "\<not> a div P < Q"
    then have "P * Q \<le> P * (a div P)" using PQ(2) by (intro mult_left_mono) auto
    moreover have "a = P * (a div P) + a mod P" "0 \<le> a mod P" using PQ(2) by simp_all
    ultimately show False using PQ(1) assms(2) by linarith
  qed
  then show "a div 2 ^ s < 2 ^ (8 - s)" by (simp add: P_def Q_def)
  have "Q * (V mod P) \<le> Q * (P - 1)" using PQ by (intro mult_left_mono) auto
  also have "\<dots> = 256 - Q" using PQ(1) by (simp add: right_diff_distrib mult.commute)
  finally show "a div 2 ^ s + 2 ^ (8 - s) * (V mod 2 ^ s) < 256" using y by (simp add: P_def Q_def)
qed

lemma val_shift_and:
  assumes "digits as" and "s \<le> 8" and "0 \<le> m" and "m < 2 ^ (8 - s)"
  shows "val as div 2 ^ s AND val (replicate (length as) m) = val (map (\<lambda>a. a div 2 ^ s AND m) as)"
  using assms(1)
proof (induction as)
  case (Cons a as)
  have a: "0 \<le> a" "a < 256" using Cons.prems by auto
  note sh = digit_shift(1,4) [OF a assms(2), of "val as"] and y = digit_shift(2,3) [OF a assms(2)]
  have "0 \<le> 2 ^ (8 - s) * (val as mod 2 ^ s)" by simp
  then have l: "0 \<le> a div 2 ^ s + 2 ^ (8 - s) * (val as mod 2 ^ s)" using y(1) by linarith
  have m: "m < 256" using assms(4) power_increasing [of "8 - s" 8 "2 :: int"] by simp
  show ?case
    using Cons and_digit [OF l sh(2) assms(3) m]
    by (simp only: val.simps list.map length_Cons replicate.simps sh(1) low_and [OF y assms(3,4)])
      simp
qed simp

text \<open>The last sum needs no mask before it, because a nibble holds at most four.\<close>

lemma val_nibbles:
  assumes "digits as" and "\<forall>a \<in> set as. a mod 16 \<le> 4 \<and> a div 16 \<le> 4"
  shows "(val as + val as div 16) AND val (replicate (length as) 15)
    = val (map (\<lambda>a. a mod 16 + a div 16) as)"
  using assms
proof (induction as)
  case (Cons a as)
  define V where "V = val as"
  have a: "0 \<le> a" "a < 256" "a mod 16 \<le> 4" "a div 16 \<le> 4" using Cons.prems by auto
  have "(b + 256 * x) mod 16 = b mod 16" for b x :: int
    using mod_mult_self2 [of b 16 "16 * x"] by simp
  then have "V mod 16 \<le> 4" using Cons.prems(2) by (cases as) (auto simp: V_def)
  then have V: "0 \<le> V mod 16" "V mod 16 \<le> 4" by auto
  define q r aq ar where "q = V div 16" and "r = V mod 16" and "aq = a div 16" and "ar = a mod 16"
  have Vqr: "V = r + 16 * q" and aqr: "a = ar + 16 * aq"
    by (simp_all add: q_def r_def aq_def ar_def)
  have b: "0 \<le> ar" "ar \<le> 4" "0 \<le> aq" "aq \<le> 4" "0 \<le> r" "r \<le> 4"
    using a V by (auto simp: ar_def aq_def r_def pos_imp_zdiv_nonneg_iff)
  define L where "L = a + aq + 16 * r"
  have d: "(a + 256 * V) div 16 = aq + 16 * V" by (simp add: aq_def)
  have "(a + 256 * V) + (aq + 16 * V) = L + 256 * (V + q)" unfolding L_def Vqr by (simp add: algebra_simps)
  then have e: "(a + 256 * V) + (a + 256 * V) div 16 = L + 256 * (V + V div 16)"
    by (simp only: d q_def)
  have L: "0 \<le> L" "L < 256" using a(1) b aqr unfolding L_def by linarith+
  have "L = (ar + aq) + 16 * (aq + r)" unfolding L_def by (subst aqr) (simp add: algebra_simps)
  then have "L mod 16 = (ar + aq) mod 16" by (simp only: mod_mult_self2)
  then have "L mod 16 = ar + aq" using b by simp
  moreover have "L AND 15 = L mod 16" by (rule and_numerals)
  ultimately have l: "L AND 15 = a mod 16 + a div 16" by (simp add: ar_def aq_def)
  have "(val (a # as) + val (a # as) div 16) AND val (replicate (length (a # as)) 15)
      = (L + 256 * (V + V div 16)) AND (15 + 256 * val (replicate (length as) 15))"
    by (simp only: val.simps length_Cons replicate.simps V_def [symmetric] e)
  also have "\<dots> = (L AND 15) + 256 * ((V + V div 16) AND val (replicate (length as) 15))"
    using L by (intro and_digit) simp_all
  also have "\<dots> = val (map (\<lambda>a. a mod 16 + a div 16) (a # as))"
    using Cons by (simp add: l V_def)
  finally show ?case .
qed simp

text \<open>One byte through the three steps: all 256 cases.\<close>

definition sum2 :: "int \<Rightarrow> int" where "sum2 a = a - (a div 2 AND 0x55)"
definition sum4 :: "int \<Rightarrow> int" where "sum4 a = (a AND 0x33) + (a div 4 AND 0x33)"
definition sum8_byte :: "int \<Rightarrow> int" where "sum8_byte a = a mod 16 + a div 16"

lemma byte_sums:
  assumes "0 \<le> a" and "a < 256"
  shows "0 \<le> sum2 a \<and> sum2 a < 256 \<and> 0 \<le> sum4 (sum2 a) \<and> sum4 (sum2 a) < 256
    \<and> sum4 (sum2 a) mod 16 \<le> 4 \<and> sum4 (sum2 a) div 16 \<le> 4
    \<and> sum8_byte (sum4 (sum2 a)) = popcount 8 a \<and> 0 \<le> popcount 8 a \<and> popcount 8 a \<le> 8"
proof -
  have "list_all (\<lambda>a. 0 \<le> sum2 a \<and> sum2 a < 256 \<and> 0 \<le> sum4 (sum2 a) \<and> sum4 (sum2 a) < 256
    \<and> sum4 (sum2 a) mod 16 \<le> 4 \<and> sum4 (sum2 a) div 16 \<le> 4
    \<and> sum8_byte (sum4 (sum2 a)) = popcount 8 a \<and> 0 \<le> popcount 8 a \<and> popcount 8 a \<le> 8) [0..255]"
    by code_simp
  moreover have "a \<in> set [0..255]" using assms by simp
  ultimately show ?thesis unfolding list_all_iff by blast
qed

lemma val_map_add: "val (map f as) + val (map g as) = val (map (\<lambda>a. f a + g a) as)"
  by (induction as) (simp_all add: algebra_simps)

lemma val_map_diff: "val as - val (map g as) = val (map (\<lambda>a. a - g a) as)"
  by (induction as) (simp_all add: algebra_simps)

lemma val_le: "\<forall>a \<in> set as. a \<le> c \<Longrightarrow> val as \<le> val (replicate (length as) c)"
  by (induction as) (auto intro!: add_mono mult_left_mono)

lemma swar_val:
  assumes "digits as" and "length as = 4" and w: "uint (w :: 32 word) = val as"
  shows "uint (swar w) = val (map (popcount 8) as)"
proof -
  have rep: "val (replicate 4 m) = m * 0x01010101" for m by (simp add: numeral_eq_Suc)
  define w2 where "w2 = w - (drop_bit 1 w AND 0x55555555)"
  define w4 where "w4 = (w2 AND 0x33333333) + (drop_bit 2 w2 AND 0x33333333)"
  define d2 where "d2 = map sum2 as"
  define d4 where "d4 = map sum4 d2"
  have dig: "digits d2" "digits d4" "length d2 = 4" "length d4 = 4"
    "\<forall>a \<in> set d4. a mod 16 \<le> 4 \<and> a div 16 \<le> 4"
    using assms(1,2) byte_sums by (auto simp: d2_def d4_def digits_def)
  have less: "val xs < 2 ^ 32 \<and> 0 \<le> val xs" if "digits xs" "length xs = 4" for xs
    using val_bounds [OF that(1)] that(2) by simp
  have drop: "uint (drop_bit (Suc 0) x) = uint x div 2" "uint (drop_bit 2 x) = uint x div 4"
    "uint (drop_bit 4 x) = uint x div 16" for x :: "32 word"
    by (simp_all add: drop_bit_eq_div uint_div_distrib)
  have "uint (drop_bit 1 w AND 0x55555555) = val (map (\<lambda>a. a div 2 AND 0x55) as)"
    using val_shift_and [OF assms(1), of 1 "0x55"] assms(2) by (simp add: uint_and drop w rep)
  moreover have "val as - val (map (\<lambda>a. a div 2 AND 0x55) as) = val d2"
    unfolding val_map_diff d2_def sum2_def ..
  ultimately have w2: "uint w2 = val d2"
    using less [OF dig(1,3)] by (simp add: w2_def uint_sub_if' w)
  have add: "uint (x + y) = uint x + uint y" if "uint x + uint y < 2 ^ 32" for x y :: "32 word"
    using that by (simp add: uint_word_ariths)
  have "uint (w2 AND 0x33333333) = val (map (\<lambda>a. a AND 0x33) d2)"
    using val_and [OF dig(1), of "0x33"] dig(3) by (simp add: uint_and w2 rep)
  moreover have "uint (drop_bit 2 w2 AND 0x33333333) = val (map (\<lambda>a. a div 4 AND 0x33) d2)"
    using val_shift_and [OF dig(1), of 2 "0x33"] dig(3) by (simp add: uint_and drop w2 rep)
  moreover have "val (map (\<lambda>a. a AND 0x33) d2) + val (map (\<lambda>a. a div 4 AND 0x33) d2) = val d4"
    unfolding val_map_add d4_def sum4_def ..
  ultimately have w4: "uint w4 = val d4"
    using less [OF dig(2,4)] add unfolding w4_def by simp
  have "\<forall>a \<in> set d4. a \<le> 0x44"
  proof
    fix a assume "a \<in> set d4"
    then have "a mod 16 \<le> 4 \<and> a div 16 \<le> 4" using dig(5) by blast
    moreover have "a = a mod 16 + a div 16 * 16" by simp
    ultimately show "a \<le> 0x44" by linarith
  qed
  then have small: "val d4 \<le> 0x44444444" using val_le [of d4 "0x44"] dig(4) by (simp add: rep)
  have "uint (w4 + drop_bit 4 w4) = val d4 + val d4 div 16"
    using add [of w4 "drop_bit 4 w4"] small by (simp add: w4 drop)
  then have "uint ((w4 + drop_bit 4 w4) AND 0x0F0F0F0F) = val (map (\<lambda>a. a mod 16 + a div 16) d4)"
    using val_nibbles [OF dig(2,5)] dig(4) by (simp add: uint_and rep)
  moreover have "map (\<lambda>a. a mod 16 + a div 16) d4 = map (popcount 8) as"
    using assms(1) byte_sums by (auto simp: d4_def d2_def digits_def sum8_byte_def)
  ultimately show ?thesis by (simp add: swar_def Let_def w2_def w4_def)
qed

section \<open>The phases of the count\<close>

text \<open>Every phase moves bytes from the rest into the sum and keeps the tot.\<close>

definition count_inv :: "mem \<Rightarrow> nat \<Rightarrow> int \<Rightarrow> int \<Rightarrow> nat \<Rightarrow> int \<Rightarrow> bool" where
  "count_inv s N tot p count bits \<longleftrightarrow>
     (\<exists>k. p = int k \<and> k + count = N \<and> N \<le> length s \<and> bits + ones (take count (drop k s)) = tot)"

lemma count_inv_step:
  assumes "count_inv s N tot p count bits" and "n \<le> count"
  shows "\<exists>bs. load s p n = Some bs \<and> length bs = n
    \<and> count_inv s N tot (p + int n) (count - n) (bits + ones bs)"
proof -
  obtain k where k: "p = int k" "k + count = N" "N \<le> length s" "bits + ones (take count (drop k s)) = tot"
    using assms(1) by (auto simp: count_inv_def)
  have "ones (take count (drop k s)) = ones (take n (drop k s)) + ones (take (count - n) (drop (k + n) s))"
    using ones_split [of n "count - n" k s] assms(2) by simp
  then show ?thesis
    using k assms(2)
    by (intro exI [of _ "take n (drop k s)"]) (auto simp: load_nat count_inv_def intro!: exI [of _ "k + n"])
qed

lemma count_inv_loads:
  assumes "count_inv s N tot p count bits" and "n * m \<le> count"
  shows "\<exists>W. (\<forall>i < m. load s (p + int (n * i)) n = Some (W i) \<and> length (W i) = n)
    \<and> count_inv s N tot (p + int (n * m)) (count - n * m) (bits + (\<Sum>i < m. ones (W i)))"
  using assms(2)
proof (induction m)
  case 0
  then show ?case using assms(1) by simp
next
  case (Suc m)
  then obtain W where W: "\<forall>i < m. load s (p + int (n * i)) n = Some (W i) \<and> length (W i) = n"
    "count_inv s N tot (p + int (n * m)) (count - n * m) (bits + (\<Sum>i < m. ones (W i)))" by auto
  have "n \<le> count - n * m" using Suc.prems by simp
  from count_inv_step [OF W(2) this] obtain bs where bs:
    "load s (p + int (n * m)) n = Some bs" "length bs = n"
    "count_inv s N tot (p + int (n * m) + int n) (count - n * m - n)
      (bits + (\<Sum>i < m. ones (W i)) + ones bs)" by auto
  have "(\<Sum>i < m. ones ((W(m := bs)) i)) = (\<Sum>i < m. ones (W i))" by (rule sum.cong) auto
  then have "(\<Sum>i < Suc m. ones ((W(m := bs)) i)) = (\<Sum>i < m. ones (W i)) + ones bs" by simp
  then show ?case
    using W(1) bs by (intro exI [of _ "W(m := bs)"]) (auto simp: less_Suc_eq algebra_simps)
qed

lemma count_inv_byte:
  assumes "count_inv s N tot p count bits" and "count \<noteq> 0"
  shows "\<exists>b. rd s p = Some b \<and> count_inv s N tot (p + 1) (count - 1) (bits + count_byte b)"
proof -
  from count_inv_step [OF assms(1), of 1] assms(2) obtain bs where bs: "load s p 1 = Some bs" "length bs = 1"
    "count_inv s N tot (p + 1) (count - 1) (bits + ones bs)" by auto
  then obtain b where "bs = [b]" by (cases bs) auto
  moreover from this bs(1) have "rd s p = Some b"
    by (auto simp: load_def rd_def take_Suc hd_drop_conv_nth split: if_splits)
  ultimately show ?thesis using bs(3) by (simp add: count_byte_eq)
qed

lemma pop_align_ok:
  "count_inv s N tot p count bits \<Longrightarrow>
   \<exists>p' c' b'. pop_align addr s align p count bits = Some (p', c', b') \<and> count_inv s N tot p' c' b'"
proof (induction count arbitrary: p bits)
  case (Suc count)
  from count_inv_byte [OF Suc.prems] obtain b where "rd s p = Some b"
    "count_inv s N tot (p + 1) count (bits + count_byte b)" by auto
  with Suc show ?case by (subst pop_align.simps) auto
qed (subst pop_align.simps; simp)

lemma pop_remain_ok: "count_inv s N tot p count bits \<Longrightarrow> pop_remain s p count bits = Some tot"
proof (induction count arbitrary: p bits)
  case 0
  then show ?case by (subst pop_remain.simps) (simp add: count_inv_def)
next
  case (Suc count)
  from count_inv_byte [OF Suc.prems] obtain b where "rd s p = Some b"
    "count_inv s N tot (p + 1) count (bits + count_byte b)" by auto
  with Suc.IH show ?case by (subst pop_remain.simps) simp
qed

lemma popcountll_ones: "length bs = 8 \<Longrightarrow> popcountll bs = ones bs"
  using popcount_le_uint [of bs] by (simp add: popcountll_def)

lemma pop_popcnt_ok:
  "count_inv s N tot p count (bits + (c0 + c1 + c2 + c3)) \<Longrightarrow>
   \<exists>p' c' d0 d1 d2 d3. pop_popcnt s p count (c0, c1, c2, c3) = Some (p', c', d0, d1, d2, d3)
     \<and> count_inv s N tot p' c' (bits + (d0 + d1 + d2 + d3))"
proof (induction count arbitrary: p c0 c1 c2 c3 rule: less_induct)
  case (less count)
  show ?case
  proof (cases "32 \<le> count")
    case False
    then show ?thesis using less.prems by (subst pop_popcnt.simps) simp
  next
    case True
    from count_inv_loads [OF less.prems, of 8 4] True obtain W where
      W: "\<forall>i < 4. load s (p + int (8 * i)) 8 = Some (W i) \<and> length (W i) = 8"
      and inv: "count_inv s N tot (p + int (8 * 4)) (count - 8 * 4)
        (bits + (c0 + c1 + c2 + c3) + (\<Sum>i < 4. ones (W i)))" by auto
    have w: "load s p 8 = Some (W 0)" "load s (p + 8) 8 = Some (W 1)" "load s (p + 16) 8 = Some (W 2)"
      "load s (p + 24) 8 = Some (W 3)"
      using W [rule_format, of 0] W [rule_format, of 1] W [rule_format, of 2] W [rule_format, of 3]
      by simp_all
    have eq: "bits + (c0 + c1 + c2 + c3) + (\<Sum>i < 4. ones (W i))
        = bits + ((c0 + popcountll (W 0)) + (c1 + popcountll (W 1)) + (c2 + popcountll (W 2))
          + (c3 + popcountll (W 3)))"
      using W by (simp add: popcountll_ones numeral_eq_Suc)
    have inv': "count_inv s N tot (p + 32) (count - 32) (bits + ((c0 + popcountll (W 0))
        + (c1 + popcountll (W 1)) + (c2 + popcountll (W 2)) + (c3 + popcountll (W 3))))"
      using inv unfolding eq by simp
    have "\<exists>p' c' d0 d1 d2 d3. pop_popcnt s (p + 32) (count - 32)
        (c0 + popcountll (W 0), c1 + popcountll (W 1), c2 + popcountll (W 2), c3 + popcountll (W 3))
        = Some (p', c', d0, d1, d2, d3) \<and> count_inv s N tot p' c' (bits + (d0 + d1 + d2 + d3))"
      using True by (intro less.IH [OF _ inv']) auto
    then show ?thesis using True w by (subst pop_popcnt.simps) simp
  qed
qed

text \<open>Seven words: the byte sums stay below 57, their total below 225.\<close>

definition word_sums :: "byte list \<Rightarrow> int list" where
  "word_sums bs = map (\<lambda>b. popcount 8 (uint b)) bs"

lemma load32_swar:
  assumes "load s p 4 = Some bs"
  shows "\<exists>w. load32 s p = Some w \<and> uint (swar w) = val (word_sums bs)"
proof -
  have len: "length bs = 4" using assms by (rule load_SomeD)
  have val: "le_uint bs = val (map uint bs)" by (induction bs) simp_all
  have "uint (word_of_int (le_uint bs) :: 32 word) = le_uint bs"
    using le_uint_less [of bs] len by (simp only: uint_word_of_int) simp
  then have "uint (swar (word_of_int (le_uint bs))) = val (map (popcount 8) (map uint bs))"
    using len uint_byte_less by (intro swar_val) (auto simp: val digits_def)
  then show ?thesis using assms by (simp add: load32_def word_sums_def comp_def)
qed

lemma word_sums_four:
  assumes "length bs = 4"
  shows "\<exists>a b c d. val (word_sums bs) = a + 256 * b + 65536 * c + 16777216 * d \<and> ones bs = a + b + c + d
    \<and> 0 \<le> a \<and> a \<le> 8 \<and> 0 \<le> b \<and> b \<le> 8 \<and> 0 \<le> c \<and> c \<le> 8 \<and> 0 \<le> d \<and> d \<le> 8"
proof -
  obtain w x y z where bs: "bs = [w, x, y, z]"
    using assms by (auto simp: numeral_eq_Suc length_Suc_conv)
  have r: "0 \<le> popcount 8 (uint b) \<and> popcount 8 (uint b) \<le> 8" for b :: byte
    using byte_sums [of "uint b"] uint_byte_less [of b] by simp
  show ?thesis
    using r [of w] r [of x] r [of y] r [of z]
    by (intro exI [of _ "popcount 8 (uint w)"] exI [of _ "popcount 8 (uint x)"]
        exI [of _ "popcount 8 (uint y)"] exI [of _ "popcount 8 (uint z)"])
      (simp add: bs word_sums_def)
qed

text \<open>A sum of words that are sums of four small bytes.\<close>

definition quad :: "32 word \<Rightarrow> int \<Rightarrow> int \<Rightarrow> bool" where
  "quad w n k \<longleftrightarrow> (\<exists>a b c d. uint w = a + 256 * b + 65536 * c + 16777216 * d \<and> n = a + b + c + d
     \<and> 0 \<le> a \<and> a \<le> k \<and> 0 \<le> b \<and> b \<le> k \<and> 0 \<le> c \<and> c \<le> k \<and> 0 \<le> d \<and> d \<le> k)"

lemma quad_add:
  assumes "quad v n k" and "quad w m l" and "k + l < 64"
  shows "quad (v + w) (n + m) (k + l)"
proof -
  obtain a b c d where v: "uint v = a + 256 * b + 65536 * c + 16777216 * d" "n = a + b + c + d"
    "0 \<le> a" "a \<le> k" "0 \<le> b" "b \<le> k" "0 \<le> c" "c \<le> k" "0 \<le> d" "d \<le> k"
    using assms(1) by (auto simp: quad_def)
  obtain a' b' c' d' where w: "uint w = a' + 256 * b' + 65536 * c' + 16777216 * d'" "m = a' + b' + c' + d'"
    "0 \<le> a'" "a' \<le> l" "0 \<le> b'" "b' \<le> l" "0 \<le> c'" "c' \<le> l" "0 \<le> d'" "d' \<le> l"
    using assms(2) by (auto simp: quad_def)
  have "uint v + uint w < 2 ^ 32" using v w assms(3) by simp
  then have "uint (v + w) = uint v + uint w" by (simp add: uint_word_ariths)
  then have e: "uint (v + w) = (a + a') + 256 * (b + b') + 65536 * (c + c') + 16777216 * (d + d')"
    by (simp add: v(1) w(1))
  have n: "n + m = (a + a') + (b + b') + (c + c') + (d + d')" by (simp add: v(2) w(2))
  show ?thesis
    unfolding quad_def
    by (intro exI conjI) (rule e n add_nonneg_nonneg add_mono v(3-) w(3-))+
qed

lemma quad_total:
  assumes "quad w n k" and "k < 64"
  shows "uint (drop_bit 24 (w * 0x01010101)) = n"
proof -
  obtain a b c d where v: "uint w = a + 256 * b + 65536 * c + 16777216 * d" "n = a + b + c + d"
    "0 \<le> a" "a \<le> k" "0 \<le> b" "b \<le> k" "0 \<le> c" "c \<le> k" "0 \<le> d" "d \<le> k"
    using assms(1) by (auto simp: quad_def)
  define r where "r = a + 256 * (a + b) + 65536 * (a + b + c) + 16777216 * (a + b + c + d)"
  define h where "h = (b + c + d) + 256 * (c + d) + 65536 * d"
  have "uint w * 0x01010101 = r + 2 ^ 32 * h" by (simp add: v(1) r_def h_def algebra_simps)
  moreover have r: "0 \<le> r" "r < 2 ^ 32" using v assms(2) by (simp_all add: r_def)
  ultimately have "uint (w * 0x01010101) = r" by (simp add: uint_word_ariths)
  then have "uint (drop_bit 24 (w * 0x01010101)) = r div 16777216"
    by (simp add: drop_bit_eq_div uint_div_distrib)
  also have "r = (a + 256 * (a + b) + 65536 * (a + b + c)) + 16777216 * n"
    by (simp add: r_def v(2))
  also have "\<dots> div 16777216 = n" using v assms(2) by simp
  finally show ?thesis .
qed

lemma load32_quad:
  assumes "load s p 4 = Some bs"
  shows "\<exists>w. load32 s p = Some w \<and> quad (swar w) (ones bs) 8"
proof -
  have len: "length bs = 4" using assms by (rule load_SomeD)
  show ?thesis
    using load32_swar [OF assms] word_sums_four [OF len] unfolding quad_def by metis
qed

lemma pop_swar_ok:
  "count_inv s N tot p count bits \<Longrightarrow>
   \<exists>p' c' b'. pop_swar s p count bits = Some (p', c', b') \<and> count_inv s N tot p' c' b'"
proof (induction count arbitrary: p bits rule: less_induct)
  case (less count)
  show ?case
  proof (cases "28 \<le> count")
    case False
    then show ?thesis using less.prems by (subst pop_swar.simps) simp
  next
    case True
    from count_inv_loads [OF less.prems, of 4 7] True obtain W where
      W: "\<forall>i < 7. load s (p + int (4 * i)) 4 = Some (W i) \<and> length (W i) = 4"
      and inv: "count_inv s N tot (p + int (4 * 7)) (count - 4 * 7) (bits + (\<Sum>i < 7. ones (W i)))"
      by auto
    have "\<forall>i < 7. \<exists>w. load32 s (p + int (4 * i)) = Some w \<and> quad (swar w) (ones (W i)) 8"
      using W load32_quad by blast
    then obtain w where w: "\<forall>i < 7. load32 s (p + int (4 * i)) = Some (w i) \<and> quad (swar (w i)) (ones (W i)) 8"
      by metis
    note ww = w [rule_format, of 0] w [rule_format, of 1] w [rule_format, of 2] w [rule_format, of 3]
      w [rule_format, of 4] w [rule_format, of 5] w [rule_format, of 6]
    have ld: "load32 s p = Some (w 0)" "load32 s (p + 4) = Some (w 1)" "load32 s (p + 8) = Some (w 2)"
      "load32 s (p + 12) = Some (w 3)" "load32 s (p + 16) = Some (w 4)" "load32 s (p + 20) = Some (w 5)"
      "load32 s (p + 24) = Some (w 6)"
      using ww by simp_all
    have q: "quad (swar (w i)) (ones (W i)) 8" if "i < 7" for i using w that by blast
    have "quad (swar (w 0) + swar (w 1) + swar (w 2) + swar (w 3) + swar (w 4) + swar (w 5) + swar (w 6))
        (ones (W 0) + ones (W 1) + ones (W 2) + ones (W 3) + ones (W 4) + ones (W 5) + ones (W 6))
        (8 + 8 + 8 + 8 + 8 + 8 + 8)"
      by (intro quad_add q) simp_all
    moreover have "(\<Sum>i < 7. ones (W i))
        = ones (W 0) + ones (W 1) + ones (W 2) + ones (W 3) + ones (W 4) + ones (W 5) + ones (W 6)"
      by (simp add: numeral_eq_Suc)
    ultimately have t: "uint (drop_bit 24 ((swar (w 0) + swar (w 1) + swar (w 2) + swar (w 3) + swar (w 4)
        + swar (w 5) + swar (w 6)) * 0x01010101)) = (\<Sum>i < 7. ones (W i))"
      using quad_total by fastforce
    have "\<exists>p' c' b'. pop_swar s (p + 28) (count - 28) (bits + (\<Sum>i < 7. ones (W i))) = Some (p', c', b')
        \<and> count_inv s N tot p' c' b'"
      using inv True by (intro less.IH) auto
    then show ?thesis using True ld t by (subst pop_swar.simps) simp
  qed
qed

lemma redisPopcount_ok:
  assumes "count \<le> length s"
  shows "redisPopcount use_popcnt addr s count = Some (int (card {i. i < 8 * count \<and> bitmap s i}))"
proof -
  define tot where "tot = ones (take count s)"
  have "count_inv s count tot 0 count 0" using assms by (auto simp: count_inv_def tot_def)
  from pop_align_ok [OF this] obtain p c b where a:
    "pop_align addr s (if use_popcnt then 7 else 3) 0 count 0 = Some (p, c, b)" "count_inv s count tot p c b"
    by blast
  have "redisPopcount use_popcnt addr s count = Some tot"
  proof (cases use_popcnt)
    case True
    from pop_popcnt_ok [of s count tot p c b 0 0 0 0] a(2) obtain p' c' d0 d1 d2 d3 where
      "pop_popcnt s p c (0, 0, 0, 0) = Some (p', c', d0, d1, d2, d3)"
      "count_inv s count tot p' c' (b + (d0 + d1 + d2 + d3))" by auto
    then show ?thesis using True a(1) by (simp add: redisPopcount_def pop_remain_ok)
  next
    case False
    from pop_swar_ok [OF a(2)] obtain p' c' b' where
      "pop_swar s p c b = Some (p', c', b')" "count_inv s count tot p' c' b'" by blast
    then show ?thesis using False a(1) by (simp add: redisPopcount_def pop_remain_ok)
  qed
  then show ?thesis by (simp add: card_bitmap [OF assms] tot_def)
qed

end
