(* ===== verification/Bitops_Pos.thy ===== *)
theory Bitops_Pos
  imports Bitops_Field
begin

text \<open>
  Finding the first bit of a given value: the skipped bytes and words hold only the other value,
  the word that is scanned holds the next bits, and what follows the string counts as zeros.
\<close>

unbundle bit_operations_syntax

definition skip_byte :: "bool \<Rightarrow> byte" where
  "skip_byte b = (if b then 0 else 255)"

lemma bit_skip_byte: "n < 8 \<Longrightarrow> bit (skip_byte b) n = (\<not> b)"
proof -
  assume "n < 8"
  then have "bit (mask 8 :: byte) n" by (simp only: bit_mask_iff) simp
  then show ?thesis by (simp add: skip_byte_def mask_eq_exp_minus_1)
qed

text \<open>The first \<open>8 * c\<close> bits are not \<open>b\<close>, and \<open>count\<close> bytes are left of \<open>N\<close>.\<close>

definition pos_inv :: "mem \<Rightarrow> nat \<Rightarrow> bool \<Rightarrow> nat \<Rightarrow> nat \<Rightarrow> bool" where
  "pos_inv s N b c count \<longleftrightarrow> c + count = N \<and> N \<le> length s \<and> (\<forall>i < 8 * c. bitmap s i = (\<not> b))"

lemma pos_inv_skip:
  assumes "pos_inv s N b c count" and "n \<le> count" and "\<forall>j < n. s ! (c + j) = skip_byte b"
  shows "pos_inv s N b (c + n) (count - n)"
proof -
  have "bitmap s i = (\<not> b)" if "i < 8 * (c + n)" for i
  proof (cases "i < 8 * c")
    case True
    then show ?thesis using assms(1) by (simp add: pos_inv_def)
  next
    case False
    then have "c \<le> i div 8" "i div 8 < c + n" using that by (simp_all add: less_mult_imp_div_less)
    then have "s ! (i div 8) = skip_byte b" using assms(3) [rule_format, of "i div 8 - c"] by simp
    then show ?thesis by (simp add: bitmap_def bit_skip_byte)
  qed
  then show ?thesis using assms(1,2) by (auto simp: pos_inv_def)
qed

text \<open>A byte that is not skipped has a bit of the wanted value.\<close>

lemma not_skip_bit:
  assumes "(x :: byte) \<noteq> skip_byte b"
  shows "\<exists>j < 8. bit x (7 - j) = b"
proof -
  obtain n where n: "n < 8" "bit x n \<noteq> bit (skip_byte b) n"
    using assms bit_word_eqI [of x "skip_byte b"] by auto
  then show ?thesis by (intro exI [of _ "7 - n"]) (auto simp: bit_skip_byte)
qed

text \<open>The scan will find its bit: the next word holds one, or fewer than eight bytes are left.\<close>

definition ready :: "mem \<Rightarrow> bool \<Rightarrow> nat \<Rightarrow> nat \<Rightarrow> bool" where
  "ready s b c count \<longleftrightarrow> count < 8 \<or> (\<exists>n < 64. bitmap s (8 * c + n) = b)"

lemma ready_byte:
  assumes "s ! (c + j) \<noteq> skip_byte b" and "j < 8"
  shows "\<exists>n < 64. bitmap s (8 * c + n) = b"
proof -
  obtain k where k: "k < 8" "bit (s ! (c + j)) (7 - k) = b" using not_skip_bit [OF assms(1)] by blast
  have "(8 * c + (8 * j + k)) div 8 = c + j" "(8 * c + (8 * j + k)) mod 8 = k" using k(1) by simp_all
  then show ?thesis using k assms(2) by (intro exI [of _ "8 * j + k"]) (simp add: bitmap_def)
qed

lemma bitpos_align_ok:
  assumes "pos_inv s N b c count"
  shows "\<exists>c' count' found. bitpos_align addr s (skip_byte b) (int c) count (8 * int c)
      = Some (int c', count', 8 * int c', found)
    \<and> pos_inv s N b c' count' \<and> (found \<longrightarrow> ready s b c' count')"
  using assms
proof (induction count arbitrary: c)
  case 0
  then show ?case by (subst bitpos_align.simps) auto
next
  case (Suc count)
  have r: "rd s (int c) = Some (s ! c)" using Suc.prems by (simp add: rd_nat pos_inv_def)
  consider "(addr + int c) AND 7 = 0" | "(addr + int c) AND 7 \<noteq> 0" "s ! c \<noteq> skip_byte b"
    | "(addr + int c) AND 7 \<noteq> 0" "s ! c = skip_byte b" by blast
  then show ?case
  proof cases
    case 1
    then show ?thesis using Suc.prems by (subst bitpos_align.simps) auto
  next
    case 2
    have "ready s b c (Suc count)"
      using ready_byte [of s c 0 b] 2(2) by (simp add: ready_def)
    then show ?thesis using 2 r Suc.prems by (subst bitpos_align.simps) auto
  next
    case 3
    have "pos_inv s N b (Suc c) count" using pos_inv_skip [OF Suc.prems, of 1] 3(2) by simp
    from Suc.IH [OF this] show ?thesis
      using 3 r by (subst bitpos_align.simps) (simp add: algebra_simps)
  qed
qed

lemma bitpos_words_ok:
  assumes "pos_inv s N b c count"
  shows "\<exists>c' count'. bitpos_words s (skip_byte b) (int c) count (8 * int c)
      = Some (int c', count', 8 * int c')
    \<and> pos_inv s N b c' count' \<and> ready s b c' count'"
  using assms
proof (induction count arbitrary: c rule: less_induct)
  case (less count)
  show ?case
  proof (cases "8 \<le> count")
    case False
    then show ?thesis using less.prems by (subst bitpos_words.simps) (auto simp: ready_def)
  next
    case True
    then have ld: "load s (int c) 8 = Some (take 8 (drop c s))"
      using less.prems by (simp add: load_nat pos_inv_def)
    have len: "length (take 8 (drop c s)) = 8" using True less.prems by (auto simp: pos_inv_def)
    show ?thesis
    proof (cases "take 8 (drop c s) = replicate 8 (skip_byte b)")
      case eq: True
      have "s ! (c + j) = skip_byte b" if "j < 8" for j
        using arg_cong [OF eq, of "\<lambda>xs. xs ! j"] that len by simp
      then have "pos_inv s N b (c + 8) (count - 8)" using pos_inv_skip [OF less.prems True] by blast
      from less.IH [OF _ this] True show ?thesis
        using ld eq by (subst bitpos_words.simps) (simp add: algebra_simps)
    next
      case False
      then obtain j where "j < 8" "take 8 (drop c s) ! j \<noteq> skip_byte b"
        using len by (metis length_replicate nth_equalityI nth_replicate)
      then have "ready s b c count" using ready_byte [of s c j b] len by (simp add: ready_def)
      then show ?thesis using True False ld less.prems by (subst bitpos_words.simps) auto
    qed
  qed
qed

lemma bitpos_load_ok:
  assumes "c + count \<le> length s" and "j \<le> 8"
  shows "\<exists>w'. bitpos_load j s (int c) count w = Some w'
    \<and> (\<forall>n < 64. bit w' (63 - n) = (if 64 \<le> n + 8 * j then n + 8 * j - 64 < 8 * count \<and> bitmap s (8 * c + (n + 8 * j - 64))
         else bit w (63 - n - 8 * j)))"
  using assms
proof (induction j arbitrary: c count w)
  case 0
  then show ?case by auto
next
  case (Suc j)
  define w1 where "w1 = (if count \<noteq> 0 then push_bit 8 w OR ucast (s ! c) else push_bit 8 w)"
  define c1 where "c1 = (if count \<noteq> 0 then c + 1 else c)"
  have w1: "bit w1 m = (if m < 8 then count \<noteq> 0 \<and> bit (s ! c) m else bit w (m - 8))" if "m < 64" for m
    using that bit_imp_le_length [of "s ! c" m]
    by (auto simp: w1_def bit_or_iff bit_push_bit_iff bit_unsigned_iff)
  have c1: "c1 + (count - 1) \<le> length s" using Suc.prems(1) by (auto simp: c1_def)
  have step: "bitpos_load (Suc j) s (int c) count w = bitpos_load j s (int c1) (count - 1) w1"
    using Suc.prems(1) by (auto simp: w1_def c1_def rd_nat add.commute)
  obtain w' where w': "bitpos_load j s (int c1) (count - 1) w1 = Some w'"
    "\<forall>n < 64. bit w' (63 - n) = (if 64 \<le> n + 8 * j
       then n + 8 * j - 64 < 8 * (count - 1) \<and> bitmap s (8 * c1 + (n + 8 * j - 64))
       else bit w1 (63 - n - 8 * j))"
    using Suc.IH [of c1 "count - 1" w1] c1 Suc.prems(2) by auto
  have "bit w' (63 - n) = (if 64 \<le> n + 8 * Suc j
      then n + 8 * Suc j - 64 < 8 * count \<and> bitmap s (8 * c + (n + 8 * Suc j - 64))
      else bit w (63 - n - 8 * Suc j))" if n: "n < 64" for n
  proof -
    consider "64 \<le> n + 8 * j" | "n + 8 * j < 64" "64 \<le> n + 8 * Suc j" | "n + 8 * Suc j < 64" by linarith
    then show ?thesis
    proof cases
      case 1
      define t where "t = n + 8 * j - 64"
      have e: "n + 8 * Suc j - 64 = t + 8" "64 \<le> n + 8 * Suc j" using 1 by (simp_all add: t_def)
      have b: "bit w' (63 - n) = (t < 8 * (count - 1) \<and> bitmap s (8 * c1 + t))"
        using w'(2) n 1 by (simp add: t_def)
      have "8 * c1 + t = 8 * c + (t + 8)" if "count \<noteq> 0" using that by (simp add: c1_def)
      then show ?thesis unfolding e(1) b using e(2) by (cases "count = 0") (auto simp: add.assoc add.commute [of 8])
    next
      case 2
      define m where "m = 63 - n - 8 * j"
      define r where "r = n + 8 * Suc j - 64"
      have m: "m < 8" "r < 8" "7 - r = m" "m < 64" using 2 by (auto simp: m_def r_def)
      have "bitmap s (8 * c + r) = bit (s ! c) m" using m by (simp add: bitmap_def)
      moreover have "bit w' (63 - n) = bit w1 m" using w'(2) n 2(1) by (auto simp: m_def)
      moreover have "r < 8 * count \<longleftrightarrow> count \<noteq> 0" using m(2) by auto
      ultimately show ?thesis using 2(2) w1 [OF m(4)] m(1) unfolding r_def [symmetric] by auto
    next
      case 3
      then show ?thesis using n w'(2) w1 [of "63 - n - 8 * j"] by auto
    qed
  qed
  then show ?case unfolding step using w'(1) by blast
qed

lemma bitpos_scan_ok:
  assumes "m < k" and "k \<le> 64" and "bit w (k - 1 - m) = b" and "\<forall>j < m. bit w (k - 1 - j) \<noteq> b"
  shows "bitpos_scan k w b pos = Some (pos + int m)"
  using assms
proof (induction k arbitrary: m pos)
  case (Suc k)
  show ?case
  proof (cases m)
    case 0
    then show ?thesis using Suc.prems by (simp add: and.commute and_exp_eq_0_iff_not_bit)
  next
    case (Suc m')
    then have "bitpos_scan k w b (pos + 1) = Some (pos + 1 + int m')"
      using Suc.prems by (intro Suc.IH) auto
    moreover have "bit w k \<noteq> b" using Suc.prems(4) Suc by force
    ultimately show ?thesis using Suc by (simp add: and.commute and_exp_eq_0_iff_not_bit)
  qed
qed simp

text \<open>
  The specification: the first position below \<open>8 * N\<close> with the wanted value; without one, -1 for
  a one and the position after the string for a zero.
\<close>

definition first_bit :: "mem \<Rightarrow> nat \<Rightarrow> bool \<Rightarrow> int \<Rightarrow> bool" where
  "first_bit s N b r \<longleftrightarrow>
     (if \<exists>i < 8 * N. bitmap s i = b
      then \<exists>k. r = int k \<and> k < 8 * N \<and> bitmap s k = b \<and> (\<forall>i < k. bitmap s i \<noteq> b)
      else r = (if b then -1 else int (8 * N)))"

lemma bitpos_finish:
  assumes inv: "pos_inv s N b c count" and ready: "ready s b c count"
  shows "\<exists>w r. bitpos_load 8 s (int c) count 0 = Some w
    \<and> (if b \<and> w = 0 then Some (-1) else bitpos_scan 64 w b (8 * int c)) = Some r \<and> first_bit s N b r"
proof -
  obtain w where w: "bitpos_load 8 s (int c) count 0 = Some w"
    and bits: "\<And>n. n < 64 \<Longrightarrow> bit w (63 - n) = (n < 8 * count \<and> bitmap s (8 * c + n))"
    using bitpos_load_ok [of c count s 8 0] inv by (auto simp: pos_inv_def)
  have N: "8 * N = 8 * c + 8 * count" and pre: "\<And>i. i < 8 * c \<Longrightarrow> bitmap s i = (\<not> b)"
    using inv by (auto simp: pos_inv_def)
  define P where "P n \<longleftrightarrow> n < 64 \<and> bit w (63 - n) = b" for n
  have in_word: "P n \<longleftrightarrow> bitmap s (8 * c + n) = b" if "n < 8 * count" "n < 64" for n
    using bits that by (simp add: P_def)
  show ?thesis
  proof (cases "\<exists>n. P n")
    case False
    have none: "\<not> bitmap s i = b" if "i < 8 * c + 8 * count" "i < 8 * c + 64" for i
      using pre [of i] in_word [of "i - 8 * c"] False that by (cases "i < 8 * c") auto
    have count: "count < 8"
    proof (rule ccontr)
      assume "\<not> count < 8"
      with ready obtain n where "n < 64" "bitmap s (8 * c + n) = b" by (auto simp: ready_def)
      then show False using none [of "8 * c + n"] \<open>\<not> count < 8\<close> by simp
    qed
    have "P 63" if "\<not> b" using bits [of 63] count that by (simp add: P_def)
    then have b using False by blast
    have "w = 0"
    proof (rule bit_word_eqI)
      fix n assume "n < LENGTH(64)"
      then show "bit w n = bit 0 n" using False \<open>b\<close> by (auto simp: P_def dest: spec [of _ "63 - n"])
    qed
    moreover have "first_bit s N b (-1)"
      using none count N \<open>b\<close> by (auto simp: first_bit_def)
    ultimately show ?thesis using w \<open>b\<close> by auto
  next
    case True
    define m where "m = (LEAST n. P n)"
    have m: "P m" and least: "\<And>j. j < m \<Longrightarrow> \<not> P j"
      using True unfolding m_def by (auto intro: LeastI dest: not_less_Least)
    have m64: "m < 64" using m by (simp add: P_def)
    have scan: "bitpos_scan 64 w b (8 * int c) = Some (8 * int c + int m)"
      using m least m64 by (intro bitpos_scan_ok) (auto simp: P_def)
    have "\<not> (b \<and> w = 0)" using m by (auto simp: P_def)
    moreover have "first_bit s N b (8 * int c + int m)"
    proof (cases "m < 8 * count")
      case True
      have "bitmap s i \<noteq> b" if "i < 8 * c + m" for i
        using pre [of i] in_word [of "i - 8 * c"] least [of "i - 8 * c"] that True m64
        by (cases "i < 8 * c") auto
      moreover have "bitmap s (8 * c + m) = b" using in_word [OF True m64] m by simp
      ultimately show ?thesis
        unfolding first_bit_def using True N by (auto intro!: exI [of _ "8 * c + m"])
    next
      case False
      then have "\<not> b" using bits [OF m64] m by (simp add: P_def)
      moreover have "\<not> 8 * count < m"
        using bits [of "8 * count"] least [of "8 * count"] m64 \<open>\<not> b\<close> by (auto simp: P_def)
      then have "m = 8 * count" using False by simp
      moreover have "bitmap s i \<noteq> b" if "i < 8 * N" for i
        using pre [of i] in_word [of "i - 8 * c"] least [of "i - 8 * c"] that N m64 \<open>m = 8 * count\<close>
        by (cases "i < 8 * c") auto
      ultimately show ?thesis using N by (auto simp: first_bit_def)
    qed
    ultimately show ?thesis using w scan by auto
  qed
qed

lemma redisBitpos_ok:
  assumes "N \<le> length s"
  shows "\<exists>r. redisBitpos addr s N b = Some r \<and> first_bit s N b r"
proof -
  have "pos_inv s N b 0 N" using assms by (simp add: pos_inv_def)
  from bitpos_align_ok [OF this, of addr] obtain c count found where a:
    "bitpos_align addr s (skip_byte b) 0 N 0 = Some (int c, count, 8 * int c, found)"
    "pos_inv s N b c count" "found \<longrightarrow> ready s b c count" by auto
  obtain c' count' where b: "(if found then Some (int c, count, 8 * int c)
      else bitpos_words s (skip_byte b) (int c) count (8 * int c)) = Some (int c', count', 8 * int c')"
    "pos_inv s N b c' count'" "ready s b c' count'"
    using bitpos_words_ok [OF a(2)] a(2,3) by (cases found) auto
  from bitpos_finish [OF b(2,3)] obtain w r where "bitpos_load 8 s (int c') count' 0 = Some w"
    "(if b \<and> w = 0 then Some (-1) else bitpos_scan 64 w b (8 * int c')) = Some r" "first_bit s N b r" by blast
  then show ?thesis
    using a(1) b(1) by (simp add: redisBitpos_def Let_def skip_byte_def [symmetric])
qed

end
