(* ===== verification/Bitops_Correct.thy ===== *)
theory Bitops_Correct
  imports Bitops_Bitfield Bitops_Count Bitops_Pos
begin

text \<open>The properties of the bitmap operations and of the BITFIELD command.\<close>

unbundle bit_operations_syntax

text \<open>
  C36. \<open>redisPopcount\<close>, with or without the processor's instruction and whatever the alignment of
  the string, reads only the string and returns the number of its one bits.
\<close>

theorem redisPopcount_exact:
  assumes "count \<le> length s"
  shows "redisPopcount use_popcnt addr s count = Some (int (card {i. i < 8 * count \<and> bitmap s i}))"
  by (rule redisPopcount_ok [OF assms])

definition sample_bits :: "byte list" where
  "sample_bits = replicate 28 1 @ [255, 3, 0, 128]"

theorem redisPopcount_exact_witness:
  "redisPopcount False 1 sample_bits 32 = Some (int (card {i. i < 256 \<and> bitmap sample_bits i}))
    \<and> redisPopcount False 1 sample_bits 32 = Some 39"
proof
  have "length sample_bits = 32" by (simp add: sample_bits_def)
  then show "redisPopcount False 1 sample_bits 32 = Some (int (card {i. i < 256 \<and> bitmap sample_bits i}))"
    using redisPopcount_exact [of 32 sample_bits False 1] by simp
  show "redisPopcount False 1 sample_bits 32 = Some 39" by code_simp
qed

text \<open>
  C37. \<open>redisBitpos\<close> reads only the string and returns the first position of a bit of the wanted
  value; if the string has none, it returns -1 for a one and the first position after the
  string for a zero. The final panic is never reached.
\<close>

theorem redisBitpos_exact:
  assumes "count \<le> length s"
  shows "\<exists>r. redisBitpos addr s count b = Some r \<and> first_bit s count b r"
  by (rule redisBitpos_ok [OF assms])

theorem redisBitpos_exact_witness:
  "(\<exists>r. redisBitpos 5 (replicate 12 255 @ [0xfb]) 13 False = Some r
      \<and> first_bit (replicate 12 255 @ [0xfb]) 13 False r)
    \<and> redisBitpos 5 (replicate 12 255 @ [0xfb]) 13 False = Some 101"
proof
  show "\<exists>r. redisBitpos 5 (replicate 12 255 @ [0xfb]) 13 False = Some r
      \<and> first_bit (replicate 12 255 @ [0xfb]) 13 False r"
    by (rule redisBitpos_exact) simp
  show "redisBitpos 5 (replicate 12 255 @ [0xfb]) 13 False = Some 101" by code_simp
qed

text \<open>
  C33. A SET or INCRBY of BITFIELD on a field inside the string stores what the overflow policy asks
  for: the requested number if it fits; otherwise the number modulo the width, the nearest
  bound, or nothing at all and a null reply. The reply is the new value for INCRBY and the old
  one for SET, and no bit outside the field changes. For a SET with saturation this holds when, in
  a signed field, the distance from the number to the largest value of the field fits 64 bits,
  and, in an unsigned field, the number is not negative.
\<close>

theorem bitfield_write_refines:
  assumes "op_ok thisop" and "sat_in_reach thisop"
    and "op_offset thisop + op_bits thisop \<le> 8 * length s"
    and "field_value (op_sign thisop) (op_bits thisop) s (op_offset thisop) = Some old"
  shows "\<exists>s' reply c. bitfield_write thisop s grow = Some (s', reply, c) \<and> length s' = length s
    \<and> (case bf_result (op_sign thisop) (op_bits thisop) (op_owtype thisop) (requested thisop old) of
         None \<Rightarrow> s' = s \<and> reply = ReplyNull
       | Some n \<Rightarrow> field_value (op_sign thisop) (op_bits thisop) s' (op_offset thisop) = Some n
           \<and> reply = ReplyLongLong (if op_opcode thisop = BITFIELDOP_INCRBY then n else old)
           \<and> (\<forall>i < 8 * length s. i < op_offset thisop \<or> op_offset thisop + op_bits thisop \<le> i
                \<longrightarrow> bitmap s' i = bitmap s i))"
  by (rule bitfield_write_ok [OF assms])

text \<open>Adding 10 to the signed five-bit field at bit 6, which holds 12, wraps to -10.\<close>

definition sample_op :: bitfieldOp where
  "sample_op = \<lparr>op_offset = 6, op_i64 = 10, op_opcode = BITFIELDOP_INCRBY,
     op_owtype = BFOVERFLOW_WRAP, op_bits = 5, op_sign = True\<rparr>"

lemma sample_fields:
  "op_offset sample_op = 6" "op_bits sample_op = 5" "op_sign sample_op = True"
  "op_owtype sample_op = BFOVERFLOW_WRAP" "op_opcode sample_op = BITFIELDOP_INCRBY" "op_i64 sample_op = 10"
  by (simp_all add: sample_op_def)

lemma sample_op_ok: "op_ok sample_op" "sat_in_reach sample_op"
  by (simp_all add: op_ok_def sat_in_reach_def sample_fields)

theorem bitfield_write_refines_witness:
  "\<exists>s' c. bitfield_write sample_op [1, 0x80] 0 = Some (s', ReplyLongLong (-10), c)
    \<and> field_value True 5 s' 6 = Some (-10) \<and> field_value True 5 [1, 0x80] 6 = Some 12"
proof -
  have old: "field_value True 5 [1, 0x80] 6 = Some 12" by code_simp
  have new: "bf_result True 5 BFOVERFLOW_WRAP (requested sample_op 12) = Some (-10)" by code_simp
  have "length [1, 0x80 :: byte] = 2" by simp
  then have "\<exists>s' reply c. bitfield_write sample_op [1, 0x80] 0 = Some (s', reply, c)
      \<and> length s' = length [1, 0x80 :: byte]
      \<and> (case bf_result True 5 BFOVERFLOW_WRAP (requested sample_op 12) of
           None \<Rightarrow> s' = [1, 0x80] \<and> reply = ReplyNull
         | Some n \<Rightarrow> field_value True 5 s' 6 = Some n
             \<and> reply = ReplyLongLong (if BITFIELDOP_INCRBY = BITFIELDOP_INCRBY then n else 12)
             \<and> (\<forall>i < 8 * length [1, 0x80 :: byte]. i < 6 \<or> 6 + 5 \<le> i \<longrightarrow> bitmap s' i = bitmap [1, 0x80] i))"
    using bitfield_write_refines [of sample_op "[1, 0x80]" 12 0] old
      sample_op_ok
    unfolding sample_fields by simp
  then show ?thesis using old unfolding new by auto
qed

text \<open>
  C34. Whatever its arguments and the value at its key, the BITFIELD command answers: every field of
  every operation it accepts lies inside the string it has made room for, so that nothing
  outside it is read or written.
\<close>

theorem bitfield_command_safe: "\<exists>r. bitfieldGeneric cfg ro o1 args = Some r"
  by (rule bitfieldGeneric_total)

text \<open>
  C35. Every plan the parser of BITFIELD accepts is well typed: widths from 1 to 64 bits, 63 if
  unsigned, arguments within 64 bits, and every write within the highest offset of the plan.
\<close>

theorem bitfield_plan_typed:
  assumes "bitfield_parse cfg args ow \<lparr>pl_ops = [], pl_readonly = True, pl_highest = 0\<rparr> = Inr pl"
  shows "\<forall>thisop \<in> set (pl_ops pl). op_ok thisop
     \<and> (op_opcode thisop \<noteq> BITFIELDOP_GET \<longrightarrow>
          \<not> pl_readonly pl \<and> op_offset thisop + op_bits thisop \<le> pl_highest pl + 1)"
  using bitfield_parse_ok [OF _ assms] by (simp add: plan_ok_def)

definition sample_config :: bit_config where
  "sample_config = \<lparr>must_obey = False, max_bulk = 536870912\<rparr>"

definition sample_args :: "byte list list" where
  "sample_args = [map of_char ''incrby'', map of_char ''i5'', map of_char ''6'', map of_char ''10'']"

definition sample_plan :: bitfield_plan where
  "sample_plan = \<lparr>pl_ops = [sample_op], pl_readonly = False, pl_highest = 10\<rparr>"

lemma sample_parse:
  "bitfield_parse sample_config sample_args BFOVERFLOW_WRAP
     \<lparr>pl_ops = [], pl_readonly = True, pl_highest = 0\<rparr> = Inr sample_plan"
  by code_simp

theorem bitfield_plan_typed_witness:
  "op_ok sample_op \<and> \<not> pl_readonly sample_plan
    \<and> op_offset sample_op + op_bits sample_op \<le> pl_highest sample_plan + 1"
proof -
  have "sample_op \<in> set (pl_ops sample_plan)" by (simp add: sample_plan_def)
  moreover have "op_opcode sample_op \<noteq> BITFIELDOP_GET" by (simp add: sample_op_def)
  ultimately show ?thesis using bitfield_plan_typed [OF sample_parse] by blast
qed

text \<open>
  C38. GET of BITFIELD, which copies nine bytes into a zeroed buffer, replies the value of the field
  in the string followed by as many zeros as it takes.
\<close>

theorem bitfield_get_padded:
  assumes "op_ok thisop" and "op_offset thisop div 8 + 9 \<le> N"
  shows "\<exists>v. field_value (op_sign thisop) (op_bits thisop) (padded s N) (op_offset thisop) = Some v
    \<and> bitfield_get thisop s = Some (ReplyLongLong v)"
  by (rule bitfield_get_ok [OF assms])

theorem bitfield_get_padded_witness:
  "\<exists>v. field_value True 5 (padded [1] 9) 6 = Some v
    \<and> bitfield_get sample_op [1] = Some (ReplyLongLong v) \<and> v = 8"
proof -
  have "field_value True 5 (padded [1] 9) 6 = Some 8" by code_simp
  then show ?thesis
    using bitfield_get_padded [of sample_op 9 "[1]"] sample_op_ok(1) unfolding sample_fields by auto
qed

text \<open>
  C39. The signed overflow check takes an underflow for an overflow when the distance to the largest
  value of the field does not fit 64 bits: a saturating SET of a number that far down stores
  the largest value of the field instead of the smallest.
\<close>

theorem saturating_set_wrong_end:
  assumes "0 < k" and "k < 64" and "- (2 ^ 63) \<le> v" and "v < 2 ^ (k - 1) - 2 ^ 63"
  shows "checkSignedBitfieldOverflow v 0 k BFOVERFLOW_SAT = (1, Some (2 ^ (k - 1) - 1))
    \<and> bf_result True k BFOVERFLOW_SAT v = Some (- (2 ^ (k - 1)))"
proof -
  define M :: int where "M = 2 ^ (k - 1)"
  have "M \<le> 2 ^ 62" unfolding M_def using assms(2) by (intro power_increasing) auto
  then have M: "1 \<le> M" "M \<le> 2 ^ 62" by (simp_all add: M_def)
  have v: "v < M - 2 ^ 63" using assms(4) by (simp add: M_def)
  define x where "x = M - 1 - v"
  have x: "2 ^ 63 \<le> x" "x < 2 ^ 64" using v assms(3) M by (simp_all add: x_def)
  have "(x + 2 ^ 63) mod 2 ^ 64 = (x - 2 ^ 63 + 2 ^ 64) mod 2 ^ 64"
    by (rule arg_cong [of _ _ "\<lambda>y. y mod 2 ^ 64"]) simp
  also have "\<dots> = x - 2 ^ 63" unfolding mod_add_self2 using x by simp
  finally have "s64 x < 0" unfolding s64_def using x by simp
  then have "checkSignedBitfieldOverflow v 0 k BFOVERFLOW_SAT = (1, Some (M - 1))"
    using assms(2) by (simp add: checkSignedBitfieldOverflow_def Let_def M_def x_def)
  moreover have "v < - M" using v M by simp
  then have "bf_result True k BFOVERFLOW_SAT v = Some (- M)"
    by (simp add: bf_result_def fits_field_def field_min_def field_max_def M_def)
  ultimately show ?thesis by (simp add: M_def)
qed

theorem saturating_set_wrong_end_witness:
  "checkSignedBitfieldOverflow (- 9223372036854775808) 0 8 BFOVERFLOW_SAT = (1, Some 127)
    \<and> bf_result True 8 BFOVERFLOW_SAT (- 9223372036854775808) = Some (- 128)"
  using saturating_set_wrong_end [of 8 "- 9223372036854775808"] by simp

text \<open>
  The product of a \<open>#\<close> offset and the width is not checked: number 2 ^ 61 with eight bits wraps to
  offset 0.
\<close>

lemma hash_offset_wraps:
  "getBitOffsetFromArgument sample_config (map of_char ''#2305843009213693952'') True 8 = Inr 0"
  by code_simp

end
