(* ===== verification/Spec2Isabelle.thy ===== *)
theory Spec2Isabelle
  imports Intset_Correct Util_Num_Correct Listpack_Correct T_List_Correct
    Lzf_Correct Fwtree_Correct Bitops_Correct
begin

text \<open>
  A verification library for the data structures of the Redis server that the repository carries
  under \<open>redis-stable/src\<close>. They are the parts on which the stored data depends: blocks of bytes
  edited in place by pointer arithmetic, the conversions between numbers and text, compression,
  and the bit operations. All paths below are relative to that directory.

  \<^bold>\<open>The program.\<close> Small collections are single blocks of memory. An integer set (\<open>intset.c\<close>) is a
  sorted array of 16, 32 or 64-bit cells behind a header. A listpack (\<open>listpack.c\<close>) is a sequence
  of variable-length elements, each followed by its own length written backwards, so that it can
  be walked in both directions. The list type (\<open>t_list.c\<close>) keeps short lists in one listpack and
  implements the list commands on it. Strings that look like integers are stored as integers, so
  the decimal parsers and printers of \<open>util.c\<close> decide how an element is encoded. Long values are
  compressed with LZF (\<open>lzf_c.c\<close>, \<open>lzf_d.c\<close>). A Fenwick tree (\<open>fwtree.c\<close>) counts the keys per
  slot. \<open>bitops.c\<close> treats strings as arrays of bits and of integers of any width.

  \<^bold>\<open>Conventions.\<close> A block of memory is a list of bytes and an address is an offset into it, an
  integer. \<open>Redis_Base\<close> has the loads, stores, moves and reallocations; \<open>None\<close> is an access
  outside the block, a failed assertion or panic of the code, or, in the Fenwick tree, an overflow
  of a C int. An inner option is a \<open>NULL\<close>
  result, and a sum type an error reply. What \<open>zrealloc\<close> puts into fresh bytes and how large the
  usable block is are given by an \<open>allocator\<close>, over which every theorem is quantified. Fixed-width
  integers are words or integers with the wrap-around written out (\<open>u32\<close>, \<open>u64\<close>, \<open>s64\<close>). Loops
  that the code does not bound are \<open>partial_function (option)\<close>: not to end would be \<open>None\<close>, and
  the theorems that give a result \<open>Some\<close> show that they end. There is no fuel in the
  definitions; the other loops recurse on a counter of the code.

  \<^bold>\<open>Theories.\<close>
  \<^item> \<open>Redis_Base\<close>: memory, little-endian numbers (\<open>endianconv.c\<close>), the collections \<open>mem_simps\<close> and
    \<open>le_simps\<close>. \<open>Bits_Base\<close>: shifts and masks as arithmetic.
  \<^item> \<open>Interfaces\<close>: the contracts as locales. \<open>value_set\<close> is what a set implementation promises to
    the loops of \<open>SADD\<close> and \<open>SREM\<close>, \<open>list_ends\<close> what a list with two ends promises to the loops of
    the push and pop commands. They are interpreted on the model of \<open>intset.c\<close> (in
    \<open>Intset_Correct\<close>) and of the list type over listpacks (in \<open>T_List_Iter\<close>).
  \<^item> \<open>Intset\<close>, \<open>Intset_Correct\<close>: all of \<open>intset.c\<close>. A set is its header and its block; the abstract
    value is the strictly sorted sequence of integers. Insertion with and without a change of
    width, removal, search, and the validation of blocks from outside are exact; the 32-bit byte
    count of \<open>intsetMoveTail\<close> wraps in very large sets.
  \<^item> \<open>Util_Num\<close>, \<open>Util_Num_Correct\<close>: the integer conversions of \<open>util.c\<close> and the parser of
    \<open>listpack.c\<close>. The parsers accept exactly the canonical notation, the printers are inverse to
    them, and two acceptances that the comments rule out are shown.
  \<^item> \<open>Listpack_Enc\<close>, \<open>Listpack\<close>, \<open>Listpack_Edit\<close>: the encodings, the traversal and search, and the
    edits of \<open>listpack.c\<close>, in the order of the file. \<open>Listpack_Enc_Correct\<close> shows that decoding
    inverts encoding; \<open>Listpack_Layout\<close> has the relation between a block and the list of its
    elements and the traversal; \<open>Listpack_Find\<close>, \<open>Listpack_Insert\<close>, \<open>Listpack_Batch\<close>,
    \<open>Listpack_Range\<close> have the lemmas of one group of operations each, and \<open>Listpack_Validate\<close>
    those of the validation. \<open>Listpack_Correct\<close> has the properties: every edit refines the edit
    of a list, and a block of unknown bytes that passes validation can be walked and read safely.
  \<^item> \<open>T_List\<close>, \<open>T_List_Iter\<close>, \<open>T_List_Scan\<close>, \<open>T_List_Correct\<close>: the list type and the scans of
    \<open>LREM\<close>, \<open>LINSERT\<close>, \<open>LPOS\<close>, \<open>LRANGE\<close>, \<open>LTRIM\<close> and \<open>LSET\<close> on a list in one listpack. The iterator
    that deletes while it runs is shown to visit every element once. An index of \<open>LSET\<close> and the
    length of an element to compare with are cut to 32 bits, with the consequences shown.
  \<^item> \<open>Lzf\<close>, \<open>Lzf_Dec\<close>, \<open>Lzf_Comp\<close>, \<open>Lzf_Correct\<close>: the compressor with its hash table, whose initial
    contents are arbitrary, and the decompressor. Decompression inverts compression, and it is
    safe on any input.
  \<^item> \<open>Fwtree\<close>, \<open>Fwtree_Correct\<close>: the Fenwick tree with 64-bit nodes; updates, prefix sums and the
    searches by running sum. With \<open>2 ^ 30\<close> positions, the most a tree can have, every update
    overflows its index.
  \<^item> \<open>Bitops\<close>, \<open>Bitops_Command\<close>: counting and finding bits, fields of any width and their overflow
    rules, and the commands \<open>SETBIT\<close>, \<open>GETBIT\<close> and \<open>BITFIELD\<close> on the value of a key.
    \<open>Bitops_Field\<close>, \<open>Bitops_Exec\<close> and \<open>Bitops_Bitfield\<close> lead to the properties of \<open>BITFIELD\<close>,
    \<open>Bitops_Count\<close> and \<open>Bitops_Pos\<close> to those of the two searches, all in \<open>Bitops_Correct\<close>. A \<open>SET\<close>
    that saturates can end at the wrong end of the range, of a signed field for numbers too far
    below it and of an unsigned field for negative ones; everywhere else the overflow rules are met.

  \<^bold>\<open>Bounds.\<close> The theorems assume what the callers guarantee: that a block has the size its header
  gives, that lengths fit the integers that hold them (listpacks and integer sets below 4 GiB),
  fewer than \<open>2 ^ 29\<close> values in an integer set that grows, elements to compare with of fewer than
  \<open>2 ^ 32\<close> bytes, and for updates of a Fenwick tree fewer than \<open>2 ^ 30\<close> positions (the key space has
  at most \<open>2 ^ 16\<close>). Where these data structures go wrong beyond such a bound, a lemma or a property
  shows how.

  \<^bold>\<open>Not modelled.\<close> The random selections from listpacks, which draw from the C library; the vector
  instruction variants of the bit operations; \<open>BITOP\<close> and the argument handling of \<open>BITCOUNT\<close>
  and \<open>BITPOS\<close>; lists in more than one listpack (\<open>quicklist.c\<close>); conversions of floating-point
  numbers. Of the commands, only the work on the value is modelled, not the key space,
  notifications, replies in the wire format or statistics. The other value types, the key space,
  persistence, replication, cluster, scripting and the event loop are left out: they are
  dominated by input and output, threads, global state and other programs' protocols. So is the
  Node.js service beside the server, which is almost entirely calls of third-party packages.
\<close>

end
